(* ===== verification/Redis_Prelude.thy ===== *)
theory Redis_Prelude
  imports Main "HOL-Library.Word"
begin

text \<open>
  Shared vocabulary of the development: bytes and byte buffers, the conversions of the C
  integer types the sources rely on, little-endian storage of integers, and the memory
  primitives (\<open>memcpy\<close>, \<open>memmove\<close>, \<open>zrealloc\<close>) over a buffer modelled as a list of
  bytes. A pointer into a buffer is an offset from its start.
\<close>

section \<open>Types and rule collections\<close>

type_synonym byte = "8 word"

named_theorems buffer_simps "reads, writes and resizes of byte buffers"
named_theorems cint_simps "conversions between C integer types, in range"

section \<open>C integer conversions\<close>

text \<open>
  A value stored into a variable of an unsigned type of \<open>w\<close> bits is reduced modulo \<open>2 ^ w\<close>;
  into a signed type it is reduced to the two's complement range (what the compilers Redis
  supports do).
\<close>

definition to_unsigned :: "nat \<Rightarrow> int \<Rightarrow> int" where
  "to_unsigned w x = x mod 2 ^ w"

definition to_signed :: "nat \<Rightarrow> int \<Rightarrow> int" where
  "to_signed w x = (x + 2 ^ (w - 1)) mod 2 ^ w - 2 ^ (w - 1)"

abbreviation in_signed :: "nat \<Rightarrow> int \<Rightarrow> bool" where
  "in_signed w x \<equiv> - (2 ^ (w - 1)) \<le> x \<and> x < 2 ^ (w - 1)"

abbreviation in_unsigned :: "nat \<Rightarrow> int \<Rightarrow> bool" where
  "in_unsigned w x \<equiv> 0 \<le> x \<and> x < 2 ^ w"

lemma to_unsigned_id [cint_simps]: "in_unsigned w x \<Longrightarrow> to_unsigned w x = x"
  by (simp add: to_unsigned_def)

lemma to_signed_id [cint_simps]:
  assumes "in_signed w x" "0 < w"
  shows "to_signed w x = x"
proof -
  have "(2::int) ^ w = 2 * 2 ^ (w - 1)"
    using assms(2) by (cases w) auto
  with assms(1) show ?thesis
    by (simp add: to_signed_def)
qed

lemma to_unsigned_range: "in_unsigned w (to_unsigned w x)"
  by (simp add: to_unsigned_def)

lemma to_signed_range:
  assumes "0 < w"
  shows "in_signed w (to_signed w x)"
proof -
  have "(2::int) ^ w = 2 * 2 ^ (w - 1)"
    using assms by (cases w) auto
  moreover have "(x + 2 ^ (w - 1)) mod 2 ^ w < 2 ^ w" "0 \<le> (x + 2 ^ (w - 1)) mod 2 ^ w"
    by simp_all
  ultimately show ?thesis
    unfolding to_signed_def by linarith
qed

text \<open>
  Sizes and counts are kept as natural numbers; \<open>u32\<close> and \<open>u64\<close> are the reductions of an
  \<open>unsigned int\<close> and a \<open>size_t\<close> or \<open>unsigned long long\<close>, and \<open>usub32\<close> is subtraction of two
  \<open>uint32_t\<close> values, which wraps around below zero.
\<close>

definition u32 :: "nat \<Rightarrow> nat" where
  "u32 n = n mod 2 ^ 32"

definition u64 :: "nat \<Rightarrow> nat" where
  "u64 n = n mod 2 ^ 64"

definition usub32 :: "nat \<Rightarrow> nat \<Rightarrow> nat" where
  "usub32 a b = nat ((int a - int b) mod 2 ^ 32)"

lemma u32_id [cint_simps]: "n < 2 ^ 32 \<Longrightarrow> u32 n = n"
  by (simp add: u32_def)

lemma u64_id [cint_simps]: "n < 2 ^ 64 \<Longrightarrow> u64 n = n"
  by (simp add: u64_def)

lemma usub32_id [cint_simps]: "b \<le> a \<Longrightarrow> a < 2 ^ 32 \<Longrightarrow> usub32 a b = a - b"
  by (simp add: usub32_def flip: of_nat_diff)

text \<open>Storing a natural number into an \<open>unsigned char\<close>.\<close>

definition u8 :: "nat \<Rightarrow> byte" where
  "u8 n = of_nat n"

lemma unat_u8 [simp]: "unat (u8 n) = n mod 256"
  by (simp add: u8_def unat_of_nat)

lemma uint_u8 [simp]: "uint (u8 n) = int (n mod 256)"
  by (metis of_nat_unat unat_u8)

lemma u8_unat [simp]: "u8 (unat b) = b"
  by (simp add: u8_def)

section \<open>Integers in little-endian byte order\<close>

primrec le_bytes :: "nat \<Rightarrow> int \<Rightarrow> byte list" where
  "le_bytes 0 v = []"
| "le_bytes (Suc n) v = word_of_int v # le_bytes n (v div 256)"

primrec le_uint :: "byte list \<Rightarrow> int" where
  "le_uint [] = 0"
| "le_uint (b # bs) = uint b + 256 * le_uint bs"

definition le_sint :: "byte list \<Rightarrow> int" where
  "le_sint bs = to_signed (8 * length bs) (le_uint bs)"

lemma length_le_bytes [simp]: "length (le_bytes n v) = n"
  by (induction n arbitrary: v) simp_all

lemma uint_byte_of_int [simp]: "uint (word_of_int v :: byte) = v mod 256"
  by (simp add: uint_word_of_int)

lemma uint_byte_range: "0 \<le> uint (b :: byte)" "uint (b :: byte) < 256"
  using uint_lt2p [of b] by simp_all

lemma byte_modulus_0: "(256 :: byte) = 0"
  by simp

lemma le_uint_range: "in_unsigned (8 * length bs) (le_uint bs)"
proof (induction bs)
  case (Cons b bs)
  have "(2::int) ^ (8 * length (b # bs)) = 256 * 2 ^ (8 * length bs)"
    by (simp add: power_add)
  then show ?case
    using Cons uint_byte_range [of b] by simp
qed simp

lemma le_uint_le_bytes [simp]: "le_uint (le_bytes n v) = v mod 2 ^ (8 * n)"
proof (induction n arbitrary: v)
  case (Suc n)
  have p: "(2::int) ^ (8 * Suc n) = 256 * 2 ^ (8 * n)"
    by (simp add: power_add)
  show ?case
    unfolding p zmod_zmult2_eq [OF zero_le_power [of "2::int"], simplified]
    by (simp add: Suc)
qed simp

lemma le_bytes_le_uint [simp]: "le_bytes (length bs) (le_uint bs) = bs"
proof (induction bs)
  case (Cons b bs)
  have "(uint b + 256 * le_uint bs) div 256 = le_uint bs"
    using uint_byte_range [of b] by simp
  moreover have "(word_of_int (uint b + 256 * le_uint bs) :: byte) = b"
    by (simp only: of_int_add of_int_mult of_int_numeral byte_modulus_0) simp
  ultimately show ?case
    by (simp add: Cons)
qed simp

lemma le_sint_le_bytes:
  assumes "0 < n" "in_signed (8 * n) v"
  shows "le_sint (le_bytes n v) = v"
proof -
  have "le_sint (le_bytes n v) = to_signed (8 * n) v"
    by (simp add: le_sint_def to_signed_def mod_add_left_eq)
  also have "\<dots> = v"
    using assms by (intro to_signed_id) auto
  finally show ?thesis .
qed

lemma le_sint_range:
  assumes "bs \<noteq> []"
  shows "in_signed (8 * length bs) (le_sint bs)"
  unfolding le_sint_def by (rule to_signed_range) (use assms in simp)

section \<open>Byte buffers\<close>

text \<open>
  \<open>slice bs i n\<close> is what \<open>memcpy\<close> reads from \<open>n\<close> bytes at offset \<open>i\<close>; \<open>splice bs i xs\<close> is
  the buffer after the bytes \<open>xs\<close> were stored at offset \<open>i\<close>; \<open>memmove\<close> copies within one
  buffer. \<open>zrealloc fill bs n\<close> is the block after a resize to \<open>n\<close> bytes: the common prefix is
  kept and the bytes beyond it are whatever the allocator left there (\<open>fill\<close>, arbitrary).
  Reads and writes outside a buffer are undefined behaviour in C; the theorems of the
  components establish that offsets stay in range.
\<close>

definition slice :: "'a list \<Rightarrow> nat \<Rightarrow> nat \<Rightarrow> 'a list" where
  "slice bs i n = take n (drop i bs)"

definition splice_at :: "'a list \<Rightarrow> nat \<Rightarrow> 'a list \<Rightarrow> 'a list" where
  "splice_at bs i xs = take i bs @ xs @ drop (i + length xs) bs"

definition memmove :: "'a list \<Rightarrow> nat \<Rightarrow> nat \<Rightarrow> nat \<Rightarrow> 'a list" where
  "memmove bs dst src n = splice_at bs dst (slice bs src n)"

definition zrealloc :: "(nat \<Rightarrow> 'a) \<Rightarrow> 'a list \<Rightarrow> nat \<Rightarrow> 'a list" where
  "zrealloc fill bs n = take n bs @ map fill [length bs..<n]"

lemma length_slice [buffer_simps]: "i + n \<le> length bs \<Longrightarrow> length (slice bs i n) = n"
  by (simp add: slice_def)

lemma length_splice_at [buffer_simps]:
  "i + length xs \<le> length bs \<Longrightarrow> length (splice_at bs i xs) = length bs"
  by (simp add: splice_at_def)

lemma length_memmove [buffer_simps]:
  "dst + n \<le> length bs \<Longrightarrow> src + n \<le> length bs \<Longrightarrow> length (memmove bs dst src n) = length bs"
  by (simp add: memmove_def length_splice_at length_slice)

lemma length_zrealloc [simp]: "length (zrealloc fill bs n) = n"
  by (simp add: zrealloc_def)

lemma slice_splice_same [buffer_simps]:
  "i + length xs \<le> length bs \<Longrightarrow> slice (splice_at bs i xs) i (length xs) = xs"
  by (simp add: slice_def splice_at_def)

lemma nth_splice_at:
  assumes "i + length xs \<le> length bs" "j < length bs"
  shows "splice_at bs i xs ! j = (if i \<le> j \<and> j < i + length xs then xs ! (j - i) else bs ! j)"
  using assms by (auto simp: splice_at_def nth_append min_def)

lemma nth_slice: "j < n \<Longrightarrow> i + n \<le> length bs \<Longrightarrow> slice bs i n ! j = bs ! (i + j)"
  by (simp add: slice_def)

lemma slice_eqI:
  assumes "i + n \<le> length bs" "j + n \<le> length cs"
    and "\<And>k. k < n \<Longrightarrow> bs ! (i + k) = cs ! (j + k)"
  shows "slice bs i n = slice cs j n"
  using assms by (intro nth_equalityI) (auto simp: length_slice nth_slice)

lemma slice_splice_other [buffer_simps]:
  assumes "i + length xs \<le> length bs" "j + n \<le> length bs" "j + n \<le> i \<or> i + length xs \<le> j"
  shows "slice (splice_at bs i xs) j n = slice bs j n"
  using assms by (intro slice_eqI) (auto simp: length_splice_at nth_splice_at)

lemma slice_zrealloc [buffer_simps]:
  "j + n \<le> length bs \<Longrightarrow> j + n \<le> m \<Longrightarrow> slice (zrealloc fill bs m) j n = slice bs j n"
  by (intro slice_eqI) (auto simp: zrealloc_def nth_append)

lemma slice_memmove_in [buffer_simps]:
  assumes "dst + n \<le> length bs" "src + n \<le> length bs" "dst \<le> j" "j + m \<le> dst + n"
  shows "slice (memmove bs dst src n) j m = slice bs (src + (j - dst)) m"
  using assms
  by (intro slice_eqI) (auto simp: memmove_def length_splice_at length_slice nth_splice_at nth_slice add.assoc)

lemma slice_memmove_out [buffer_simps]:
  assumes "dst + n \<le> length bs" "src + n \<le> length bs" "j + m \<le> length bs"
    and "j + m \<le> dst \<or> dst + n \<le> j"
  shows "slice (memmove bs dst src n) j m = slice bs j m"
  using assms by (simp add: memmove_def slice_splice_other length_slice)

section \<open>Exclusive or on words\<close>

lemma xor_right_cancel [simp]: "xor a c = xor b c \<longleftrightarrow> a = (b :: 'a :: len word)"
  by (metis xor.assoc xor.right_neutral xor_self_eq)

lemma xor_left_cancel [simp]: "xor c a = xor c b \<longleftrightarrow> a = (b :: 'a :: len word)"
  by (simp add: xor.commute [of c])

end
