(* ===== verification/Endianconv.thy ===== *)
theory Endianconv
  imports Redis_Prelude
begin

text \<open>
  \<^verbatim>\<open>redis-3.0.0/src/endianconv.c\<close> and \<^verbatim>\<open>endianconv.h\<close>: reversal of the bytes of 16, 32 and 64 bit
  integers. The on-disk and in-memory blobs of Redis (intsets, ziplists, RDB files) are
  little endian; the \<open>...ifbe\<close> macros do nothing on a little-endian host, which is the host
  the rest of the development models, and reverse on a big-endian one.
\<close>

section \<open>Operations\<close>

definition memrev16 :: "byte list \<Rightarrow> byte list" where
  "memrev16 x =
     (let t = x ! 0; x = x[0 := x ! 1]; x = x[1 := t] in x)"

definition memrev32 :: "byte list \<Rightarrow> byte list" where
  "memrev32 x =
     (let t = x ! 0; x = x[0 := x ! 3]; x = x[3 := t];
          t = x ! 1; x = x[1 := x ! 2]; x = x[2 := t] in x)"

definition memrev64 :: "byte list \<Rightarrow> byte list" where
  "memrev64 x =
     (let t = x ! 0; x = x[0 := x ! 7]; x = x[7 := t];
          t = x ! 1; x = x[1 := x ! 6]; x = x[6 := t];
          t = x ! 2; x = x[2 := x ! 5]; x = x[5 := t];
          t = x ! 3; x = x[3 := x ! 4]; x = x[4 := t] in x)"

text \<open>The \<open>intrev\<close> functions reverse the storage of their argument, here on a little-endian host.\<close>

definition intrev16 :: "int \<Rightarrow> int" where
  "intrev16 v = le_uint (memrev16 (le_bytes 2 v))"

definition intrev32 :: "int \<Rightarrow> int" where
  "intrev32 v = le_uint (memrev32 (le_bytes 4 v))"

definition intrev64 :: "int \<Rightarrow> int" where
  "intrev64 v = le_uint (memrev64 (le_bytes 8 v))"

section \<open>Properties\<close>

lemma list_length2: "length xs = 2 \<Longrightarrow> \<exists>a b. xs = [a, b]"
  by (auto simp: numeral_eq_Suc length_Suc_conv)

lemma list_length4: "length xs = 4 \<Longrightarrow> \<exists>a b c d. xs = [a, b, c, d]"
  by (auto simp: numeral_eq_Suc length_Suc_conv)

lemma list_length8:
  "length xs = 8 \<Longrightarrow> \<exists>a b c d e f g h. xs = [a, b, c, d, e, f, g, h]"
  by (auto simp: numeral_eq_Suc length_Suc_conv)

lemma memrev16_rev: "length x = 2 \<Longrightarrow> memrev16 x = rev x"
  by (drule list_length2) (auto simp: memrev16_def)

lemma memrev32_rev: "length x = 4 \<Longrightarrow> memrev32 x = rev x"
  by (drule list_length4) (auto simp: memrev32_def numeral_eq_Suc)

lemma memrev64_rev: "length x = 8 \<Longrightarrow> memrev64 x = rev x"
  by (drule list_length8) (auto simp: memrev64_def numeral_eq_Suc)

lemmas memrev_rev = memrev16_rev memrev32_rev memrev64_rev

lemma le_bytes_uint_length: "length bs = n \<Longrightarrow> le_bytes n (le_uint bs) = bs"
  using le_bytes_le_uint [of bs] by simp

lemma le_uint_rev_involutive:
  assumes "in_unsigned (8 * n) v"
  shows "le_uint (rev (le_bytes n (le_uint (rev (le_bytes n v))))) = v"
  using assms by (simp add: le_bytes_uint_length)

text \<open>
  A value stored by a big-endian host and then reversed in place has the little-endian
  representation, at each of the three widths.
\<close>

definition be_bytes :: "nat \<Rightarrow> int \<Rightarrow> byte list" where
  "be_bytes n v = rev (le_bytes n v)"

lemma memrev_be_bytes:
  "memrev16 (be_bytes 2 v) = le_bytes 2 v"
  "memrev32 (be_bytes 4 v) = le_bytes 4 v"
  "memrev64 (be_bytes 8 v) = le_bytes 8 v"
  by (simp_all add: be_bytes_def memrev_rev)

text \<open>
  Byte reversal of a 64, 32 or 16 bit unsigned integer is its own inverse, so a value
  converted on save is recovered on load.
\<close>

theorem intrev_involutive:
  "(in_unsigned 16 v \<longrightarrow> intrev16 (intrev16 v) = v) \<and>
   (in_unsigned 32 v \<longrightarrow> intrev32 (intrev32 v) = v) \<and>
   (in_unsigned 64 v \<longrightarrow> intrev64 (intrev64 v) = v)"
  using le_uint_rev_involutive [of v 2] le_uint_rev_involutive [of v 4]
    le_uint_rev_involutive [of v 8]
  by (simp add: intrev16_def intrev32_def intrev64_def memrev_rev)

theorem intrev_involutive_witness:
  "in_unsigned 16 0x1234 \<and> in_unsigned 32 0x12345678 \<and>
   intrev16 (intrev16 0x1234) = 0x1234 \<and> intrev32 (intrev32 0x12345678) = 0x12345678"
  using intrev_involutive [of "0x1234"] intrev_involutive [of "0x12345678"] by simp

end
