(* ===== verification/Memory.thy ===== *)
theory Memory
  imports Redis_Prelude "HOL-Library.Monad_Syntax"
begin

text \<open>
  Checked accesses to a block of memory, a list of bytes: an access that is not wholly inside
  the block is a fault (\<open>None\<close>). \<open>load_n\<close> and \<open>store_n\<close> are \<open>memcpy\<close> from and into a block, \<open>move_n\<close>
  is \<open>memmove\<close> inside one; \<open>c_strlen\<close> and \<open>c_strchr\<close> are the library functions on the C string
  that a block starts with, and fault when the block has no terminator. Sizes (\<open>size_t\<close>) are
  natural numbers: they are sizes of objects in memory, which do not reach \<open>2 ^ 64\<close>.
\<close>

definition load :: "'a list \<Rightarrow> nat \<Rightarrow> 'a option" where
  "load m i = (if i < length m then Some (m ! i) else None)"

definition store :: "'a list \<Rightarrow> nat \<Rightarrow> 'a \<Rightarrow> 'a list option" where
  "store m i x = (if i < length m then Some (m[i := x]) else None)"

definition load_n :: "'a list \<Rightarrow> nat \<Rightarrow> nat \<Rightarrow> 'a list option" where
  "load_n m i n = (if i + n \<le> length m then Some (slice m i n) else None)"

definition store_n :: "'a list \<Rightarrow> nat \<Rightarrow> 'a list \<Rightarrow> 'a list option" where
  "store_n m i xs = (if i + length xs \<le> length m then Some (splice_at m i xs) else None)"

definition move_n :: "'a list \<Rightarrow> nat \<Rightarrow> nat \<Rightarrow> nat \<Rightarrow> 'a list option" where
  "move_n m dst src n = do { xs \<leftarrow> load_n m src n; store_n m dst xs }"

fun c_strlen :: "byte list \<Rightarrow> nat option" where
  "c_strlen [] = None"
| "c_strlen (x # xs) = (if x = 0 then Some 0 else map_option Suc (c_strlen xs))"

fun c_strchr :: "byte list \<Rightarrow> byte \<Rightarrow> bool option" where
  "c_strchr [] c = None"
| "c_strchr (x # xs) c = (if x = c then Some True else if x = 0 then Some False else c_strchr xs c)"

section \<open>In range\<close>

named_theorems mem_simps \<open>evaluation of checked accesses that are in range\<close>

lemma load_in [mem_simps]: "i < length m \<Longrightarrow> load m i = Some (m ! i)"
  by (simp add: load_def)

lemma store_in [mem_simps]: "i < length m \<Longrightarrow> store m i x = Some (m[i := x])"
  by (simp add: store_def)

lemma load_n_in [mem_simps]: "i + n \<le> length m \<Longrightarrow> load_n m i n = Some (slice m i n)"
  by (simp add: load_n_def)

lemma store_n_in [mem_simps]: "i + length xs \<le> length m \<Longrightarrow> store_n m i xs = Some (splice_at m i xs)"
  by (simp add: store_n_def)

lemma move_n_in [mem_simps]:
  "dst + n \<le> length m \<Longrightarrow> src + n \<le> length m \<Longrightarrow> move_n m dst src n = Some (splice_at m dst (slice m src n))"
  by (simp add: move_n_def mem_simps length_slice)

lemma load_n_0 [mem_simps]: "load_n m 0 (length m) = Some m"
  by (simp add: load_n_def slice_def)

lemma load_n_append [mem_simps]: "load_n (xs @ ys) 0 (length xs) = Some xs"
  by (simp add: load_n_def slice_def)

lemma length_splice_at_eq [simp]: "i + length xs \<le> length m \<Longrightarrow> length (splice_at m i xs) = length m"
  by (simp add: splice_at_def)

lemma take_splice_at: "i + length xs \<le> length m \<Longrightarrow> take (i + length xs) (splice_at m i xs) = take i m @ xs"
  by (simp add: splice_at_def)

lemma take_splice_at_0: "length xs \<le> length m \<Longrightarrow> take (length xs) (splice_at m 0 xs) = xs"
  by (simp add: splice_at_def)

lemma take_zrealloc: "n \<le> length m \<Longrightarrow> n \<le> k \<Longrightarrow> take n (zrealloc fill m k) = take n m"
  by (simp add: zrealloc_def min_def)

lemma slice_Cons:
  assumes "i < length m" "0 < n"
  shows "slice m i n = m ! i # slice m (i + 1) (n - 1)"
proof -
  have "drop i m = m ! i # drop (i + 1) m"
    using assms(1) by (simp add: Cons_nth_drop_Suc)
  then show ?thesis
    using assms(2) by (cases n) (simp_all add: slice_def)
qed

section \<open>Contents at a position\<close>

definition holds :: "'a list \<Rightarrow> nat \<Rightarrow> 'a list \<Rightarrow> bool" where
  "holds m p xs \<longleftrightarrow> (\<exists>a b. m = a @ xs @ b \<and> length a = p)"

lemma holds_append: "holds m p (xs @ ys) \<longleftrightarrow> holds m p xs \<and> holds m (p + length xs) ys"
proof
  assume "holds m p (xs @ ys)"
  then obtain a b where "m = a @ xs @ ys @ b" "length a = p"
    by (auto simp: holds_def)
  then have "m = a @ xs @ (ys @ b)" "length a = p" "m = (a @ xs) @ ys @ b" "length (a @ xs) = p + length xs"
    by simp_all
  then show "holds m p xs \<and> holds m (p + length xs) ys"
    unfolding holds_def by blast
next
  assume "holds m p xs \<and> holds m (p + length xs) ys"
  then obtain a b c d where ab: "m = a @ xs @ b" "length a = p" and cd: "m = c @ ys @ d" "length c = p + length xs"
    unfolding holds_def by blast
  have "b = drop (p + length xs) m"
    using ab by simp
  also have "\<dots> = ys @ d"
    using cd by (metis append_eq_conv_conj)
  finally show "holds m p (xs @ ys)"
    using ab by (auto simp: holds_def)
qed

lemma holds_Cons: "holds m p (x # xs) \<longleftrightarrow> load m p = Some x \<and> holds m (p + 1) xs"
proof -
  have "holds m p [x] \<longleftrightarrow> load m p = Some x"
  proof
    assume "load m p = Some x"
    then have "m = take p m @ [x] @ drop (Suc p) m" "length (take p m) = p"
      by (auto simp: load_def id_take_nth_drop split: if_splits)
    then show "holds m p [x]"
      unfolding holds_def by blast
  qed (auto simp: holds_def load_def)
  then show ?thesis
    using holds_append [of m p "[x]" xs] by simp
qed

lemma load_n_holds: "holds m p xs \<Longrightarrow> load_n m p (length xs) = Some xs"
  by (auto simp: holds_def load_n_def slice_def)

lemma holds_mid: "length a = p \<Longrightarrow> holds (a @ xs @ b) p xs"
  by (auto simp: holds_def)

lemma store_n_mid: "length a = p \<Longrightarrow> length ys = length xs \<Longrightarrow> store_n (a @ xs @ b) p ys = Some (a @ ys @ b)"
  by (simp add: store_n_def splice_at_def)

lemma store_mid: "length a = p \<Longrightarrow> store (a @ x # b) p y = Some (a @ y # b)"
  by (auto simp: store_def)

text \<open>Moving \<open>xs\<close> to the right over \<open>gap\<close>, and to the left over \<open>gap\<close>.\<close>

lemma move_n_right:
  assumes "dst = length a + length x + length gap" "src = length a + length x" "n = length xs"
  shows "move_n (a @ x @ xs @ gap @ z) dst src n = Some (a @ take (length x + length gap) (x @ xs @ gap) @ xs @ z)"
  using assms by (simp add: move_n_def load_n_def store_n_def slice_def splice_at_def)

lemma move_n_left:
  assumes "dst = length a" "src = length a + length gap" "n = length xs"
  shows "move_n (a @ gap @ xs @ z) dst src n = Some (a @ xs @ drop (length xs) (gap @ xs) @ z)"
  using assms by (simp add: move_n_def load_n_def store_n_def slice_def splice_at_def)

section \<open>C strings\<close>

lemma c_strlen_append [simp]: "0 \<notin> set t \<Longrightarrow> c_strlen (t @ 0 # rest) = Some (length t)"
  by (induction t) auto

lemma c_strchr_append [simp]: "0 \<notin> set t \<Longrightarrow> c_strchr (t @ 0 # rest) c = Some (c \<in> set t \<or> c = 0)"
  by (induction t) auto

lemma c_strlen_terminated:
  assumes "0 \<in> set m"
  shows "\<exists>t rest. m = t @ 0 # rest \<and> 0 \<notin> set t"
  using split_list_first [OF assms] .

end
