(* ===== verification/Set_Store.thy ===== *)
theory Set_Store
  imports Main
begin

text \<open>
  The contract a set container of Redis offers to the set data type (\<^verbatim>\<open>t_set.c\<close>): insertion
  that reports whether the element was new, deletion that reports whether it was present,
  membership and cardinality. Both containers behind the Redis set type provide it. Elements
  may have to satisfy \<open>valid\<close> (an intset holds 64 bit integers only) and a container may need
  \<open>room\<close> for one more element. Every operation promises to give \<open>Some\<close>: on a container that
  satisfies the invariant none of them faults.
\<close>

locale set_store =
  fixes new :: 's
    and add :: "'s \<Rightarrow> 'a \<Rightarrow> ('s \<times> bool) option"
    and remove :: "'s \<Rightarrow> 'a \<Rightarrow> ('s \<times> bool) option"
    and find :: "'s \<Rightarrow> 'a \<Rightarrow> bool option"
    and card_of :: "'s \<Rightarrow> nat"
    and elems :: "'s \<Rightarrow> 'a set"
    and invar :: "'s \<Rightarrow> bool"
    and room :: "'s \<Rightarrow> bool"
    and valid :: "'a \<Rightarrow> bool"
  assumes new_invar: "invar new"
    and new_elems: "elems new = {}"
    and add_spec: "invar s \<Longrightarrow> room s \<Longrightarrow> valid x \<Longrightarrow>
      \<exists>s' b. add s x = Some (s', b) \<and> invar s' \<and> elems s' = insert x (elems s) \<and> (b \<longleftrightarrow> x \<notin> elems s)"
    and remove_spec: "invar s \<Longrightarrow> valid x \<Longrightarrow>
      \<exists>s' b. remove s x = Some (s', b) \<and> invar s' \<and> elems s' = elems s - {x} \<and> (b \<longleftrightarrow> x \<in> elems s)"
    and find_spec: "invar s \<Longrightarrow> valid x \<Longrightarrow> find s x = Some (x \<in> elems s)"
    and finite_elems: "invar s \<Longrightarrow> finite (elems s)"
    and card_of_eq: "invar s \<Longrightarrow> card_of s = card (elems s)"
begin

lemma find_add:
  assumes "invar s" "room s" "valid x" "valid y" "add s x = Some (s', b)"
  shows "find s' y = Some (x = y \<or> y \<in> elems s)"
  using add_spec [OF assms(1-3)] assms(4,5) by (auto simp: find_spec)

lemma find_remove:
  assumes "invar s" "valid x" "valid y" "remove s x = Some (s', b)"
  shows "find s' y = Some (x \<noteq> y \<and> y \<in> elems s)"
  using remove_spec [OF assms(1,2)] assms(3,4) by (auto simp: find_spec)

lemma card_add:
  assumes "invar s" "room s" "valid x" "add s x = Some (s', b)"
  shows "card_of s' = card_of s + (if b then 1 else 0)"
  using add_spec [OF assms(1-3)] assms(1,4)
  by (auto simp: card_of_eq finite_elems insert_absorb)

lemma card_remove:
  assumes "invar s" "valid x" "remove s x = Some (s', b)"
  shows "card_of s' + (if b then 1 else 0) = card_of s"
proof -
  have "card (elems s) > 0" if "x \<in> elems s"
    using that assms finite_elems card_gt_0_iff by blast
  then show ?thesis
    using remove_spec [OF assms(1,2)] assms(1,3) by (auto simp: card_of_eq finite_elems)
qed

lemma add_new_then_remove:
  assumes "invar s" "room s" "valid x" "add s x = Some (s', True)"
  shows "\<exists>s''. remove s' x = Some (s'', True) \<and> invar s'' \<and> elems s'' = elems s"
  using add_spec [OF assms(1-3)] remove_spec [of s' x] assms(3,4) by auto

end

end
