(* ===== verification/Intset.thy ===== *)
theory Intset
  imports Endianconv Memory Set_Store
begin

text \<open>
  \<^verbatim>\<open>redis-3.0.0/src/intset.c\<close>: a sorted set of integers in one block of memory. Every element
  takes \<open>encoding\<close> bytes (2, 4 or 8), little endian; adding a value that does not fit the
  current encoding first rewrites the whole block in a wider one. The record is the C struct
  (\<open>contents\<close> is the flexible array member as raw bytes), and each function works on those
  bytes as the code does. The theorems show that the bytes represent a strictly increasing
  sequence of 64 bit integers and that the operations are those of a finite set.

  A \<open>uint8_t\<close> result used as a truth value is a \<open>bool\<close>; a result stored through a pointer
  argument is returned in a pair. Reads, stores and moves are checked against the block: the outer
  \<open>None\<close> is an access outside it. The bytes an enlarged block gains are arbitrary: every
  operation that resizes takes them as its argument \<open>fill\<close>.
\<close>

section \<open>The structure and its accessors\<close>

record intset =
  is_encoding :: nat
  is_length :: nat
  is_contents :: "byte list"

definition INTSET_ENC_INT16 :: nat where "INTSET_ENC_INT16 = 2"
definition INTSET_ENC_INT32 :: nat where "INTSET_ENC_INT32 = 4"
definition INTSET_ENC_INT64 :: nat where "INTSET_ENC_INT64 = 8"

lemmas intset_enc_defs = INTSET_ENC_INT16_def INTSET_ENC_INT32_def INTSET_ENC_INT64_def

definition intsetValueEncoding :: "int \<Rightarrow> nat" where
  "intsetValueEncoding v =
     (if v < - (2 ^ 31) \<or> v > 2 ^ 31 - 1 then INTSET_ENC_INT64
      else if v < - (2 ^ 15) \<or> v > 2 ^ 15 - 1 then INTSET_ENC_INT32
      else INTSET_ENC_INT16)"

definition intsetGetEncoded :: "intset \<Rightarrow> nat \<Rightarrow> nat \<Rightarrow> int option" where
  "intsetGetEncoded is pos enc =
     (if enc = INTSET_ENC_INT64 then do { bs \<leftarrow> load_n (is_contents is) (pos * 8) 8; Some (le_sint bs) }
      else if enc = INTSET_ENC_INT32 then do { bs \<leftarrow> load_n (is_contents is) (pos * 4) 4; Some (le_sint bs) }
      else do { bs \<leftarrow> load_n (is_contents is) (pos * 2) 2; Some (le_sint bs) })"

definition intset_get :: "intset \<Rightarrow> nat \<Rightarrow> int option" where
  "intset_get is pos = intsetGetEncoded is pos (is_encoding is)"

definition intsetSet :: "intset \<Rightarrow> nat \<Rightarrow> int \<Rightarrow> intset option" where
  "intsetSet is pos value =
     (if is_encoding is = INTSET_ENC_INT64 then do {
        c \<leftarrow> store_n (is_contents is) (pos * 8) (le_bytes 8 value);
        Some (is\<lparr>is_contents := c\<rparr>) }
      else if is_encoding is = INTSET_ENC_INT32 then do {
        c \<leftarrow> store_n (is_contents is) (pos * 4) (le_bytes 4 value);
        Some (is\<lparr>is_contents := c\<rparr>) }
      else do {
        c \<leftarrow> store_n (is_contents is) (pos * 2) (le_bytes 2 value);
        Some (is\<lparr>is_contents := c\<rparr>) })"

definition intsetNew :: intset where
  "intsetNew = \<lparr>is_encoding = INTSET_ENC_INT16, is_length = 0, is_contents = []\<rparr>"

definition intsetResize :: "(nat \<Rightarrow> byte) \<Rightarrow> intset \<Rightarrow> nat \<Rightarrow> intset" where
  "intsetResize fill is len =
     (let size = u32 (len * is_encoding is)
      in is\<lparr>is_contents := zrealloc fill (is_contents is) size\<rparr>)"

section \<open>Binary search\<close>

text \<open>
  The loop of \<open>intsetSearch\<close> on its variables \<open>min\<close> (\<open>mn\<close>), \<open>max\<close> (\<open>mx\<close>), \<open>mid\<close> and \<open>cur\<close>. The midpoint is
  computed in \<open>unsigned int\<close>: the sum of two non-negative \<open>int\<close>s does not wrap there, so it is
  the mathematical midpoint (\<open>unsigned_midpoint\<close> below).
\<close>

function intsetSearch_loop ::
  "intset \<Rightarrow> int \<Rightarrow> int \<Rightarrow> int \<Rightarrow> int \<Rightarrow> int \<Rightarrow> (int \<times> int \<times> int \<times> int) option" where
  "intsetSearch_loop is value mn mx mid cur =
     (if mx \<ge> mn then do {
        let mid = (mn + mx) div 2;
        cur \<leftarrow> intset_get is (nat mid);
        if value > cur then intsetSearch_loop is value (mid + 1) mx mid cur
        else if value < cur then intsetSearch_loop is value mn (mid - 1) mid cur
        else Some (mn, mx, mid, cur) }
      else Some (mn, mx, mid, cur))"
  by pat_completeness auto
termination
  by (relation "measure (\<lambda>(is, value, mn, mx, mid, cur). nat (mx - mn + 1))") auto

declare intsetSearch_loop.simps [simp del]

definition intsetSearch :: "intset \<Rightarrow> int \<Rightarrow> (bool \<times> nat) option" where
  "intsetSearch is value =
     (if is_length is = 0 then Some (False, 0)
      else do {
        last \<leftarrow> intset_get is (is_length is - 1);
        if value > last then Some (False, is_length is)
        else do {
          first \<leftarrow> intset_get is 0;
          if value < first then Some (False, 0)
          else do {
            (mn, mx, mid, cur) \<leftarrow> intsetSearch_loop is value 0 (int (is_length is) - 1) (-1) (-1);
            Some (if value = cur then (True, nat mid) else (False, nat mn)) } } })"

section \<open>Updates\<close>

text \<open>The loop \<open>while(length--)\<close> that moves the elements to the wider encoding, back to front.\<close>

primrec intsetUpgrade_loop :: "intset \<Rightarrow> nat \<Rightarrow> nat \<Rightarrow> nat \<Rightarrow> intset option" where
  "intsetUpgrade_loop is curenc prepend 0 = Some is"
| "intsetUpgrade_loop is curenc prepend (Suc len) = do {
     v \<leftarrow> intsetGetEncoded is len curenc;
     is \<leftarrow> intsetSet is (len + prepend) v;
     intsetUpgrade_loop is curenc prepend len }"

definition intsetUpgradeAndAdd :: "(nat \<Rightarrow> byte) \<Rightarrow> intset \<Rightarrow> int \<Rightarrow> intset option" where
  "intsetUpgradeAndAdd fill is value = do {
     let curenc = is_encoding is;
     let newenc = intsetValueEncoding value;
     let len = is_length is;
     let prepend = (if value < 0 then 1 else 0);
     let is = is\<lparr>is_encoding := newenc\<rparr>;
     let is = intsetResize fill is (u32 (is_length is + 1));
     is \<leftarrow> intsetUpgrade_loop is curenc prepend len;
     is \<leftarrow> (if prepend \<noteq> 0 then intsetSet is 0 value else intsetSet is (is_length is) value);
     Some (is\<lparr>is_length := u32 (is_length is + 1)\<rparr>) }"

definition intsetMoveTail :: "intset \<Rightarrow> nat \<Rightarrow> nat \<Rightarrow> intset option" where
  "intsetMoveTail is from to = do {
     let bytes = usub32 (is_length is) from;
     let width = (if is_encoding is = INTSET_ENC_INT64 then 8
                  else if is_encoding is = INTSET_ENC_INT32 then 4 else 2);
     c \<leftarrow> move_n (is_contents is) (to * width) (from * width) (u32 (bytes * width));
     Some (is\<lparr>is_contents := c\<rparr>) }"

definition intsetAdd :: "(nat \<Rightarrow> byte) \<Rightarrow> intset \<Rightarrow> int \<Rightarrow> (intset \<times> bool) option" where
  "intsetAdd fill is value = do {
     let valenc = intsetValueEncoding value;
     if valenc > is_encoding is then do { is \<leftarrow> intsetUpgradeAndAdd fill is value; Some (is, True) }
     else do {
       (found, pos) \<leftarrow> intsetSearch is value;
       if found then Some (is, False)
       else do {
         let is = intsetResize fill is (u32 (is_length is + 1));
         is \<leftarrow> (if pos < is_length is then intsetMoveTail is pos (u32 (pos + 1)) else Some is);
         is \<leftarrow> intsetSet is pos value;
         Some (is\<lparr>is_length := u32 (is_length is + 1)\<rparr>, True) } } }"

definition intsetRemove :: "(nat \<Rightarrow> byte) \<Rightarrow> intset \<Rightarrow> int \<Rightarrow> (intset \<times> bool) option" where
  "intsetRemove fill is value = do {
     let valenc = intsetValueEncoding value;
     (found, pos) \<leftarrow> (if valenc \<le> is_encoding is then intsetSearch is value else Some (False, 0));
     if found then do {
       let len = is_length is;
       is \<leftarrow> (if pos < usub32 len 1 then intsetMoveTail is (u32 (pos + 1)) pos else Some is);
       let is = intsetResize fill is (usub32 len 1);
       Some (is\<lparr>is_length := usub32 len 1\<rparr>, True) }
     else Some (is, False) }"

section \<open>Queries\<close>

definition intsetFind :: "intset \<Rightarrow> int \<Rightarrow> bool option" where
  "intsetFind is value = do {
     let valenc = intsetValueEncoding value;
     if valenc \<le> is_encoding is then do { (found, pos) \<leftarrow> intsetSearch is value; Some found } else Some False }"

text \<open>\<open>rnd\<close> is the result of \<open>rand()\<close>; \<open>None\<close> is also the division by zero on an empty set.\<close>

definition intsetRandom :: "nat \<Rightarrow> intset \<Rightarrow> int option" where
  "intsetRandom rnd is = (if is_length is = 0 then None else intset_get is (rnd mod is_length is))"

text \<open>The inner \<open>None\<close> is the result 0, with which nothing is stored through \<open>value\<close>.\<close>

definition intsetGet :: "intset \<Rightarrow> nat \<Rightarrow> int option option" where
  "intsetGet is pos = (if pos < is_length is then do { v \<leftarrow> intset_get is pos; Some (Some v) } else Some None)"

definition intsetLen :: "intset \<Rightarrow> nat" where
  "intsetLen is = is_length is"

definition intsetBlobLen :: "intset \<Rightarrow> nat" where
  "intsetBlobLen is = 8 + u32 (is_length is * is_encoding is)"

section \<open>The represented sequence and the invariant\<close>

text \<open>
  What the accessors do on positions inside the block: the number in a slot, the block with a slot
  overwritten, with its tail moved, and with its first elements rewritten in the current encoding. The
  lemmas \<open>intsetGetEncoded_in\<close>, \<open>intsetSet_in\<close>, \<open>intsetMoveTail_in\<close> and \<open>widened_correct\<close> connect them
  with the code.
\<close>

definition elem_enc :: "intset \<Rightarrow> nat \<Rightarrow> nat \<Rightarrow> int" where
  "elem_enc is pos enc = le_sint (slice (is_contents is) (pos * enc) enc)"

definition elem_at :: "intset \<Rightarrow> nat \<Rightarrow> int" where
  "elem_at is pos = elem_enc is pos (is_encoding is)"

definition with_elem :: "intset \<Rightarrow> nat \<Rightarrow> int \<Rightarrow> intset" where
  "with_elem is pos v =
     is\<lparr>is_contents := splice_at (is_contents is) (pos * is_encoding is) (le_bytes (is_encoding is) v)\<rparr>"

definition with_tail :: "intset \<Rightarrow> nat \<Rightarrow> nat \<Rightarrow> intset" where
  "with_tail is from to =
     is\<lparr>is_contents := memmove (is_contents is) (to * is_encoding is) (from * is_encoding is)
           ((is_length is - from) * is_encoding is)\<rparr>"

primrec widened :: "intset \<Rightarrow> nat \<Rightarrow> nat \<Rightarrow> nat \<Rightarrow> intset" where
  "widened is curenc prepend 0 = is"
| "widened is curenc prepend (Suc len) =
     widened (with_elem is (len + prepend) (elem_enc is len curenc)) curenc prepend len"

definition intset_elems :: "intset \<Rightarrow> int list" where
  "intset_elems is = map (elem_at is) [0..<is_length is]"

definition intset_ok :: "intset \<Rightarrow> bool" where
  "intset_ok is \<longleftrightarrow>
     is_encoding is \<in> {2, 4, 8} \<and> is_length is < 2 ^ 28 \<and>
     length (is_contents is) = is_length is * is_encoding is \<and>
     sorted_wrt (<) (intset_elems is)"

lemma unsigned_midpoint:
  assumes "0 \<le> mn" "mn \<le> mx" "in_signed 32 mx"
  shows "to_unsigned 32 (to_unsigned 32 mn + to_unsigned 32 mx) div 2 = (mn + mx) div 2"
  using assms by (simp add: to_unsigned_id)

lemma intsetGetEncoded_in:
  "enc \<in> {2, 4, 8} \<Longrightarrow> pos * enc + enc \<le> length (is_contents is) \<Longrightarrow> intsetGetEncoded is pos enc = Some (elem_enc is pos enc)"
  by (auto simp: intsetGetEncoded_def elem_enc_def intset_enc_defs load_n_in)

lemma intsetSet_in:
  "is_encoding is \<in> {2, 4, 8} \<Longrightarrow> pos * is_encoding is + is_encoding is \<le> length (is_contents is) \<Longrightarrow>
     intsetSet is pos v = Some (with_elem is pos v)"
  by (auto simp: intsetSet_def with_elem_def intset_enc_defs store_n_in)

lemma with_elem_fields [simp]:
  "is_encoding (with_elem is pos v) = is_encoding is"
  "is_length (with_elem is pos v) = is_length is"
  by (simp_all add: with_elem_def)

lemma intsetResize_fields [simp]:
  "is_encoding (intsetResize fill is n) = is_encoding is"
  "is_length (intsetResize fill is n) = is_length is"
  by (simp_all add: intsetResize_def Let_def)

lemma with_tail_fields [simp]:
  "is_encoding (with_tail is i j) = is_encoding is"
  "is_length (with_tail is i j) = is_length is"
  by (simp_all add: with_tail_def)

lemma slot_le: "pos < n \<Longrightarrow> pos * w + w \<le> n * (w::nat)"
  by (metis add.commute less_eq_Suc_le mult_Suc mult_le_mono1)

lemma slots_disjoint: "(i::nat) < j \<Longrightarrow> i * w + w \<le> j * w"
  by (rule slot_le)

lemma length_contents_with_elem:
  assumes "is_encoding is \<in> {2, 4, 8}" "pos * is_encoding is + is_encoding is \<le> length (is_contents is)"
  shows "length (is_contents (with_elem is pos v)) = length (is_contents is)"
  using assms by (simp add: with_elem_def length_splice_at)

lemma get_with_elem:
  assumes enc: "is_encoding is \<in> {2, 4, 8}"
    and pos: "pos < n" "i < n" "n * is_encoding is \<le> length (is_contents is)"
    and v: "in_signed (8 * is_encoding is) v"
  shows "elem_at (with_elem is pos v) i = (if i = pos then v else elem_at is i)"
proof -
  let ?e = "is_encoding is"
  have le: "pos * ?e + ?e \<le> length (is_contents is)" "i * ?e + ?e \<le> length (is_contents is)"
    using slot_le [OF pos(1), of ?e] slot_le [OF pos(2), of ?e] pos(3) by auto
  have sgn: "le_sint (le_bytes ?e v) = v"
    using enc v by (intro le_sint_le_bytes) auto
  have same: "slice (splice_at (is_contents is) (pos * ?e) (le_bytes ?e v)) (pos * ?e) ?e = le_bytes ?e v"
    using slice_splice_same [of "pos * ?e" "le_bytes ?e v" "is_contents is"] le by simp
  have other: "slice (splice_at (is_contents is) (pos * ?e) (le_bytes ?e v)) (i * ?e) ?e
      = slice (is_contents is) (i * ?e) ?e" if "i \<noteq> pos"
    using that le slots_disjoint [of i pos ?e] slots_disjoint [of pos i ?e]
    by (intro slice_splice_other) (auto simp: nat_neq_iff)
  show ?thesis
    using enc same other sgn
    by (cases "i = pos") (simp_all add: elem_at_def elem_enc_def with_elem_def)
qed

section \<open>Correctness of the search\<close>

text \<open>What the search establishes of a position: everything before it is smaller, nothing at or after it is.\<close>

definition insert_point :: "intset \<Rightarrow> int \<Rightarrow> nat \<Rightarrow> bool" where
  "insert_point is value p \<longleftrightarrow>
     p \<le> is_length is \<and> (\<forall>i<p. elem_at is i < value) \<and>
     (\<forall>i. p \<le> i \<longrightarrow> i < is_length is \<longrightarrow> value < elem_at is i)"

lemma elem_at_mono:
  assumes "intset_ok is" "i < j" "j < is_length is"
  shows "elem_at is i < elem_at is j"
  using assms by (auto simp: intset_ok_def intset_elems_def sorted_wrt_iff_nth_less)

lemma elem_at_mono_le:
  assumes "intset_ok is" "i \<le> j" "j < is_length is"
  shows "elem_at is i \<le> elem_at is j"
  using assms elem_at_mono [of "is" i j] by (cases "i = j") auto

lemma intset_get_in:
  assumes "intset_ok is" "i < is_length is"
  shows "intset_get is i = Some (elem_at is i)"
proof -
  have "i * is_encoding is + is_encoding is \<le> length (is_contents is)" "is_encoding is \<in> {2, 4, 8}"
    using assms slot_le [OF assms(2), of "is_encoding is"] by (auto simp: intset_ok_def)
  then show ?thesis
    by (simp add: intset_get_def elem_at_def intsetGetEncoded_in)
qed

lemma intsetSearch_loop_correct:
  assumes "intset_ok s" "0 \<le> mn" "mn \<le> mx + 1" "mx < int (is_length s)"
    and "\<forall>i < nat mn. elem_at s i < v"
    and "\<forall>i. mx < int i \<longrightarrow> i < is_length s \<longrightarrow> v < elem_at s i"
    and "mn \<le> mx \<or> cur \<noteq> v"
  shows "\<exists>mn' mx' mid' cur'. intsetSearch_loop s v mn mx mid cur = Some (mn', mx', mid', cur') \<and>
    ((cur' = v \<and> 0 \<le> mid' \<and> mid' < int (is_length s) \<and> elem_at s (nat mid') = v) \<or>
     (cur' \<noteq> v \<and> 0 \<le> mn' \<and> insert_point s v (nat mn')))"
  using assms
proof (induction "nat (mx - mn + 1)" arbitrary: mn mx mid cur rule: less_induct)
  case less
  note eq = intsetSearch_loop.simps [of s v mn mx mid cur]
  show ?case
  proof (cases "mn \<le> mx")
    case False
    with less.prems show ?thesis
      by (auto simp: eq insert_point_def)
  next
    case True
    define m where "m = (mn + mx) div 2"
    define c where "c = elem_at s (nat m)"
    have m: "mn \<le> m" "m \<le> mx" "m < int (is_length s)" "0 \<le> m"
      using True less.prems(2,4) by (auto simp: m_def)
    have "intset_get s (nat m) = Some c"
      unfolding c_def using m by (intro intset_get_in [OF less.prems(1)]) auto
    then have step: "intsetSearch_loop s v mn mx mid cur =
        (if v > c then intsetSearch_loop s v (m + 1) mx m c
         else if v < c then intsetSearch_loop s v mn (m - 1) m c
         else Some (mn, mx, m, c))"
      unfolding eq using True by (simp add: m_def [symmetric] Let_def)
    consider (gt) "v > c" | (lt) "v < c" | (eq) "v = c" by linarith
    then show ?thesis
    proof cases
      case gt
      have "elem_at s i < v" if "i < nat (m + 1)" for i
        using elem_at_mono_le [OF less.prems(1), of i "nat m"] that m gt
        by (simp add: c_def zless_nat_eq_int_zless le_nat_iff nat_less_iff)
      then show ?thesis
        using less.hyps [of mx "m + 1" c m] gt m less.prems by (simp add: step)
    next
      case lt
      have "v < elem_at s i" if "m - 1 < int i" "i < is_length s" for i
        using elem_at_mono_le [OF less.prems(1), of "nat m" i] that m lt
        by (simp add: c_def nat_le_iff)
      then show ?thesis
        using less.hyps [of "m - 1" mn c m] lt m less.prems by (simp add: step)
    next
      case eq
      then have "intsetSearch_loop s v mn mx mid cur = Some (mn, mx, m, v)"
        unfolding step by simp
      then show ?thesis
        using m eq by (intro exI [of _ mn] exI [of _ mx] exI [of _ m] exI [of _ v]) (simp add: c_def)
    qed
  qed
qed

lemma insert_point_iff_absent:
  "insert_point is value p \<Longrightarrow> value \<notin> set (intset_elems is)"
  unfolding insert_point_def intset_elems_def
  by (auto simp: set_conv_nth) (metis leI less_irrefl)

lemma intsetSearch_correct:
  assumes ok: "intset_ok is"
  shows "\<exists>found pos. intsetSearch is value = Some (found, pos) \<and>
    (if found then pos < is_length is \<and> elem_at is pos = value else insert_point is value pos)"
proof (cases "is_length is = 0")
  case True
  then show ?thesis
    by (intro exI [of _ False] exI [of _ 0]) (simp add: intsetSearch_def insert_point_def)
next
  case len: False
  have get: "intset_get is (is_length is - 1) = Some (elem_at is (is_length is - 1))" "intset_get is 0 = Some (elem_at is 0)"
    using len by (intro intset_get_in [OF ok]; simp)+
  consider (last) "value > elem_at is (is_length is - 1)"
    | (first) "\<not> value > elem_at is (is_length is - 1)" "value < elem_at is 0"
    | (loop) "\<not> value > elem_at is (is_length is - 1)" "\<not> value < elem_at is 0"
    by blast
  then show ?thesis
  proof cases
    case last
    then have "elem_at is i < value" if "i < is_length is" for i
      using elem_at_mono_le [OF ok, of i "is_length is - 1"] that len by (simp add: le_diff_conv2 Suc_le_eq)
    then show ?thesis
      using last len get by (simp add: intsetSearch_def insert_point_def ex_bool_eq)
  next
    case first
    then have "value < elem_at is i" if "i < is_length is" for i
      using elem_at_mono_le [OF ok, of 0 i] that by simp
    then show ?thesis
      using first len get by (simp add: intsetSearch_def insert_point_def ex_bool_eq)
  next
    case loop
    have "\<exists>mn mx mid cur. intsetSearch_loop is value 0 (int (is_length is) - 1) (-1) (-1) = Some (mn, mx, mid, cur) \<and>
      ((cur = value \<and> 0 \<le> mid \<and> mid < int (is_length is) \<and> elem_at is (nat mid) = value) \<or>
       (cur \<noteq> value \<and> 0 \<le> mn \<and> insert_point is value (nat mn)))"
      by (rule intsetSearch_loop_correct [OF ok]) (use len in simp_all)
    then obtain mn mx mid cur where run:
      "intsetSearch_loop is value 0 (int (is_length is) - 1) (-1) (-1) = Some (mn, mx, mid, cur)"
      and res: "(cur = value \<and> 0 \<le> mid \<and> mid < int (is_length is) \<and> elem_at is (nat mid) = value) \<or>
       (cur \<noteq> value \<and> 0 \<le> mn \<and> insert_point is value (nat mn))"
      by blast
    have "intsetSearch is value = Some (if value = cur then (True, nat mid) else (False, nat mn))"
      using loop len get run by (simp add: intsetSearch_def)
    then show ?thesis
      using res by (cases "value = cur") (auto simp: nat_less_iff)
  qed
qed

section \<open>The building blocks of the updates\<close>

lemma u32_slots:
  assumes "w \<in> {2, 4, 8}" "n \<le> 2 ^ 28"
  shows "u32 (n * w) = n * w"
  using assms by (intro u32_id) auto

lemma intsetResize_contents:
  assumes "is_encoding is \<in> {2, 4, 8}" "n \<le> 2 ^ 28"
  shows "is_contents (intsetResize fill is n) = zrealloc fill (is_contents is) (n * is_encoding is)"
  using assms by (simp add: intsetResize_def Let_def u32_slots)

lemma getEncoded_intsetResize:
  assumes "is_encoding is \<in> {2, 4, 8}" "enc \<in> {2, 4, 8}" "n \<le> 2 ^ 28"
    and "i * enc + enc \<le> n * is_encoding is" "i * enc + enc \<le> length (is_contents is)"
  shows "elem_enc (intsetResize fill is n) i enc = elem_enc is i enc"
  using assms by (simp add: elem_enc_def intsetResize_contents slice_zrealloc)

lemma get_intsetResize:
  assumes "is_encoding is \<in> {2, 4, 8}" "n \<le> 2 ^ 28"
    and "i < n" "i < m" "m * is_encoding is \<le> length (is_contents is)"
  shows "elem_at (intsetResize fill is n) i = elem_at is i"
  unfolding elem_at_def intsetResize_fields
  using assms slot_le [of i n "is_encoding is"] slot_le [of i m "is_encoding is"]
  by (intro getEncoded_intsetResize) auto

lemma tail_in_block:
  assumes "from \<le> is_length is" "to + (is_length is - from) \<le> n" "is_length is \<le> n" "n * e \<le> length (is_contents is)"
  shows "to * e + (is_length is - from) * e \<le> length (is_contents is)"
    "from * e + (is_length is - from) * e \<le> length (is_contents is)"
proof -
  let ?m = "is_length is - from"
  have "(to + ?m) * e \<le> n * e" "(from + ?m) * e \<le> n * e"
    using assms by (intro mult_le_mono1; simp)+
  then show "to * e + ?m * e \<le> length (is_contents is)" "from * e + ?m * e \<le> length (is_contents is)"
    using assms(4) unfolding add_mult_distrib by linarith+
qed

lemma intsetMoveTail_in:
  assumes "is_encoding is \<in> {2, 4, 8}" "from \<le> is_length is" "is_length is < 2 ^ 28"
    and "to + (is_length is - from) \<le> n" "is_length is \<le> n" "n * is_encoding is \<le> length (is_contents is)"
  shows "intsetMoveTail is from to = Some (with_tail is from to)"
proof -
  define w where "w = (if is_encoding is = INTSET_ENC_INT64 then 8
    else if is_encoding is = INTSET_ENC_INT32 then 4 else 2 :: nat)"
  have w: "w = is_encoding is"
    using assms(1) by (auto simp: w_def intset_enc_defs)
  have "usub32 (is_length is) from = is_length is - from"
    using assms by (intro usub32_id) auto
  moreover have "u32 ((is_length is - from) * is_encoding is) = (is_length is - from) * is_encoding is"
    using assms by (intro u32_slots) auto
  moreover have "move_n (is_contents is) (to * is_encoding is) (from * is_encoding is) ((is_length is - from) * is_encoding is) =
      Some (memmove (is_contents is) (to * is_encoding is) (from * is_encoding is) ((is_length is - from) * is_encoding is))"
    unfolding memmove_def by (rule move_n_in) (rule tail_in_block [OF assms(2,4-6)])+
  ultimately show ?thesis
    unfolding intsetMoveTail_def with_tail_def Let_def w_def [symmetric] by (simp add: w)
qed

lemma length_contents_with_tail:
  assumes "from \<le> is_length is" "to + (is_length is - from) \<le> n" "is_length is \<le> n" "n * is_encoding is \<le> length (is_contents is)"
  shows "length (is_contents (with_tail is from to)) = length (is_contents is)"
  using tail_in_block [OF assms] by (simp add: with_tail_def length_memmove)

lemma get_with_tail:
  assumes enc: "is_encoding is \<in> {2, 4, 8}" and len: "from \<le> is_length is" "is_length is < 2 ^ 28"
    and n: "to + (is_length is - from) \<le> n" "is_length is \<le> n" "n * is_encoding is \<le> length (is_contents is)"
    and i: "i < n"
  shows "elem_at (with_tail is from to) i =
    (if to \<le> i \<and> i < to + (is_length is - from) then elem_at is (from + (i - to)) else elem_at is i)"
proof -
  let ?e = "is_encoding is" and ?m = "is_length is - from"
  have le: "(to + ?m) * ?e \<le> length (is_contents is)" "(from + ?m) * ?e \<le> length (is_contents is)"
    "i * ?e + ?e \<le> length (is_contents is)"
    using n len slot_le [OF i, of ?e] mult_le_mono1 [of "to + ?m" n ?e] mult_le_mono1 [of "from + ?m" n ?e]
    by linarith+
  have in_range: "slice (memmove (is_contents is) (to * ?e) (from * ?e) (?m * ?e)) (i * ?e) ?e
      = slice (is_contents is) ((from + (i - to)) * ?e) ?e" if "to \<le> i" "i < to + ?m"
  proof -
    have "to * ?e \<le> i * ?e" "i * ?e + ?e \<le> (to + ?m) * ?e"
      using that slot_le [of i "to + ?m" ?e] by auto
    then show ?thesis
      using le by (subst slice_memmove_in) (auto simp: add_mult_distrib diff_mult_distrib)
  qed
  have out_of_range: "slice (memmove (is_contents is) (to * ?e) (from * ?e) (?m * ?e)) (i * ?e) ?e
      = slice (is_contents is) (i * ?e) ?e" if "\<not> (to \<le> i \<and> i < to + ?m)"
  proof (rule slice_memmove_out)
    show "i * ?e + ?e \<le> to * ?e \<or> to * ?e + ?m * ?e \<le> i * ?e"
      using that slots_disjoint [of i to ?e] mult_le_mono1 [of "to + ?m" i ?e]
      by (auto simp: add_mult_distrib)
  qed (use le in \<open>auto simp: add_mult_distrib\<close>)
  show ?thesis
    using in_range out_of_range enc len
    by (simp add: elem_at_def elem_enc_def with_tail_def)
qed

section \<open>Adding and removing\<close>

lemma elem_at_is_length [simp]: "elem_at (is\<lparr>is_length := n\<rparr>) i = elem_at is i"
  by (simp add: elem_at_def elem_enc_def)

lemma intset_okI:
  assumes "is_encoding is \<in> {2, 4, 8}" "is_length is = length xs" "length xs < 2 ^ 28"
    and "length (is_contents is) = length xs * is_encoding is"
    and "\<And>i. i < length xs \<Longrightarrow> elem_at is i = xs ! i" "sorted_wrt (<) xs"
  shows "intset_ok is" and "intset_elems is = xs"
proof -
  show "intset_elems is = xs"
    using assms by (auto simp: intset_elems_def intro: nth_equalityI)
  then show "intset_ok is"
    using assms by (simp add: intset_ok_def)
qed

lemma intset_okD:
  assumes "intset_ok is"
  shows "is_encoding is \<in> {2, 4, 8}" "is_length is < 2 ^ 28"
    "length (is_contents is) = is_length is * is_encoding is"
    "sorted_wrt (<) (intset_elems is)" "length (intset_elems is) = is_length is"
    "\<And>i. i < is_length is \<Longrightarrow> intset_elems is ! i = elem_at is i"
  using assms by (simp_all add: intset_ok_def intset_elems_def)

lemma intsetValueEncoding_fits:
  assumes "intsetValueEncoding v \<le> e" "e \<in> {2, 4, 8}" "in_signed 64 v"
  shows "in_signed (8 * e) v"
  using assms by (auto simp: intsetValueEncoding_def intset_enc_defs split: if_splits)

lemma intsetValueEncoding_exceeds:
  assumes "e < intsetValueEncoding v" "e \<in> {2, 4, 8}"
  shows "v < - (2 ^ (8 * e - 1)) \<or> 2 ^ (8 * e - 1) \<le> v"
  using assms by (auto simp: intsetValueEncoding_def intset_enc_defs split: if_splits)

lemma intsetValueEncoding_cases: "intsetValueEncoding v \<in> {2, 4, 8}"
  by (simp add: intsetValueEncoding_def intset_enc_defs)

lemma getEncoded_range:
  assumes "enc \<in> {2, 4, 8}" "i * enc + enc \<le> length (is_contents is)"
  shows "in_signed (8 * enc) (elem_enc is i enc)"
proof -
  have "length (slice (is_contents is) (i * enc) enc) = enc"
    using assms(2) by (rule length_slice)
  then show ?thesis
    using assms(1) le_sint_range [of "slice (is_contents is) (i * enc) enc"]
    by (cases "slice (is_contents is) (i * enc) enc") (auto simp: elem_enc_def)
qed

lemma elem_at_range:
  assumes "intset_ok is" "i < is_length is"
  shows "in_signed (8 * is_encoding is) (elem_at is i)"
  unfolding elem_at_def using intset_okD(1,3) [OF assms(1)] slot_le [OF assms(2)]
  by (intro getEncoded_range) auto

lemma in_signed_mono:
  assumes "in_signed (8 * a) v" "a \<le> b"
  shows "in_signed (8 * b) v"
proof -
  have "(2::int) ^ (8 * a - 1) \<le> 2 ^ (8 * b - 1)"
    using assms(2) by (intro power_increasing) auto
  with assms(1) show ?thesis by linarith
qed

lemma widened_fields [simp]:
  "is_encoding (widened is ce p k) = is_encoding is"
  "is_length (widened is ce p k) = is_length is"
  by (induction k arbitrary: "is") simp_all

lemma widened_correct:
  assumes "is_encoding is \<in> {2, 4, 8}" "ce \<in> {2, 4, 8}" "ce \<le> is_encoding is"
    and "k + p \<le> n" "n * is_encoding is \<le> length (is_contents is)"
  shows "intsetUpgrade_loop is ce p k = Some (widened is ce p k) \<and>
    length (is_contents (widened is ce p k)) = length (is_contents is) \<and>
    (\<forall>i<k. elem_at (widened is ce p k) (i + p) = elem_enc is i ce)"
proof -
  have "intsetUpgrade_loop is ce p k = Some (widened is ce p k) \<and>
    length (is_contents (widened is ce p k)) = length (is_contents is) \<and>
    (\<forall>i<k. elem_at (widened is ce p k) (i + p) = elem_enc is i ce) \<and>
    (\<forall>i. k + p \<le> i \<longrightarrow> i < n \<longrightarrow> elem_at (widened is ce p k) i = elem_at is i)"
    using assms
  proof (induction k arbitrary: "is")
    case (Suc k)
    let ?e = "is_encoding is" and ?v = "elem_enc is k ce"
    let ?s = "with_elem is (k + p) ?v"
    have kp: "k + p < n" using Suc.prems(4) by simp
    have lim: "k * ce + ce \<le> (k + p) * ?e + ?e"
      using Suc.prems(3) by (intro add_mono mult_mono) auto
    have cap: "(k + p) * ?e + ?e \<le> length (is_contents is)"
      using slot_le [OF kp, of ?e] Suc.prems(5) by linarith
    have v: "in_signed (8 * ?e) ?v"
    proof (rule in_signed_mono [OF _ Suc.prems(3)])
      show "in_signed (8 * ce) ?v"
        by (rule getEncoded_range [OF Suc.prems(2)]) (use lim cap in linarith)
    qed
    have len: "length (is_contents ?s) = length (is_contents is)"
      using length_contents_with_elem [OF Suc.prems(1) cap] .
    have get: "elem_at ?s i = (if i = k + p then ?v else elem_at is i)" if "i < n" for i
      using get_with_elem [OF Suc.prems(1) kp that Suc.prems(5) v] .
    have enc: "elem_enc ?s i ce = elem_enc is i ce" if "i < k" for i
    proof -
      have "i * ce + ce \<le> k * ce" using slot_le [OF that] .
      also have "\<dots> \<le> (k + p) * ?e" using Suc.prems(3) by (intro mult_mono) auto
      finally show ?thesis
        using Suc.prems(1,2) cap
        by (simp add: elem_enc_def with_elem_def slice_splice_other)
    qed
    have run: "intsetGetEncoded is k ce = Some ?v" "intsetSet is (k + p) ?v = Some ?s"
      using Suc.prems(1,2) lim cap by (auto intro!: intsetGetEncoded_in intsetSet_in)
    have IH: "intsetUpgrade_loop ?s ce p k = Some (widened ?s ce p k) \<and>
      length (is_contents (widened ?s ce p k)) = length (is_contents ?s) \<and>
      (\<forall>i<k. elem_at (widened ?s ce p k) (i + p) = elem_enc ?s i ce) \<and>
      (\<forall>i. k + p \<le> i \<longrightarrow> i < n \<longrightarrow> elem_at (widened ?s ce p k) i = elem_at ?s i)"
      using Suc.prems kp len by (intro Suc.IH) auto
    show ?case
      using IH len get enc kp run by (auto simp: less_Suc_eq)
  qed auto
  then show ?thesis by blast
qed

definition intsetUpgraded :: "(nat \<Rightarrow> byte) \<Rightarrow> intset \<Rightarrow> int \<Rightarrow> intset" where
  "intsetUpgraded fill is v =
     widened
       (intsetResize fill (is\<lparr>is_encoding := intsetValueEncoding v\<rparr>) (is_length is + 1))
       (is_encoding is) (if v < 0 then 1 else 0) (is_length is)"

lemma intsetUpgraded_correct:
  assumes ok: "intset_ok is" and len: "is_length is + 1 < 2 ^ 28"
    and up: "is_encoding is < intsetValueEncoding v"
  shows "intsetUpgrade_loop (intsetResize fill (is\<lparr>is_encoding := intsetValueEncoding v\<rparr>) (is_length is + 1))
      (is_encoding is) (if v < 0 then 1 else 0) (is_length is) = Some (intsetUpgraded fill is v) \<and>
    is_encoding (intsetUpgraded fill is v) = intsetValueEncoding v \<and>
    is_length (intsetUpgraded fill is v) = is_length is \<and>
    length (is_contents (intsetUpgraded fill is v)) = (is_length is + 1) * intsetValueEncoding v \<and>
    (\<forall>i < is_length is.
       elem_at (intsetUpgraded fill is v) (i + (if v < 0 then 1 else 0)) = elem_at is i)"
proof -
  let ?ne = "intsetValueEncoding v" and ?ce = "is_encoding is" and ?n = "is_length is"
  define s1 where "s1 = intsetResize fill (is\<lparr>is_encoding := ?ne\<rparr>) (?n + 1)"
  note okD = intset_okD [OF ok]
  have s1: "is_encoding s1 = ?ne" "is_length s1 = ?n" "length (is_contents s1) = (?n + 1) * ?ne"
    using len intsetValueEncoding_cases [of v] by (simp_all add: s1_def intsetResize_contents)
  have "elem_enc s1 i ?ce = elem_at is i" if "i < ?n" for i
  proof -
    have "i * ?ce + ?ce \<le> ?n * ?ce" using slot_le [OF that] .
    moreover have "\<dots> \<le> (?n + 1) * ?ne" using up by (intro mult_mono) auto
    ultimately have "elem_enc s1 i ?ce = elem_enc (is\<lparr>is_encoding := ?ne\<rparr>) i ?ce"
      unfolding s1_def using okD(1,3) len intsetValueEncoding_cases [of v]
      by (intro getEncoded_intsetResize) auto
    then show ?thesis by (simp add: elem_at_def elem_enc_def)
  qed
  then show ?thesis
    using widened_correct [of s1 ?ce ?n "if v < 0 then 1 else 0" "?n + 1"]
      s1 okD(1) up intsetValueEncoding_cases [of v]
    by (auto simp: intsetUpgraded_def s1_def)
qed

lemma intsetUpgradeAndAdd_correct:
  assumes ok: "intset_ok is" and v: "in_signed 64 v" and len: "is_length is + 1 < 2 ^ 28"
    and up: "is_encoding is < intsetValueEncoding v"
  shows "\<exists>r. intsetUpgradeAndAdd fill is v = Some r \<and> intset_ok r \<and>
    intset_elems r = (if v < 0 then v # intset_elems is else intset_elems is @ [v])"
proof -
  let ?ne = "intsetValueEncoding v" and ?n = "is_length is"
  define s2 where "s2 = intsetUpgraded fill is v"
  define q where "q = (if v < 0 then 0 else ?n)"
  define xs where "xs = (if v < 0 then v # intset_elems is else intset_elems is @ [v])"
  define r where "r = (with_elem s2 q v)\<lparr>is_length := ?n + 1\<rparr>"
  note okD = intset_okD [OF ok]
  have ne: "?ne \<in> {2, 4, 8}" by (rule intsetValueEncoding_cases)
  have s2: "is_encoding s2 = ?ne" "is_length s2 = ?n" "length (is_contents s2) = (?n + 1) * ?ne"
    "\<And>i. i < ?n \<Longrightarrow> elem_at s2 (i + (if v < 0 then 1 else 0)) = elem_at is i"
    using intsetUpgraded_correct [OF ok len up] by (simp_all add: s2_def)
  have "q * ?ne + ?ne \<le> length (is_contents s2)"
    unfolding s2(3) by (rule slot_le) (simp add: q_def)
  then have "intsetSet s2 q v = Some (with_elem s2 q v)"
    using s2(1) ne by (intro intsetSet_in) simp_all
  then have r: "intsetUpgradeAndAdd fill is v = Some r"
    using len intsetUpgraded_correct [OF ok len up, of fill] s2(2)
    by (auto simp: intsetUpgradeAndAdd_def Let_def s2_def [symmetric] q_def u32_id r_def)
  have get: "elem_at r i = xs ! i" if "i < ?n + 1" for i
  proof -
    have "elem_at r i = (if i = q then v else elem_at s2 i)"
      using get_with_elem [of s2 q "?n + 1" i v] s2 that v ne intsetValueEncoding_fits [of v ?ne]
      by (auto simp: q_def r_def)
    then show ?thesis
      using s2(4) [of i] s2(4) [of "i - 1"] that okD(5,6)
      by (auto simp: xs_def q_def nth_Cons' nth_append)
  qed
  have "\<forall>x \<in> set (intset_elems is). in_signed (8 * is_encoding is) x"
    using elem_at_range [OF ok] by (auto simp: intset_elems_def)
  then have sorted: "sorted_wrt (<) xs"
    using okD(4) intsetValueEncoding_exceeds [OF up okD(1)]
    by (auto simp: xs_def sorted_wrt_append)
  have "length (is_contents r) = (?n + 1) * ?ne" "is_encoding r = ?ne" "is_length r = ?n + 1"
    using s2 ne slot_le [of q "?n + 1" ?ne] by (simp_all add: r_def length_contents_with_elem q_def)
  moreover have "length xs = ?n + 1"
    by (simp add: xs_def okD(5))
  ultimately have "intset_ok r" "intset_elems r = xs"
    using get sorted len ne by (auto intro!: intset_okI)
  then show ?thesis
    by (simp add: r xs_def)
qed

lemma intset_insert_correct:
  fixes fill :: "nat \<Rightarrow> byte"
  assumes ok: "intset_ok is" and len: "is_length is + 1 < 2 ^ 28"
    and v: "in_signed (8 * is_encoding is) v" and ip: "insert_point is v pos"
  defines "s1 \<equiv> intsetResize fill is (is_length is + 1)"
  defines "s2 \<equiv> (if pos < is_length is then with_tail s1 pos (pos + 1) else s1)"
  defines "r \<equiv> (with_elem s2 pos v)\<lparr>is_length := is_length is + 1\<rparr>"
  shows "(if pos < is_length is then intsetMoveTail s1 pos (pos + 1) else Some s1) = Some s2 \<and>
    intsetSet s2 pos v = Some (with_elem s2 pos v) \<and>
    intset_ok r \<and> intset_elems r = take pos (intset_elems is) @ v # drop pos (intset_elems is)"
proof -
  let ?e = "is_encoding is" and ?n = "is_length is" and ?xs = "intset_elems is"
  note okD = intset_okD [OF ok]
  have pos: "pos \<le> ?n" using ip by (simp add: insert_point_def)
  have s1: "is_encoding s1 = ?e" "is_length s1 = ?n" "length (is_contents s1) = (?n + 1) * ?e"
    "\<And>i. i < ?n \<Longrightarrow> elem_at s1 i = ?xs ! i"
    using okD len get_intsetResize [of "is" "?n + 1" _ ?n fill]
    by (simp_all add: s1_def intsetResize_contents)
  have s2: "is_encoding s2 = ?e" "is_length s2 = ?n" "length (is_contents s2) = (?n + 1) * ?e"
    using s1 okD(1) pos len length_contents_with_tail [of pos s1 "pos + 1" "?n + 1"]
    by (simp_all add: s2_def)
  have run: "(if pos < ?n then intsetMoveTail s1 pos (pos + 1) else Some s1) = Some s2" "intsetSet s2 pos v = Some (with_elem s2 pos v)"
    using s1 s2 okD(1) pos len slot_le [of pos "?n + 1" ?e] intsetMoveTail_in [of s1 pos "pos + 1" "?n + 1"]
    by (auto simp: s2_def intro!: intsetSet_in)
  have s2_get: "elem_at s2 i = (if i < pos then ?xs ! i else ?xs ! (i - 1))"
    if "i < ?n + 1" "i \<noteq> pos" for i
    using get_with_tail [of s1 pos "pos + 1" "?n + 1" i] s1 okD(1) pos len that
    by (auto simp: s2_def)
  have r: "is_encoding r = ?e" "is_length r = ?n + 1" "length (is_contents r) = (?n + 1) * ?e"
    using s2 okD(1) pos slot_le [of pos "?n + 1" ?e] by (simp_all add: r_def length_contents_with_elem)
  have get: "elem_at r i = (take pos ?xs @ v # drop pos ?xs) ! i" if "i < ?n + 1" for i
  proof -
    have "elem_at r i = (if i = pos then v else elem_at s2 i)"
      using get_with_elem [of s2 pos "?n + 1" i v] s2 okD(1) pos that v
      by (simp add: r_def)
    then show ?thesis
      using s2_get [OF that] that pos okD(5) by (auto simp: nth_append nth_Cons' min_def)
  qed
  have "\<forall>x \<in> set (take pos ?xs). x < v" "\<forall>x \<in> set (drop pos ?xs). v < x"
    using ip okD(5,6) by (auto simp: insert_point_def in_set_conv_nth)
  then have sorted: "sorted_wrt (<) (take pos ?xs @ v # drop pos ?xs)"
    using okD(4) by (fastforce simp: sorted_wrt_append sorted_wrt_take sorted_wrt_drop)
  show ?thesis
    using run get sorted r okD(1,5) len pos by (auto intro!: intset_okI)
qed

lemma intset_delete_correct:
  fixes fill :: "nat \<Rightarrow> byte"
  assumes ok: "intset_ok is" and pos: "pos < is_length is"
  defines "s1 \<equiv> (if pos < is_length is - 1 then with_tail is (pos + 1) pos else is)"
  defines "r \<equiv> (intsetResize fill s1 (is_length is - 1))\<lparr>is_length := is_length is - 1\<rparr>"
  shows "(if pos < is_length is - 1 then intsetMoveTail is (pos + 1) pos else Some is) = Some s1 \<and>
    intset_ok r \<and> intset_elems r = take pos (intset_elems is) @ drop (pos + 1) (intset_elems is)"
proof -
  let ?e = "is_encoding is" and ?n = "is_length is" and ?xs = "intset_elems is"
  note okD = intset_okD [OF ok]
  have s1: "is_encoding s1 = ?e" "is_length s1 = ?n" "length (is_contents s1) = ?n * ?e"
    using okD pos length_contents_with_tail [of "pos + 1" "is" pos ?n] by (simp_all add: s1_def)
  have run: "(if pos < ?n - 1 then intsetMoveTail is (pos + 1) pos else Some is) = Some s1"
    using okD pos intsetMoveTail_in [of "is" "pos + 1" pos ?n] by (simp add: s1_def)
  have s1_get: "elem_at s1 i = (if i < pos then ?xs ! i else ?xs ! (i + 1))" if "i < ?n - 1" for i
    using get_with_tail [of "is" "pos + 1" pos ?n i] okD pos that by (auto simp: s1_def)
  have r: "is_encoding r = ?e" "is_length r = ?n - 1" "length (is_contents r) = (?n - 1) * ?e"
    using s1 okD(1,2) by (simp_all add: r_def intsetResize_contents)
  have "elem_at r i = elem_at s1 i" if "i < ?n - 1" for i
    using get_intsetResize [of s1 "?n - 1" i ?n fill] s1 okD(1,2) that
    by (simp add: r_def)
  then have get: "elem_at r i = (take pos ?xs @ drop (pos + 1) ?xs) ! i" if "i < ?n - 1" for i
    using s1_get [OF that] that pos okD(5) by (auto simp: nth_append min_def)
  have "sorted_wrt (<) (take pos ?xs @ ?xs ! pos # drop (pos + 1) ?xs)"
    using okD(4,5) pos by (simp add: id_take_nth_drop [symmetric])
  then have "sorted_wrt (<) (take pos ?xs @ drop (pos + 1) ?xs)"
    by (auto simp: sorted_wrt_append)
  then show ?thesis
    using run get r okD(1,2,5) pos by (auto intro!: intset_okI)
qed

section \<open>The intset implements a finite set of 64 bit integers\<close>

lemma intsetSearch_elems:
  assumes "intset_ok is"
  obtains found pos where "intsetSearch is v = Some (found, pos)" "found \<longleftrightarrow> v \<in> set (intset_elems is)"
    "found \<longrightarrow> pos < is_length is \<and> elem_at is pos = v" "\<not> found \<longrightarrow> insert_point is v pos"
proof -
  obtain found pos where "intsetSearch is v = Some (found, pos)"
    "if found then pos < is_length is \<and> elem_at is pos = v else insert_point is v pos"
    using intsetSearch_correct [OF assms] by blast
  then show thesis
    using that insert_point_iff_absent [of "is" v pos] by (cases found) (auto simp: intset_elems_def)
qed

lemma intset_wide_absent:
  assumes "intset_ok is" "is_encoding is < intsetValueEncoding v"
  shows "v \<notin> set (intset_elems is)"
  using elem_at_range [OF assms(1)] intsetValueEncoding_exceeds [OF assms(2) intset_okD(1) [OF assms(1)]]
  by (force simp: intset_elems_def)

lemma intsetAdd_elems:
  assumes ok: "intset_ok is" and v: "in_signed 64 v" and len: "is_length is + 1 < 2 ^ 28"
  shows "\<exists>is' b. intsetAdd fill is v = Some (is', b) \<and> intset_ok is' \<and>
    set (intset_elems is') = insert v (set (intset_elems is)) \<and> (b \<longleftrightarrow> v \<notin> set (intset_elems is))"
proof (cases "is_encoding is < intsetValueEncoding v")
  case True
  then show ?thesis
    using intsetUpgradeAndAdd_correct [OF ok v len True, of fill] intset_wide_absent [OF ok True]
    by (auto simp: intsetAdd_def Let_def)
next
  case False
  obtain found pos where srch: "intsetSearch is v = Some (found, pos)" "found \<longleftrightarrow> v \<in> set (intset_elems is)"
    "\<not> found \<longrightarrow> insert_point is v pos"
    using intsetSearch_elems [OF ok] by metis
  show ?thesis
  proof (cases found)
    case True
    then show ?thesis
      using False srch ok by (auto simp: intsetAdd_def insert_absorb)
  next
    case nf: False
    let ?xs = "intset_elems is"
    have ip: "insert_point is v pos" and new: "v \<notin> set ?xs" using srch nf by auto
    have u: "u32 (pos + 1) = pos + 1" "u32 (is_length is + 1) = is_length is + 1"
      using ip len by (auto simp: insert_point_def intro!: u32_id)
    have "in_signed (8 * is_encoding is) v"
      using False v intset_okD(1) [OF ok] by (intro intsetValueEncoding_fits) auto
    note ins = intset_insert_correct [OF ok len this ip, of fill]
    have "set (take pos ?xs @ v # drop pos ?xs) = insert v (set ?xs)"
      by (metis Un_insert_right append_take_drop_id list.simps(15) set_append)
    then show ?thesis
      using False nf srch(1) new ins u
      by (cases "pos < is_length is") (simp_all add: intsetAdd_def Let_def ex_bool_eq del: set_append)
  qed
qed

lemma intsetFind_iff:
  assumes ok: "intset_ok is" and v: "in_signed 64 v"
  shows "intsetFind is v = Some (v \<in> set (intset_elems is))"
  by (rule intsetSearch_elems [OF ok, of v])
    (use intset_wide_absent [OF ok, of v] in \<open>auto simp: intsetFind_def Let_def\<close>)

lemma set_without_nth:
  assumes "distinct xs" "pos < length xs"
  shows "set (take pos xs @ drop (pos + 1) xs) = set xs - {xs ! pos}"
proof -
  have "xs = take pos xs @ xs ! pos # drop (pos + 1) xs"
    using id_take_nth_drop [OF assms(2)] by simp
  then have "distinct (take pos xs @ xs ! pos # drop (pos + 1) xs)"
    "set xs = set (take pos xs @ xs ! pos # drop (pos + 1) xs)"
    using assms(1) by simp_all
  then show ?thesis by auto
qed

lemma intsetRemove_elems:
  assumes ok: "intset_ok is" and v: "in_signed 64 v"
  shows "\<exists>is' b. intsetRemove fill is v = Some (is', b) \<and> intset_ok is' \<and>
    set (intset_elems is') = set (intset_elems is) - {v} \<and> (b \<longleftrightarrow> v \<in> set (intset_elems is))"
proof -
  obtain found pos where srch: "intsetSearch is v = Some (found, pos)" "found \<longleftrightarrow> v \<in> set (intset_elems is)"
    "found \<longrightarrow> pos < is_length is \<and> elem_at is pos = v"
    using intsetSearch_elems [OF ok] by metis
  show ?thesis
  proof (cases "v \<in> set (intset_elems is)")
    case True
    let ?xs = "intset_elems is"
    have pos: "pos < is_length is" "?xs ! pos = v"
      using srch True intset_okD(6) [OF ok] by auto
    have enc: "intsetValueEncoding v \<le> is_encoding is"
      using intset_wide_absent [OF ok] True by (meson not_le)
    have "distinct ?xs"
      using intset_okD(4) [OF ok] strict_sorted_iff by blast
    then have "set (take pos ?xs @ drop (pos + 1) ?xs) = set ?xs - {v}"
      using set_without_nth [of ?xs pos] pos intset_okD(5) [OF ok] by simp
    moreover have "usub32 (is_length is) 1 = is_length is - 1" "u32 (pos + 1) = pos + 1"
      using pos intset_okD(2) [OF ok] by (auto intro!: u32_id usub32_id)
    ultimately show ?thesis
      using True srch(1,2) enc intset_delete_correct [OF ok pos(1), of fill]
      by (cases "pos < is_length is - 1") (simp_all add: intsetRemove_def Let_def ex_bool_eq del: set_append)
  next
    case False
    then show ?thesis
      using srch(1,2) ok by (auto simp: intsetRemove_def Let_def)
  qed
qed

interpretation intset_store: set_store intsetNew "intsetAdd fill" "intsetRemove fill" intsetFind
  intsetLen "\<lambda>is. set (intset_elems is)" intset_ok "\<lambda>is. is_length is + 1 < 2 ^ 28" "in_signed 64"
  for fill
proof
  show "intset_ok intsetNew" "set (intset_elems intsetNew) = {}"
    by (simp_all add: intset_ok_def intset_elems_def intsetNew_def intset_enc_defs)
  fix "is" assume ok: "intset_ok is"
  have "distinct (intset_elems is)"
    using intset_okD(4) [OF ok] strict_sorted_iff by blast
  then show "intsetLen is = card (set (intset_elems is))"
    by (simp add: distinct_card intsetLen_def intset_okD(5) [OF ok])
qed (rule intsetAdd_elems intsetRemove_elems intsetFind_iff finite_set; assumption)+

section \<open>Histories of operations\<close>

datatype intset_op = IntsetAdd int | IntsetRemove int

fun intset_step :: "(nat \<Rightarrow> byte) \<Rightarrow> intset \<Rightarrow> intset_op \<Rightarrow> (intset \<times> bool) option" where
  "intset_step fill is (IntsetAdd v) = intsetAdd fill is v"
| "intset_step fill is (IntsetRemove v) = intsetRemove fill is v"

fun intset_run :: "(nat \<Rightarrow> byte) \<Rightarrow> intset \<Rightarrow> intset_op list \<Rightarrow> (intset \<times> bool list) option" where
  "intset_run fill is [] = Some (is, [])"
| "intset_run fill is (op # ops) = do {
     (is', b) \<leftarrow> intset_step fill is op;
     (is'', bs) \<leftarrow> intset_run fill is' ops;
     Some (is'', b # bs) }"

text \<open>The abstract machine: a mathematical set of integers and the flags the operations report.\<close>

fun set_step :: "int set \<Rightarrow> intset_op \<Rightarrow> int set \<times> bool" where
  "set_step A (IntsetAdd v) = (insert v A, v \<notin> A)"
| "set_step A (IntsetRemove v) = (A - {v}, v \<in> A)"

fun set_run :: "int set \<Rightarrow> intset_op list \<Rightarrow> int set \<times> bool list" where
  "set_run A [] = (A, [])"
| "set_run A (op # ops) =
     (case set_step A op of (A', b) \<Rightarrow> case set_run A' ops of (A'', bs) \<Rightarrow> (A'', b # bs))"

fun op_value :: "intset_op \<Rightarrow> int" where
  "op_value (IntsetAdd v) = v"
| "op_value (IntsetRemove v) = v"

lemma intset_step_refines:
  assumes "intset_ok is" "in_signed 64 (op_value op)" "is_length is + 1 < 2 ^ 28"
  shows "\<exists>is' b. intset_step fill is op = Some (is', b) \<and> intset_ok is' \<and>
    set_step (set (intset_elems is)) op = (set (intset_elems is'), b) \<and> is_length is' \<le> is_length is + 1"
proof (cases op)
  case (IntsetAdd v)
  then obtain is' b where "intsetAdd fill is v = Some (is', b)" "intset_ok is'"
    "set (intset_elems is') = insert v (set (intset_elems is))" "b \<longleftrightarrow> v \<notin> set (intset_elems is)"
    using intsetAdd_elems [OF assms(1) _ assms(3), of v fill] assms(2) by auto
  then show ?thesis
    using IntsetAdd assms intset_store.card_add [of "is" v fill is' b] by (auto simp: intsetLen_def)
next
  case (IntsetRemove v)
  then obtain is' b where "intsetRemove fill is v = Some (is', b)" "intset_ok is'"
    "set (intset_elems is') = set (intset_elems is) - {v}" "b \<longleftrightarrow> v \<in> set (intset_elems is)"
    using intsetRemove_elems [OF assms(1), of v fill] assms(2) by auto
  then show ?thesis
    using IntsetRemove assms intset_store.card_remove [of "is" v fill is' b] by (auto simp: intsetLen_def)
qed

lemma intset_run_refines:
  assumes "intset_ok is" "\<forall>op \<in> set ops. in_signed 64 (op_value op)"
    and "is_length is + length ops < 2 ^ 28"
  shows "\<exists>is' flags. intset_run fill is ops = Some (is', flags) \<and> intset_ok is' \<and>
    set_run (set (intset_elems is)) ops = (set (intset_elems is'), flags)"
  using assms
proof (induction ops arbitrary: "is")
  case (Cons op ops)
  obtain s b where step: "intset_step fill is op = Some (s, b)" "intset_ok s"
    "set_step (set (intset_elems is)) op = (set (intset_elems s), b)" "is_length s \<le> is_length is + 1"
    using intset_step_refines [of "is" op fill] Cons.prems by auto
  then obtain s' bs where "intset_run fill s ops = Some (s', bs)" "intset_ok s'"
    "set_run (set (intset_elems s)) ops = (set (intset_elems s'), bs)"
    using Cons.IH [of s] Cons.prems by auto
  then show ?case
    using step by simp
qed simp

section \<open>Properties\<close>

text \<open>
  C33: adding to a well-formed intset a 64 bit value, with room left, never reads or writes
  outside the block, keeps the block well-formed (an admissible encoding, exactly the bytes
  the elements need, strictly increasing elements), adds exactly that value, upgrading the
  encoding where it must, and reports success exactly when the value was not there. The
  bytes an enlarged block gains do not matter.
\<close>

theorem intsetAdd_correct:
  assumes "intset_ok is" "in_signed 64 v" "is_length is + 1 < 2 ^ 28"
  shows "\<exists>is' b. intsetAdd fill is v = Some (is', b) \<and> intset_ok is' \<and>
    set (intset_elems is') = insert v (set (intset_elems is)) \<and> (b \<longleftrightarrow> v \<notin> set (intset_elems is))"
  using assms by (rule intsetAdd_elems)

text \<open>
  A sample block: the elements -3, 5 and 9 in 16 bits each. Adding 6 moves a tail, adding
  70000 upgrades the encoding.
\<close>

definition intset_sample :: intset where
  "intset_sample = \<lparr>is_encoding = 2, is_length = 3, is_contents = [253, 255, 5, 0, 9, 0]\<rparr>"

lemma intset_sample_elems: "intset_elems intset_sample = [-3, 5, 9]"
  by code_simp

lemma intset_sample_ok: "intset_ok intset_sample" "is_length intset_sample = 3"
  by (simp_all add: intset_ok_def intset_sample_elems) (simp_all add: intset_sample_def intset_enc_defs)

lemma intsetNew_ok: "intset_ok intsetNew" "is_length intsetNew = 0" "intset_elems intsetNew = []"
  by (simp_all add: intset_ok_def intset_elems_def intsetNew_def intset_enc_defs)

theorem intsetAdd_correct_witness:
  "intset_ok intset_sample \<and> in_signed 64 6 \<and> in_signed 64 70000 \<and> is_length intset_sample + 1 < 2 ^ 28 \<and>
   (\<exists>is'. intsetAdd (\<lambda>_. 0) intset_sample 6 = Some (is', True) \<and> set (intset_elems is') = {-3, 5, 6, 9}) \<and>
   (\<exists>is'. intsetAdd (\<lambda>_. 0) intset_sample 70000 = Some (is', True) \<and>
      set (intset_elems is') = {-3, 5, 9, 70000})"
  using intsetAdd_correct [of intset_sample 6 "\<lambda>_. 0"] intsetAdd_correct [of intset_sample 70000 "\<lambda>_. 0"]
  by (auto simp: intset_sample_ok intset_sample_elems)

text \<open>
  Removing from a well-formed intset stays inside the block, keeps it well-formed, removes
  exactly the given value and reports whether it was present: \<open>intsetRemove_elems\<close> above.
\<close>

text \<open>
  C34: the binary search of a well-formed intset stays inside the block and returns, when it
  reports a hit, an index that holds the value, and otherwise the index before which
  everything is smaller and from which everything is larger: the place where the value belongs.
\<close>

theorem intsetSearch_finds:
  assumes "intset_ok is"
  shows "\<exists>found pos. intsetSearch is v = Some (found, pos) \<and>
    (found \<longleftrightarrow> v \<in> set (intset_elems is)) \<and>
    (found \<longrightarrow> pos < is_length is \<and> intset_elems is ! pos = v) \<and>
    (\<not> found \<longrightarrow> pos \<le> is_length is \<and> (\<forall>x \<in> set (take pos (intset_elems is)). x < v) \<and>
       (\<forall>x \<in> set (drop pos (intset_elems is)). v < x))"
proof -
  obtain found pos where srch: "intsetSearch is v = Some (found, pos)" "found \<longleftrightarrow> v \<in> set (intset_elems is)"
    "found \<longrightarrow> pos < is_length is \<and> elem_at is pos = v" "\<not> found \<longrightarrow> insert_point is v pos"
    by (rule intsetSearch_elems [OF assms])
  then show ?thesis
    using intset_okD(5,6) [OF assms]
    by (intro exI [of _ found] exI [of _ pos]) (auto simp: insert_point_def in_set_conv_nth)
qed

theorem intsetSearch_finds_witness:
  "intset_ok intset_sample \<and> (\<exists>pos. intsetSearch intset_sample 9 = Some (True, pos) \<and>
     pos < 3 \<and> [-3, 5, 9] ! pos = (9 :: int)) \<and> (\<exists>pos. intsetSearch intset_sample 4 = Some (False, pos))"
  using intsetSearch_finds [of intset_sample 9] intsetSearch_finds [of intset_sample 4]
  by (auto simp: intset_sample_ok intset_sample_elems)

text \<open>
  C32: from the empty intset, every history of additions and removals of 64 bit values
  (shorter than the 2^28 elements the block can hold) runs without an access outside the
  block, keeps the block well-formed, goes through the same sets and reports the same flags
  as the history run on a mathematical set.
\<close>

theorem intset_history_refines_set:
  assumes "\<forall>op \<in> set ops. in_signed 64 (op_value op)" "length ops < 2 ^ 28"
  shows "\<exists>is' flags. intset_run fill intsetNew ops = Some (is', flags) \<and> intset_ok is' \<and>
    set_run {} ops = (set (intset_elems is'), flags)"
  using intset_run_refines [OF intsetNew_ok(1) assms(1), of fill] assms(2) by (simp add: intsetNew_ok)

theorem intset_history_refines_set_witness:
  "\<exists>is'. intset_run (\<lambda>_. 0) intsetNew [IntsetAdd 5, IntsetAdd 100000, IntsetAdd 5, IntsetRemove 5] =
      Some (is', [True, True, False, True]) \<and> set (intset_elems is') = {100000}"
  using intset_history_refines_set [of "[IntsetAdd 5, IntsetAdd 100000, IntsetAdd 5, IntsetRemove 5]" "\<lambda>_. 0"]
  by (auto simp: insert_Diff_if simp del: intset_run.simps)

end
