(* ===== verification/Util_Numbers.thy ===== *)
theory Util_Numbers
  imports Memory
begin

text \<open>
  The number conversions of \<^verbatim>\<open>redis-3.0.0/src/util.c\<close>: \<open>digits10\<close>, \<open>ll2string\<close>, \<open>string2ll\<close>,
  \<open>string2l\<close> and \<open>memtoll\<close>. A C string is the list of its bytes; \<open>long long\<close> values are
  integers, \<open>unsigned long long\<close> values natural numbers with the reduction modulo \<open>2 ^ 64\<close>
  written out where the code can reach it. A store outside the buffer is a fault (the outer \<open>None\<close>).
\<close>

section \<open>Printing\<close>

fun digits10 :: "nat \<Rightarrow> nat" where
  "digits10 v =
     (if v < 10 then 1
      else if v < 100 then 2
      else if v < 1000 then 3
      else if v < 1000000000000 then
        (if v < 100000000 then
           (if v < 1000000 then
              (if v < 10000 then 4
               else 5 + (if v \<ge> 100000 then 1 else 0))
            else 7 + (if v \<ge> 10000000 then 1 else 0))
         else if v < 10000000000 then 9 + (if v \<ge> 1000000000 then 1 else 0)
         else 11 + (if v \<ge> 100000000000 then 1 else 0))
      else 12 + digits10 (v div 1000000000000))"

declare digits10.simps [simp del]

definition digits_table :: "byte list" where
  "digits_table = map of_char
    (''0001020304050607080910111213141516171819'' @
     ''2021222324252627282930313233343536373839'' @
     ''4041424344454647484950515253545556575859'' @
     ''6061626364656667686970717273747576777879'' @
     ''8081828384858687888990919293949596979899'')"

text \<open>The loop of \<open>ll2string\<close> on \<open>dst\<close>, \<open>next\<close> and \<open>value\<close>.\<close>

function ll2string_loop :: "byte list \<Rightarrow> nat \<Rightarrow> nat \<Rightarrow> (byte list \<times> nat \<times> nat) option" where
  "ll2string_loop dst nxt val =
     (if val \<ge> 100 then do {
        let i = (val mod 100) * 2;
        let val = val div 100;
        dst \<leftarrow> store dst nxt (digits_table ! (i + 1));
        dst \<leftarrow> store dst (usub32 nxt 1) (digits_table ! i);
        ll2string_loop dst (usub32 nxt 2) val }
      else Some (dst, nxt, val))"
  by pat_completeness auto
termination
  by (relation "measure (\<lambda>(dst, nxt, val). val)") auto

declare ll2string_loop.simps [simp del]

definition ll2string_sign :: "int \<Rightarrow> nat \<times> nat" where
  "ll2string_sign svalue =
     (if svalue < 0 then
        (if svalue \<noteq> - (2 ^ 63) then (u64 (nat (- svalue)), 1)
         else (u64 ((2 ^ 63 - 1) + 1), 1))
      else (u64 (nat svalue), 0))"

definition ll2string :: "byte list \<Rightarrow> nat \<Rightarrow> int \<Rightarrow> (byte list \<times> nat) option" where
  "ll2string dst dstlen svalue = do {
     let (val, negative) = ll2string_sign svalue;
     let len = u32 (digits10 val + negative);
     if len \<ge> dstlen then Some (dst, 0)
     else do {
       let nxt = len;
       dst \<leftarrow> store dst nxt 0;
       let nxt = usub32 nxt 1;
       (dst, nxt, val) \<leftarrow> ll2string_loop dst nxt val;
       dst \<leftarrow> (if val < 10 then store dst nxt (48 + of_nat val)
                else do {
                  let i = val * 2;
                  dst \<leftarrow> store dst nxt (digits_table ! (i + 1));
                  store dst (usub32 nxt 1) (digits_table ! i) });
       dst \<leftarrow> (if negative \<noteq> 0 then store dst 0 45 else Some dst);
       Some (dst, len) } }"

section \<open>Parsing\<close>

definition is_digit :: "byte \<Rightarrow> bool" where
  "is_digit c \<longleftrightarrow> 48 \<le> c \<and> c \<le> 57"

definition ULLONG_MAX :: nat where
  "ULLONG_MAX = 2 ^ 64 - 1"

text \<open>
  The loop of \<open>string2ll\<close>: \<open>None\<close> is the \<open>return 0\<close> on overflow, otherwise the accumulated value
  and the bytes not consumed.
\<close>

fun string2ll_loop :: "nat \<Rightarrow> byte list \<Rightarrow> (nat \<times> byte list) option" where
  "string2ll_loop v [] = Some (v, [])"
| "string2ll_loop v (c # cs) =
     (if is_digit c then
        if v > ULLONG_MAX div 10 then None
        else
          let v = v * 10 in
          if v > ULLONG_MAX - unat (c - 48) then None
          else string2ll_loop (v + unat (c - 48)) cs
      else Some (v, c # cs))"

text \<open>\<open>None\<close> is the result 0, \<open>Some v\<close> the result 1 with \<open>v\<close> stored through \<open>value\<close>.\<close>

definition string2ll :: "byte list \<Rightarrow> int option" where
  "string2ll s =
     (if length s = 0 then None
      else if length s = 1 \<and> s ! 0 = 48 then Some 0
      else
        let negative = (s ! 0 = 45);
            p = (if negative then tl s else s)
        in if p = [] then None
           else if 49 \<le> p ! 0 \<and> p ! 0 \<le> 57 then
             (case string2ll_loop (unat (p ! 0 - 48)) (tl p) of
                None \<Rightarrow> None
              | Some (v, rest) \<Rightarrow>
                  if rest \<noteq> [] then None
                  else if negative then
                    (if v > (2 ^ 63 - 1) + 1 then None else Some (- int v))
                  else
                    (if v > 2 ^ 63 - 1 then None else Some (int v)))
           else if p ! 0 = 48 \<and> length s = 1 then Some 0
           else None)"

definition string2l :: "byte list \<Rightarrow> int option" where
  "string2l s =
     (case string2ll s of
        None \<Rightarrow> None
      | Some llval \<Rightarrow> if llval < - (2 ^ 63) \<or> llval > 2 ^ 63 - 1 then None else Some llval)"

section \<open>Memory amounts\<close>

text \<open>
  \<open>tolower\<close>, \<open>isspace\<close>, \<open>strcasecmp\<close> and \<open>strtoll\<close> (base 10) in the C locale. \<open>strtoll\<close> returns the
  value, whether it set \<open>errno\<close> to \<open>EINVAL\<close>, and the bytes from \<open>endptr\<close> on. Where no digit is
  found the C standard leaves it to the platform whether \<open>EINVAL\<close> is set: the argument
  \<open>einval\<close> says what it does.
\<close>

definition c_tolower :: "byte \<Rightarrow> byte" where
  "c_tolower c = (if 65 \<le> c \<and> c \<le> 90 then c + 32 else c)"

definition c_isspace :: "byte \<Rightarrow> bool" where
  "c_isspace c \<longleftrightarrow> c = 32 \<or> (9 \<le> c \<and> c \<le> 13)"

definition strcaseeq :: "byte list \<Rightarrow> byte list \<Rightarrow> bool" where
  "strcaseeq a b \<longleftrightarrow> map c_tolower a = map c_tolower b"

definition strtoll10 :: "bool \<Rightarrow> byte list \<Rightarrow> int \<times> bool \<times> byte list" where
  "strtoll10 einval s =
     (let t = dropWhile c_isspace s;
          neg = (t \<noteq> [] \<and> hd t = 45);
          t = (if t \<noteq> [] \<and> (hd t = 45 \<or> hd t = 43) then tl t else t);
          ds = takeWhile is_digit t;
          n = foldl (\<lambda>v c. v * 10 + int (unat (c - 48))) 0 ds;
          n = (if neg then - n else n)
      in if ds = [] then (0, einval, s)
         else (max (- (2 ^ 63)) (min (2 ^ 63 - 1) n), False, dropWhile is_digit t))"

text \<open>
  \<open>memtoll\<close> on the C string \<open>p\<close> (its bytes before the terminator): the result and the error flag.
  The product \<open>val*mul\<close> is not checked for overflow; it wraps.
\<close>

definition memtoll_unit :: "byte list \<Rightarrow> int option" where
  "memtoll_unit u =
     (if u = [] \<or> strcaseeq u (map of_char ''b'') then Some 1
      else if strcaseeq u (map of_char ''k'') then Some 1000
      else if strcaseeq u (map of_char ''kb'') then Some 1024
      else if strcaseeq u (map of_char ''m'') then Some (1000 * 1000)
      else if strcaseeq u (map of_char ''mb'') then Some (1024 * 1024)
      else if strcaseeq u (map of_char ''g'') then Some (1000 * 1000 * 1000)
      else if strcaseeq u (map of_char ''gb'') then Some (1024 * 1024 * 1024)
      else None)"

definition memtoll :: "bool \<Rightarrow> byte list \<Rightarrow> int \<times> bool" where
  "memtoll einval p =
     (let minus = (if p \<noteq> [] \<and> hd p = 45 then 1 else 0);
          digits = minus + length (takeWhile is_digit (drop minus p));
          u = drop digits p
      in case memtoll_unit u of
           None \<Rightarrow> (0, True)
         | Some mul \<Rightarrow>
             if digits \<ge> 128 then (0, True)
             else
               case strtoll10 einval (take digits p) of (val, einv, endptr) \<Rightarrow>
                 if (val = 0 \<and> einv) \<or> endptr \<noteq> [] then (0, True)
                 else (to_signed 64 (val * mul), False))"

section \<open>The decimal representation\<close>

fun dec :: "nat \<Rightarrow> byte list" where
  "dec n = (if n < 10 then [48 + of_nat n] else dec (n div 10) @ [48 + of_nat (n mod 10)])"

declare dec.simps [simp del]

definition ll_repr :: "int \<Rightarrow> byte list" where
  "ll_repr v = (if v < 0 then 45 # dec (nat (- v)) else dec (nat v))"

lemma dec_small: "n < 10 \<Longrightarrow> dec n = [48 + of_nat n]"
  by (simp add: dec.simps)

lemma dec_step: "10 \<le> n \<Longrightarrow> dec n = dec (n div 10) @ [48 + of_nat (n mod 10)]"
  by (subst dec.simps) simp

lemma dec_nonempty [simp]: "dec n \<noteq> []" "0 < length (dec n)"
  by (subst dec.simps, simp)+

lemma length_dec_le: "0 < k \<Longrightarrow> length (dec n) \<le> k \<longleftrightarrow> n < 10 ^ k"
proof (induction k arbitrary: n)
  case (Suc k)
  show ?case
  proof (cases "n < 10")
    case True
    have "(10::nat) \<le> 10 ^ Suc k" by simp
    with True have "n < 10 ^ Suc k" by linarith
    with True show ?thesis by (simp add: dec_small)
  next
    case False
    then have step: "length (dec n) = Suc (length (dec (n div 10)))"
      by (simp add: dec_step)
    show ?thesis
    proof (cases "k = 0")
      case True
      with False step show ?thesis by simp
    next
      case k: False
      then show ?thesis
        using Suc.IH [of "n div 10"] step by (auto simp: less_mult_imp_div_less div_less_iff_less_mult mult.commute)
    qed
  qed
qed simp

lemma length_decI: "10 ^ k \<le> n \<Longrightarrow> n < 10 ^ Suc k \<Longrightarrow> length (dec n) = Suc k"
  using length_dec_le [of "Suc k" n] length_dec_le [of k n] dec_nonempty(2) [of n]
  by (cases "k = 0") (auto simp: dec_small Suc_le_eq not_le)

lemma length_dec_div: "10 ^ k \<le> n \<Longrightarrow> length (dec n) = k + length (dec (n div 10 ^ k))"
proof (induction k arbitrary: n)
  case (Suc k)
  have "10 \<le> n" using Suc.prems by (metis le_trans one_le_numeral one_le_power mult_le_mono2 mult.right_neutral power_Suc)
  moreover have "10 ^ k \<le> n div 10" using Suc.prems by (simp add: less_eq_div_iff_mult_less_eq mult.commute)
  ultimately show ?case
    using Suc.IH [of "n div 10"] by (simp add: dec_step div_mult2_eq)
qed simp

lemma digits10_length_dec: "digits10 v = length (dec v)"
proof (induction v rule: digits10.induct)
  case (1 v)
  note D = length_decI [of _ v]
  show ?case
  proof (cases "v < 1000000000000")
    case True
    then show ?thesis
      using D [of 0] D [of 1] D [of 2] D [of 3] D [of 4] D [of 5] D [of 6] D [of 7] D [of 8]
        D [of 9] D [of 10] D [of 11]
      by (subst digits10.simps) (auto simp: dec_small)
  next
    case False
    then show ?thesis
      using 1 length_dec_div [of 12 v] by (subst digits10.simps) simp
  qed
qed

lemma nth_concat_pairs:
  "n < length xs \<Longrightarrow> concat (map (\<lambda>x. [f x, g x]) xs) ! (n * 2) = f (xs ! n)"
  "n < length xs \<Longrightarrow> concat (map (\<lambda>x. [f x, g x]) xs) ! Suc (n * 2) = g (xs ! n)"
  by (induction xs arbitrary: n) (auto simp: nth_Cons split: nat.splits)

lemma digits_table_eq:
  "digits_table = concat (map (\<lambda>n. [48 + of_nat (n div 10), 48 + of_nat (n mod 10)]) [0..<100])"
  by (simp add: digits_table_def upt_rec)

lemma digits_table_nth:
  assumes "n < 100"
  shows "digits_table ! (n * 2) = 48 + of_nat (n div 10)"
    and "digits_table ! Suc (n * 2) = 48 + of_nat (n mod 10)"
  using assms unfolding digits_table_eq by (subst nth_concat_pairs; simp)+

lemma dec_two_digits:
  assumes "100 \<le> n"
  shows "dec n = dec (n div 100) @ [digits_table ! (n mod 100 * 2), digits_table ! Suc (n mod 100 * 2)]"
proof -
  have "dec n = dec (n div 10 div 10) @ [48 + of_nat (n div 10 mod 10), 48 + of_nat (n mod 10)]"
    using assms dec_step [of n] dec_step [of "n div 10"] by simp
  moreover have "n mod 100 div 10 = n div 10 mod 10" "n mod 100 mod 10 = n mod 10" "n div 10 div 10 = n div 100"
    using mod_mult2_eq [of n 10 10] mod_mult2_eq [of n 10 10] by (simp_all add: div_mult2_eq [symmetric] mod_mod_cancel)
  ultimately show ?thesis
    by (simp add: digits_table_nth)
qed


text \<open>Writing the digits right to left leaves the decimal representation in the buffer.\<close>

definition ll2string_digits :: "byte list \<Rightarrow> nat \<Rightarrow> nat \<Rightarrow> byte list option" where
  "ll2string_digits dst nxt val = do {
     (dst, nxt, val) \<leftarrow> ll2string_loop dst nxt val;
     if val < 10 then store dst nxt (48 + of_nat val)
     else do {
       let i = val * 2;
       dst \<leftarrow> store dst nxt (digits_table ! (i + 1));
       store dst (usub32 nxt 1) (digits_table ! i) } }"

lemma ll2string_digits_small:
  assumes "val < 100" "base + length (dec val) \<le> length dst" "length dst < 2 ^ 32"
  shows "ll2string_digits dst (base + length (dec val) - 1) val = Some (splice_at dst base (dec val))"
proof (cases "val < 10")
  case True
  then show ?thesis
    using assms
    by (simp add: ll2string_digits_def ll2string_loop.simps dec_small splice_at_def upd_conv_take_nth_drop mem_simps)
next
  case False
  then have d: "dec val = [digits_table ! (val * 2), digits_table ! Suc (val * 2)]"
    using assms(1) dec_step [of val] dec_small [of "val div 10"] digits_table_nth [of val] by simp
  have us: "usub32 (Suc base) 1 = base"
    using d assms by (simp add: usub32_id)
  have "dst[Suc base := digits_table ! Suc (val * 2), base := digits_table ! (val * 2)] = splice_at dst base (dec val)"
    using assms d
    by (auto simp: nth_splice_at length_splice_at nth_list_update less_Suc_eq intro!: nth_equalityI)
  then show ?thesis
    using False assms d us by (simp add: ll2string_digits_def ll2string_loop.simps mem_simps Let_def)
qed

lemma ll2string_digits_correct:
  assumes "base + length (dec val) \<le> length dst" "length dst < 2 ^ 32"
  shows "ll2string_digits dst (base + length (dec val) - 1) val = Some (splice_at dst base (dec val))"
  using assms
proof (induction val arbitrary: dst rule: less_induct)
  case (less val)
  show ?case
  proof (cases "val < 100")
    case True
    then show ?thesis using ll2string_digits_small less.prems by blast
  next
    case False
    let ?m = "base + length (dec (val div 100))"
    let ?a = "digits_table ! (val mod 100 * 2)" and ?b = "digits_table ! Suc (val mod 100 * 2)"
    let ?dst = "dst[Suc ?m := ?b, ?m := ?a]"
    have d: "dec val = dec (val div 100) @ [?a, ?b]"
      using False by (intro dec_two_digits) simp
    have us: "usub32 (Suc ?m) 1 = ?m" "usub32 (Suc ?m) 2 = ?m - 1"
      using less.prems d by (auto simp: usub32_id Suc_le_eq numeral_2_eq_2)
    have "ll2string_digits dst (base + length (dec val) - 1) val = ll2string_digits ?dst (?m - 1) (val div 100)"
      using False us less.prems d
      by (simp add: ll2string_digits_def ll2string_loop.simps [of dst _ val] Let_def mem_simps)
    also have "\<dots> = Some (splice_at ?dst base (dec (val div 100)))"
      using False less.prems d by (intro less.IH) auto
    also have "splice_at ?dst base (dec (val div 100)) = splice_at dst base (dec val)"
      using less.prems d
      by (auto simp: nth_splice_at length_splice_at nth_list_update nth_append less_Suc_eq intro!: nth_equalityI)
    finally show ?thesis .
  qed
qed

section \<open>Printing and parsing are inverse\<close>

lemma ll2string_sign_correct:
  assumes "in_signed 64 v"
  shows "ll2string_sign v = (nat \<bar>v\<bar>, if v < 0 then 1 else 0)"
proof -
  consider "0 \<le> v" | "v = - (2 ^ 63)" | "v < 0" "v \<noteq> - (2 ^ 63)" by linarith
  then show ?thesis
    using assms by cases (simp_all add: ll2string_sign_def u64_def)
qed

lemma splice_digits:
  "length xs < length dst \<Longrightarrow> splice_at (dst[length xs := z]) 0 xs = splice_at dst 0 (xs @ [z])"
  by (rule nth_equalityI) (auto simp: length_splice_at nth_splice_at nth_append less_Suc_eq)

lemma splice_sign_digits:
  assumes "Suc (length xs) < length dst"
  shows "(splice_at (dst[Suc (length xs) := z]) (Suc 0) xs)[0 := y] = splice_at dst 0 (y # xs @ [z])"
  using assms splice_digits [of xs "tl dst" z] by (cases dst) (simp_all add: splice_at_def)

lemma ll2string_repr:
  assumes v: "in_signed 64 v" and dst: "dstlen \<le> length dst" "length dst < 2 ^ 32"
  shows "ll2string dst dstlen v =
    Some (if length (ll_repr v) \<ge> dstlen then (dst, 0)
      else (splice_at dst 0 (ll_repr v @ [0]), length (ll_repr v)))"
proof -
  define m where "m = nat \<bar>v\<bar>"
  define neg where "neg = (if v < 0 then 1 else 0 :: nat)"
  have m: "m \<le> 2 ^ 63" using v by (auto simp: m_def)
  have repr: "ll_repr v = replicate neg 45 @ dec m"
    by (simp add: ll_repr_def neg_def m_def)
  have dig: "length (dec m) \<le> 20"
    using m by (subst length_dec_le) auto
  have conv: "ll2string_sign v = (m, neg)"
    using v by (simp add: m_def neg_def ll2string_sign_correct)
  have len: "u32 (digits10 m + neg) = length (ll_repr v)"
    using dig by (simp add: repr digits10_length_dec neg_def u32_id)
  show ?thesis
  proof (cases "length (ll_repr v) \<ge> dstlen")
    case True
    then show ?thesis by (simp add: ll2string_def conv len)
  next
    case False
    let ?n = "length (ll_repr v)"
    define dst1 where "dst1 = dst[?n := 0]"
    have nxt: "usub32 ?n 1 = neg + length (dec m) - 1"
      using dig by (simp add: repr usub32_id Suc_le_eq neg_def)
    define dst2 where "dst2 = splice_at dst1 neg (dec m)"
    have e1: "ll2string_digits dst1 (usub32 ?n 1) m = Some dst2"
      unfolding dst2_def nxt using False dst by (intro ll2string_digits_correct) (auto simp: dst1_def repr)
    have e2: "store dst ?n 0 = Some dst1"
      using False dst by (simp add: dst1_def mem_simps)
    have "length dst2 = length dst"
      using False dst by (simp add: dst2_def dst1_def length_splice_at repr)
    then have sign: "(if neg \<noteq> 0 then store dst2 0 45 else Some dst2) = Some (if neg \<noteq> 0 then dst2[0 := 45] else dst2)"
      using False dst by (auto simp: store_def)
    have run: "ll2string dst dstlen v = do {
        dst \<leftarrow> ll2string_digits dst1 (usub32 ?n 1) m;
        dst \<leftarrow> (if neg \<noteq> 0 then store dst 0 45 else Some dst);
        Some (dst, ?n) }"
      using False
      by (simp add: ll2string_def conv len e2 ll2string_digits_def Let_def case_prod_unfold Option.bind_assoc)
    have e3: "(if neg \<noteq> 0 then (splice_at dst1 neg (dec m))[0 := 45] else splice_at dst1 neg (dec m))
        = splice_at dst 0 (ll_repr v @ [0])"
      using False dst splice_digits [of "dec m" dst 0] splice_sign_digits [of "dec m" dst 0 45]
      by (cases "v < 0") (simp_all add: dst1_def repr neg_def)
    show ?thesis
      using False sign e3 unfolding run e1 dst2_def [symmetric] by simp
  qed
qed

primrec digits_value :: "nat \<Rightarrow> byte list \<Rightarrow> nat" where
  "digits_value v [] = v"
| "digits_value v (c # cs) = digits_value (v * 10 + unat (c - 48)) cs"

lemma digit_value:
  assumes "is_digit c"
  shows "unat (c - 48) < 10" "48 + of_nat (unat (c - 48)) = c"
proof -
  have "unat (c - 48) = unat c - 48" "unat c \<le> 57"
    using assms by (auto simp: is_digit_def unat_sub word_le_nat_alt)
  then show "unat (c - 48) < 10" by simp
  show "48 + of_nat (unat (c - 48)) = c" by simp
qed

lemma digit_of_small:
  assumes "n < 10"
  shows "is_digit (48 + of_nat n)" "unat (48 + of_nat n - 48 :: byte) = n"
proof -
  have "unat (48 + of_nat n :: byte) = 48 + n"
    using assms by (simp add: unat_word_ariths unat_of_nat)
  then show "is_digit (48 + of_nat n)"
    using assms by (simp add: is_digit_def word_le_nat_alt)
  show "unat (48 + of_nat n - 48 :: byte) = n"
    using assms by (simp add: unat_of_nat)
qed

lemma digits_value_ge: "v \<le> digits_value v cs"
proof (induction cs arbitrary: v)
  case (Cons c cs)
  have "v \<le> v * 10 + unat (c - 48)" by simp
  also have "\<dots> \<le> digits_value (v * 10 + unat (c - 48)) cs" by (rule Cons.IH)
  finally show ?case by simp
qed simp

lemma digits_value_append: "digits_value v (cs @ ds) = digits_value (digits_value v cs) ds"
  by (induction cs arbitrary: v) simp_all

lemma string2ll_loop_Some:
  assumes "v \<le> ULLONG_MAX"
  shows "string2ll_loop v cs = Some (w, []) \<longleftrightarrow>
    list_all is_digit cs \<and> digits_value v cs = w \<and> w \<le> ULLONG_MAX"
  using assms
proof (induction cs arbitrary: v)
  case (Cons c cs)
  show ?case
  proof (cases "is_digit c \<and> v * 10 + unat (c - 48) \<le> ULLONG_MAX")
    case True
    then have "\<not> v > ULLONG_MAX div 10" "\<not> v * 10 > ULLONG_MAX - unat (c - 48)"
      by auto
    then show ?thesis
      using True Cons.IH [of "v * 10 + unat (c - 48)"] by simp
  next
    case False
    have "\<not> digits_value v (c # cs) \<le> ULLONG_MAX" if "is_digit c"
      using False that digits_value_ge [of "v * 10 + unat (c - 48)" cs] by auto
    moreover have "string2ll_loop v (c # cs) \<noteq> Some (w, [])"
      using False digit_value(1) [of c] by (auto simp: ULLONG_MAX_def Let_def split: if_splits)
    ultimately show ?thesis by auto
  qed
qed auto

lemma dec_digits_value:
  assumes "0 < v" "list_all is_digit cs"
  shows "dec (digits_value v cs) = dec v @ cs"
  using assms
proof (induction cs arbitrary: v)
  case (Cons c cs)
  have d: "unat (c - 48) < 10" "48 + of_nat (unat (c - 48)) = c"
    using digit_value [of c] Cons.prems by auto
  have "dec (v * 10 + unat (c - 48)) = dec v @ [c]"
    using Cons.prems(1) d dec_step [of "v * 10 + unat (c - 48)"] by simp
  then show ?case
    using Cons.IH [of "v * 10 + unat (c - 48)"] Cons.prems by simp
qed simp

lemma dec_decompose:
  assumes "0 < w"
  shows "\<exists>c cs. dec w = c # cs \<and> is_digit c \<and> c \<noteq> 48 \<and> list_all is_digit cs \<and>
    digits_value (unat (c - 48)) cs = w"
  using assms
proof (induction w rule: less_induct)
  case (less w)
  show ?case
  proof (cases "w < 10")
    case True
    have "48 + of_nat w \<noteq> (48 :: byte)"
      using digit_of_small [OF True] less.prems by auto
    then show ?thesis
      using True digit_of_small [OF True] by (simp add: dec_small)
  next
    case False
    then obtain c cs where IH: "dec (w div 10) = c # cs" "is_digit c" "c \<noteq> 48" "list_all is_digit cs"
      "digits_value (unat (c - 48)) cs = w div 10"
      using less.IH [of "w div 10"] by (auto simp: div_greater_zero_iff)
    have "digits_value (unat (c - 48)) (cs @ [48 + of_nat (w mod 10)]) = w"
      using digit_of_small(2) [of "w mod 10"] by (simp add: digits_value_append IH)
    then show ?thesis
      using False IH digit_of_small(1) [of "w mod 10"] by (simp add: dec_step)
  qed
qed

lemma string2ll_ll_repr:
  assumes "in_signed 64 v"
  shows "string2ll (ll_repr v) = Some v"
proof (cases "v = 0")
  case True
  then show ?thesis by (simp add: ll_repr_def dec_small string2ll_def)
next
  case False
  define w where "w = nat \<bar>v\<bar>"
  have "0 < w" using False by (simp add: w_def)
  then obtain c cs where d: "dec w = c # cs" "is_digit c" "c \<noteq> 48" "list_all is_digit cs"
    "digits_value (unat (c - 48)) cs = w"
    using dec_decompose by blast
  have w: "w \<le> 2 ^ 63" "\<not> v < 0 \<Longrightarrow> w < 2 ^ 63"
    using assms by (auto simp: w_def)
  have c: "49 \<le> c" "c \<le> 57" "c \<noteq> 45"
    using d(2,3) inc_le [of 48 c] by (auto simp: is_digit_def order.order_iff_strict)
  have "unat (c - 48) \<le> ULLONG_MAX"
    using digit_value(1) [OF d(2)] by (simp add: ULLONG_MAX_def)
  then have "string2ll_loop (unat (c - 48)) cs = Some (w, [])"
    using d w(1) by (subst string2ll_loop_Some) (auto simp: ULLONG_MAX_def)
  moreover have "ll_repr v = (if v < 0 then 45 # c # cs else c # cs)"
    using d(1) by (cases "v < 0") (simp_all add: ll_repr_def w_def)
  ultimately show ?thesis
    using c w d(3) False by (cases "v < 0") (auto simp: string2ll_def w_def)
qed

lemma string2ll_inv:
  assumes "string2ll s = Some v"
  shows "in_signed 64 v \<and> s = ll_repr v"
proof (cases "s = [48]")
  case True
  then show ?thesis using assms by (simp add: string2ll_def ll_repr_def dec_small)
next
  case False
  define neg where "neg = (s ! 0 = 45)"
  define p where "p = (if neg then tl s else s)"
  have ne: "s \<noteq> []" using assms by (auto simp: string2ll_def)
  have not_zero: "\<not> (length s = 1 \<and> s ! 0 = 48)"
    using False by (auto simp: length_Suc_conv)
  have s: "s = (if neg then 45 # p else p)"
    using ne by (cases s) (auto simp: neg_def p_def)
  obtain c cs where p: "p = c # cs" and c: "49 \<le> c" "c \<le> 57"
    using assms False ne by (cases p) (auto simp: string2ll_def neg_def p_def Let_def length_Suc_conv split: if_splits)
  obtain w where w: "string2ll_loop (unat (c - 48)) cs = Some (w, [])"
    and v: "v = (if neg then - int w else int w)" "w \<le> 2 ^ 63" "neg \<or> w < 2 ^ 63"
    using assms not_zero ne c p
    by (auto simp: string2ll_def neg_def [symmetric] p_def [symmetric] Let_def split: if_splits option.splits)
  have dig: "is_digit c" "0 < unat (c - 48)"
    using c by (auto simp: is_digit_def unat_gt_0 word_le_nat_alt)
  have "unat (c - 48) \<le> ULLONG_MAX"
    using digit_value(1) [OF dig(1)] by (simp add: ULLONG_MAX_def)
  then have "list_all is_digit cs" "digits_value (unat (c - 48)) cs = w"
    using w string2ll_loop_Some by auto
  then have "dec w = p" "0 < w"
    using dec_digits_value [OF dig(2)] digit_value [OF dig(1)] digits_value_ge [of "unat (c - 48)" cs] dig(2)
    by (auto simp: dec_small p)
  then show ?thesis
    using v s by (auto simp: ll_repr_def)
qed

lemma digits_value_foldl: "int (digits_value v cs) = foldl (\<lambda>v c. v * 10 + int (unat (c - 48))) (int v) cs"
  by (induction cs arbitrary: v) simp_all

lemma dec_all_digits: "list_all is_digit (dec n)"
proof (induction n rule: less_induct)
  case (less n)
  then show ?case
    by (cases "n < 10") (simp_all add: dec_small dec_step digit_of_small)
qed

lemma unat_byte_of_small: "n < 10 \<Longrightarrow> unat (of_nat n :: byte) = n"
  by (simp add: unat_of_nat)

lemma dec_value: "digits_value 0 (dec n) = n"
proof (induction n rule: less_induct)
  case (less n)
  then show ?case
    by (cases "n < 10") (simp_all add: dec_small dec_step digits_value_append unat_byte_of_small)
qed

lemma takeWhile_digits:
  assumes "list_all is_digit ds" "u = [] \<or> \<not> is_digit (hd u)"
  shows "takeWhile is_digit (ds @ u) = ds" "dropWhile is_digit (ds @ u) = u"
  using assms by (induction ds; cases u; auto)+

lemma digit_not_special: "is_digit c \<Longrightarrow> c \<noteq> 45 \<and> c \<noteq> 43 \<and> \<not> c_isspace c"
  by (auto simp: is_digit_def c_isspace_def word_le_nat_alt)

lemma strtoll10_dec:
  assumes "n < 2 ^ 63"
  shows "strtoll10 einval (dec n) = (int n, False, [])"
proof -
  obtain c cs where d: "dec n = c # cs" "is_digit c"
    using dec_all_digits [of n] by (cases "dec n") auto
  have "foldl (\<lambda>v c. v * 10 + int (unat (c - 48))) 0 (dec n) = int n"
    using digits_value_foldl [of 0 "dec n"] by (simp add: dec_value)
  moreover have tw: "takeWhile is_digit cs = cs" "dropWhile is_digit cs = []"
    using dec_all_digits [of n] by (simp_all add: d list_all_iff)
  ultimately show ?thesis
    using d digit_not_special [of c] assms by (simp add: strtoll10_def Let_def tw)
qed

lemma memtoll_unit_start:
  assumes "memtoll_unit u = Some mul"
  shows "u = [] \<or> \<not> is_digit (hd u)"
proof (rule ccontr)
  assume neg: "\<not> (u = [] \<or> \<not> is_digit (hd u))"
  then obtain c cs where u: "u = c # cs" "is_digit c" by (cases u) auto
  have "c_tolower c = c" "c \<noteq> 98" "c \<noteq> 107" "c \<noteq> 109" "c \<noteq> 103"
    using u(2) by (auto simp: c_tolower_def is_digit_def word_le_nat_alt)
  then show False
    using assms u(1) by (auto simp: memtoll_unit_def strcaseeq_def c_tolower_def split: if_splits)
qed

text \<open>
  A number below 2^63 followed by one of the units (none, b, k, kb, m, mb, g, gb, in
  either case) is read as the number times the unit; the product is reduced to 64 bits.
\<close>

theorem memtoll_reads_units:
  assumes "n < 2 ^ 63" "memtoll_unit u = Some mul"
  shows "memtoll einval (dec n @ u) = (to_signed 64 (int n * mul), False)"
proof -
  obtain c cs where d: "dec n = c # cs" "is_digit c"
    using dec_all_digits [of n] by (cases "dec n") auto
  have len: "length (dec n) < 128"
    using length_dec_le [of 19 n] assms(1) by simp
  show ?thesis
    using takeWhile_digits [OF dec_all_digits memtoll_unit_start [OF assms(2)], of n] assms
      strtoll10_dec [OF assms(1), of einval] digit_not_special [OF d(2)] len
    by (simp add: memtoll_def d(1))
qed

theorem memtoll_reads_units_witness:
  "memtoll_unit (map of_char ''Gb'') = Some 1073741824 \<and>
   memtoll False (map of_char ''1Gb'') = (1073741824, False)"
proof -
  have u: "memtoll_unit (map of_char ''Gb'') = Some 1073741824"
    by (simp add: memtoll_unit_def strcaseeq_def c_tolower_def)
  show ?thesis
    using memtoll_reads_units [of 1 "map of_char ''Gb''" 1073741824 False] u
    by (simp add: dec_small to_signed_def)
qed

text \<open>
  C35: \<open>string2ll\<close> accepts exactly the decimal representations of the 64 bit signed integers
  (no leading zeros, no plus sign, no minus zero, nothing out of range) and returns the
  number represented.
\<close>

theorem string2ll_exact: "string2ll s = Some v \<longleftrightarrow> in_signed 64 v \<and> s = ll_repr v"
  using string2ll_inv string2ll_ll_repr by blast

text \<open>
  C36: \<open>ll2string\<close> on a buffer of at least \<open>dstlen\<close> bytes writes the representation of the value
  and a terminator at the start of the buffer, stores nothing outside it, leaves the rest of the buffer
  alone and returns the length; when the representation with its terminator does not fit it
  writes nothing and returns 0. What it wrote reads back as the value.
\<close>

theorem ll2string_prints:
  assumes "in_signed 64 v" "dstlen \<le> length dst" "length dst < 2 ^ 32"
  shows "\<exists>d n. ll2string dst dstlen v = Some (d, n) \<and>
    (d, n) = (if length (ll_repr v) \<ge> dstlen then (dst, 0)
       else (ll_repr v @ 0 # drop (length (ll_repr v) + 1) dst, length (ll_repr v))) \<and>
    (n > 0 \<longrightarrow> string2ll (take n d) = Some v)"
proof -
  have "ll2string dst dstlen v =
      Some (if length (ll_repr v) \<ge> dstlen then (dst, 0)
       else (ll_repr v @ 0 # drop (length (ll_repr v) + 1) dst, length (ll_repr v)))"
    using ll2string_repr [OF assms] by (simp add: splice_at_def)
  then show ?thesis
    using string2ll_ll_repr [OF assms(1)] by auto
qed

theorem ll2string_prints_witness:
  "in_signed 64 (-42) \<and> ll2string (replicate 5 7) 5 (-42) = Some ([45, 52, 50, 0, 7], 3)"
proof -
  have "ll_repr (-42) = [45, 52, 50]"
    by (simp add: ll_repr_def dec.simps)
  then show ?thesis
    using ll2string_prints [of "-42" 5 "replicate 5 7"] by simp
qed

end
