(* ===== verification/Lzf.thy ===== *)
theory Lzf
  imports Redis_Prelude "HOL-Library.Monad_Syntax"
begin

text \<open>
  \<^verbatim>\<open>redis-3.0.0/src/lzf_c.c\<close> and \<^verbatim>\<open>lzf_d.c\<close> (with \<^verbatim>\<open>lzfP.h\<close>): the LZF compressor and decompressor
  used for strings in RDB files, in the configuration Redis compiles (\<open>HLOG\<close> 16, \<open>VERY_FAST\<close>,
  no \<open>INIT_HTAB\<close>, no \<open>LZF_STATE_ARG\<close>, \<open>CHECK_INPUT\<close>).

  Memory is explicit: an access outside its buffer is a fault, the outer \<open>None\<close>. The hash
  table of the compressor is an uninitialised array of pointers, so its initial contents
  are an arbitrary argument; a pointer into (or outside) the input is its distance from
  \<open>in_data\<close>.
\<close>

section \<open>Checked memory accesses\<close>

definition mem_rd :: "'a list \<Rightarrow> nat \<Rightarrow> 'a option" where
  "mem_rd m i = (if i < length m then Some (m ! i) else None)"

definition mem_wr :: "'a list \<Rightarrow> nat \<Rightarrow> 'a \<Rightarrow> 'a list option" where
  "mem_wr m i v = (if i < length m then Some (m[i := v]) else None)"

text \<open>The store \<open>p[- k - 1] = v\<close>.\<close>

definition mem_wr_before :: "'a list \<Rightarrow> nat \<Rightarrow> nat \<Rightarrow> 'a \<Rightarrow> 'a list option" where
  "mem_wr_before m p k v = (if k < p then mem_wr m (p - k - 1) v else None)"

section \<open>Compression\<close>

definition MAX_LIT :: nat where "MAX_LIT = 32"
definition MAX_OFF :: nat where "MAX_OFF = 8192"
definition MAX_REF :: nat where "MAX_REF = 256 + 8"

lemmas lzf_consts = MAX_LIT_def MAX_OFF_def MAX_REF_def

definition FRST :: "byte list \<Rightarrow> nat \<Rightarrow> 32 word option" where
  "FRST inp p = do {
     a \<leftarrow> mem_rd inp p;
     b \<leftarrow> mem_rd inp (p + 1);
     Some (or (push_bit 8 (ucast a)) (ucast b)) }"

definition NEXT :: "32 word \<Rightarrow> byte list \<Rightarrow> nat \<Rightarrow> 32 word option" where
  "NEXT v inp p = do {
     c \<leftarrow> mem_rd inp (p + 2);
     Some (or (push_bit 8 v) (ucast c)) }"

definition IDX :: "32 word \<Rightarrow> nat" where
  "IDX h = unat (and (drop_bit 8 h - h * 5) 65535)"

record lzf_state =
  lz_ip :: nat
  lz_op :: nat
  lz_out :: "byte list"
  lz_htab :: "nat \<Rightarrow> int"
  lz_hval :: "32 word"
  lz_lit :: nat

text \<open>How a loop body ends: \<open>return n\<close>, \<open>break\<close>, or the next iteration.\<close>

datatype 's flow = Return nat 's | Break 's | Continue 's

text \<open>
  The length of a match: the sixteen unrolled comparisons (the flag says whether one of them
  left the \<open>for\<close>), then the \<open>do ... while\<close>.
\<close>

fun lzf_match_unrolled :: "byte list \<Rightarrow> nat \<Rightarrow> nat \<Rightarrow> nat \<Rightarrow> nat \<Rightarrow> (nat \<times> bool) option" where
  "lzf_match_unrolled inp ref ip 0 len = Some (len, False)"
| "lzf_match_unrolled inp ref ip (Suc k) len = do {
     a \<leftarrow> mem_rd inp (ref + (len + 1));
     b \<leftarrow> mem_rd inp (ip + (len + 1));
     if a \<noteq> b then Some (len + 1, True)
     else lzf_match_unrolled inp ref ip k (len + 1) }"

function lzf_match_tail :: "byte list \<Rightarrow> nat \<Rightarrow> nat \<Rightarrow> nat \<Rightarrow> nat \<Rightarrow> nat option" where
  "lzf_match_tail inp ref ip maxlen len =
     (if len + 1 < maxlen then do {
        a \<leftarrow> mem_rd inp (ref + (len + 1));
        b \<leftarrow> mem_rd inp (ip + (len + 1));
        if a = b then lzf_match_tail inp ref ip maxlen (len + 1) else Some (len + 1) }
      else Some (len + 1))"
  by pat_completeness auto
termination
  by (relation "measure (\<lambda>(inp, ref, ip, maxlen, len). maxlen - len)") auto

declare lzf_match_tail.simps [simp del]

definition lzf_match_length :: "byte list \<Rightarrow> nat \<Rightarrow> nat \<Rightarrow> nat option" where
  "lzf_match_length inp ref ip =
     (let len = 2;
          maxlen = length inp - ip - len;
          maxlen = (if maxlen > MAX_REF then MAX_REF else maxlen)
      in if maxlen > 16 then do {
           (len, broke) \<leftarrow> lzf_match_unrolled inp ref ip 16 len;
           if broke then Some len else lzf_match_tail inp ref ip maxlen len }
         else lzf_match_tail inp ref ip maxlen len)"

text \<open>The branch of the main loop that emits a back reference.\<close>

definition lzf_emit_match ::
  "byte list \<Rightarrow> nat \<Rightarrow> lzf_state \<Rightarrow> nat \<Rightarrow> nat \<Rightarrow> lzf_state flow option" where
  "lzf_emit_match inp out_len s ref off = do {
     let lit = lz_lit s;
     out \<leftarrow> mem_wr_before (lz_out s) (lz_op s) lit (word_of_int (int lit - 1));
     let op = (if lit = 0 then lz_op s - 1 else lz_op s);
     if op + 3 + 1 \<ge> out_len then Some (Return 0 (s\<lparr>lz_out := out, lz_op := op\<rparr>))
     else do {
       len \<leftarrow> lzf_match_length inp ref (lz_ip s);
       let len = len - 2;
       let ip = lz_ip s + 1;
       (out, op) \<leftarrow>
         (if len < 7 then do {
            out \<leftarrow> mem_wr out op (u8 (off div 256 + len * 32));
            Some (out, op + 1) }
          else do {
            out \<leftarrow> mem_wr out op (u8 (off div 256 + 7 * 32));
            out \<leftarrow> mem_wr out (op + 1) (u8 (len - 7));
            Some (out, op + 2) });
       out \<leftarrow> mem_wr out op (u8 off);
       let op = op + 1 + 1;
       let ip = ip + (len + 1);
       let s = s\<lparr>lz_out := out, lz_op := op, lz_ip := ip, lz_lit := 0\<rparr>;
       if ip + 2 \<ge> length inp then Some (Break s)
       else do {
         let ip = ip - 2;
         hval \<leftarrow> FRST inp ip;
         hval \<leftarrow> NEXT hval inp ip;
         let htab = (lz_htab s)(IDX hval := int ip);
         let ip = ip + 1;
         hval \<leftarrow> NEXT hval inp ip;
         let htab = htab(IDX hval := int ip);
         let ip = ip + 1;
         Some (Continue (s\<lparr>lz_ip := ip, lz_hval := hval, lz_htab := htab\<rparr>)) } } }"

text \<open>Copying one literal byte, closing the run when it is full.\<close>

definition lzf_put_literal :: "byte list \<Rightarrow> lzf_state \<Rightarrow> lzf_state option" where
  "lzf_put_literal inp s = do {
     b \<leftarrow> mem_rd inp (lz_ip s);
     out \<leftarrow> mem_wr (lz_out s) (lz_op s) b;
     let s = s\<lparr>lz_lit := lz_lit s + 1, lz_out := out, lz_op := lz_op s + 1, lz_ip := lz_ip s + 1\<rparr>;
     if lz_lit s = MAX_LIT then do {
       out \<leftarrow> mem_wr_before out (lz_op s) (lz_lit s) (word_of_int (int (lz_lit s) - 1));
       Some (s\<lparr>lz_out := out, lz_lit := 0, lz_op := lz_op s + 1\<rparr>) }
     else Some s }"

text \<open>One iteration of the main loop. The offset is an \<open>unsigned long\<close>.\<close>

definition lzf_compress_step :: "byte list \<Rightarrow> nat \<Rightarrow> lzf_state \<Rightarrow> lzf_state flow option" where
  "lzf_compress_step inp out_len s = do {
     let ip = lz_ip s;
     hval \<leftarrow> NEXT (lz_hval s) inp ip;
     let ref = lz_htab s (IDX hval);
     let s = s\<lparr>lz_hval := hval, lz_htab := (lz_htab s)(IDX hval := int ip)\<rparr>;
     let off = to_unsigned 64 (int ip - ref - 1);
     found \<leftarrow>
       (if off < int MAX_OFF \<and> ip + 4 < length inp \<and> ref > 0 then do {
          r0 \<leftarrow> mem_rd inp (nat ref); r1 \<leftarrow> mem_rd inp (nat ref + 1); r2 \<leftarrow> mem_rd inp (nat ref + 2);
          i0 \<leftarrow> mem_rd inp ip; i1 \<leftarrow> mem_rd inp (ip + 1); i2 \<leftarrow> mem_rd inp (ip + 2);
          Some (r0 = i0 \<and> r1 = i1 \<and> r2 = i2) }
        else Some False);
     if found then lzf_emit_match inp out_len s (nat ref) (nat off)
     else if lz_op s \<ge> out_len then Some (Return 0 s)
     else map_option Continue (lzf_put_literal inp s) }"


text \<open>Every iteration that continues has consumed input, so the main loop ends.\<close>

lemma lzf_put_literal_ip: "lzf_put_literal inp s = Some s' \<Longrightarrow> lz_ip s' = lz_ip s + 1"
  by (auto simp: lzf_put_literal_def Let_def split: if_splits bind_splits)

lemma lzf_emit_match_ip: "lzf_emit_match inp out_len s ref off = Some (Continue s') \<Longrightarrow> lz_ip s < lz_ip s'"
  by (auto simp: lzf_emit_match_def Let_def split: if_splits bind_splits)

lemma lzf_compress_step_ip: "lzf_compress_step inp out_len s = Some (Continue s') \<Longrightarrow> lz_ip s < lz_ip s'"
  by (auto simp: lzf_compress_step_def Let_def split: if_splits bind_splits
      dest!: lzf_emit_match_ip lzf_put_literal_ip)

function lzf_compress_loop :: "byte list \<Rightarrow> nat \<Rightarrow> lzf_state \<Rightarrow> lzf_state flow option" where
  "lzf_compress_loop inp out_len s =
     (if lz_ip s + 2 < length inp then
        case lzf_compress_step inp out_len s of
          None \<Rightarrow> None
        | Some (Return n s') \<Rightarrow> Some (Return n s')
        | Some (Break s') \<Rightarrow> Some (Break s')
        | Some (Continue s') \<Rightarrow> lzf_compress_loop inp out_len s'
      else Some (Break s))"
  by pat_completeness auto
termination
  by (relation "measure (\<lambda>(inp, out_len, s). length inp - lz_ip s)")
    (auto dest!: lzf_compress_step_ip)

declare lzf_compress_loop.simps [simp del]

function lzf_flush_loop :: "byte list \<Rightarrow> lzf_state \<Rightarrow> lzf_state option" where
  "lzf_flush_loop inp s =
     (if lz_ip s < length inp then
        case lzf_put_literal inp s of None \<Rightarrow> None | Some s' \<Rightarrow> lzf_flush_loop inp s'
      else Some s)"
  by pat_completeness auto
termination
  by (relation "measure (\<lambda>(inp, s). length inp - lz_ip s)") (auto dest!: lzf_put_literal_ip)

declare lzf_flush_loop.simps [simp del]

text \<open>
  \<open>lzf_compress\<close>: the number of bytes used (0 when the output does not fit) and the output
  buffer. \<open>out\<close> is the memory behind \<open>out_data\<close>, which may be larger than \<open>out_len\<close>.
\<close>

definition lzf_compress ::
  "byte list \<Rightarrow> byte list \<Rightarrow> nat \<Rightarrow> (nat \<Rightarrow> int) \<Rightarrow> (nat \<times> byte list) option" where
  "lzf_compress inp out out_len htab =
     (if length inp = 0 \<or> out_len = 0 then Some (0, out)
      else do {
        hval \<leftarrow> FRST inp 0;
        r \<leftarrow> lzf_compress_loop inp out_len
               \<lparr>lz_ip = 0, lz_op = 1, lz_out = out, lz_htab = htab, lz_hval = hval, lz_lit = 0\<rparr>;
        case r of
          Return n s \<Rightarrow> Some (n, lz_out s)
        | Continue s \<Rightarrow> None
        | Break s \<Rightarrow>
            if lz_op s + 3 > out_len then Some (0, lz_out s)
            else do {
              s \<leftarrow> lzf_flush_loop inp s;
              out \<leftarrow> mem_wr_before (lz_out s) (lz_op s) (lz_lit s)
                      (word_of_int (int (lz_lit s) - 1));
              Some (if lz_lit s = 0 then lz_op s - 1 else lz_op s, out) } })"

section \<open>Decompression\<close>

datatype lzf_result = LZF_OK nat | LZF_E2BIG | LZF_EINVAL

fun lzf_copy_literals :: "byte list \<Rightarrow> nat \<Rightarrow> byte list \<Rightarrow> nat \<Rightarrow> nat \<Rightarrow> byte list option" where
  "lzf_copy_literals inp ip out op 0 = Some out"
| "lzf_copy_literals inp ip out op (Suc n) = do {
     b \<leftarrow> mem_rd inp ip;
     out \<leftarrow> mem_wr out op b;
     lzf_copy_literals inp (ip + 1) out (op + 1) n }"

fun lzf_copy_back :: "byte list \<Rightarrow> nat \<Rightarrow> nat \<Rightarrow> nat \<Rightarrow> byte list option" where
  "lzf_copy_back out ref op 0 = Some out"
| "lzf_copy_back out ref op (Suc n) = do {
     b \<leftarrow> mem_rd out ref;
     out \<leftarrow> mem_wr out op b;
     lzf_copy_back out (ref + 1) (op + 1) n }"

text \<open>
  The end of a back reference, once the length is known: the low byte of the offset, the two
  checks, the copy.
\<close>

definition lzf_backref ::
  "byte list \<Rightarrow> nat \<Rightarrow> nat \<Rightarrow> byte list \<Rightarrow> int \<Rightarrow> nat \<Rightarrow> nat \<Rightarrow>
   (lzf_result + nat \<times> nat \<times> byte list) option" where
  "lzf_backref inp out_len op out ref len ip = do {
     b \<leftarrow> mem_rd inp ip;
     let ref = ref - int (unat b);
     if op + len + 2 > out_len then Some (Inl LZF_E2BIG)
     else if ref < 0 then Some (Inl LZF_EINVAL)
     else do {
       out \<leftarrow> lzf_copy_back out (nat ref) op (len + 2);
       Some (Inr (ip + 1, op + len + 2, out)) } }"

text \<open>
  One iteration of the loop, on \<open>ip\<close>, \<open>op\<close> and the output: either the position after it, or the
  error the code returns with.
\<close>

definition lzf_decompress_step ::
  "byte list \<Rightarrow> nat \<Rightarrow> nat \<Rightarrow> nat \<Rightarrow> byte list \<Rightarrow> (lzf_result + nat \<times> nat \<times> byte list) option" where
  "lzf_decompress_step inp out_len ip op out = do {
     c \<leftarrow> mem_rd inp ip;
     let ctrl = unat c;
     let ip = ip + 1;
     if ctrl < 32 then
       let ctrl = ctrl + 1 in
       if op + ctrl > out_len then Some (Inl LZF_E2BIG)
       else if ip + ctrl > length inp then Some (Inl LZF_EINVAL)
       else do {
         out \<leftarrow> lzf_copy_literals inp ip out op ctrl;
         Some (Inr (ip + ctrl, op + ctrl, out)) }
     else
       let len = ctrl div 32;
           ref = int op - int (ctrl mod 32 * 256) - 1 in
       if ip \<ge> length inp then Some (Inl LZF_EINVAL)
       else if len = 7 then do {
         e \<leftarrow> mem_rd inp ip;
         if ip + 1 \<ge> length inp then Some (Inl LZF_EINVAL)
         else lzf_backref inp out_len op out ref (len + unat e) (ip + 1) }
       else lzf_backref inp out_len op out ref len ip }"

lemma lzf_backref_ip:
  "lzf_backref inp out_len op out ref len ip = Some (Inr (ip', op', out')) \<Longrightarrow> ip' = ip + 1"
  by (auto simp: lzf_backref_def Let_def split: if_splits bind_splits)

lemma lzf_decompress_step_ip:
  "lzf_decompress_step inp out_len ip op out = Some (Inr (ip', op', out')) \<Longrightarrow> ip < ip'"
  by (auto simp: lzf_decompress_step_def Let_def split: if_splits bind_splits dest!: lzf_backref_ip)

function lzf_decompress_loop ::
  "byte list \<Rightarrow> nat \<Rightarrow> nat \<Rightarrow> nat \<Rightarrow> byte list \<Rightarrow> (lzf_result \<times> byte list) option" where
  "lzf_decompress_loop inp out_len ip op out =
     (case lzf_decompress_step inp out_len ip op out of
        None \<Rightarrow> None
      | Some (Inl e) \<Rightarrow> Some (e, out)
      | Some (Inr (ip', op', out')) \<Rightarrow>
          if ip' < length inp then lzf_decompress_loop inp out_len ip' op' out'
          else Some (LZF_OK op', out'))"
  by pat_completeness auto
termination
  by (relation "measure (\<lambda>(inp, out_len, ip, op, out). length inp - ip)")
    (auto dest!: lzf_decompress_step_ip)

declare lzf_decompress_loop.simps [simp del]

definition lzf_decompress :: "byte list \<Rightarrow> byte list \<Rightarrow> nat \<Rightarrow> (lzf_result \<times> byte list) option" where
  "lzf_decompress inp out out_len = lzf_decompress_loop inp out_len 0 0 out"

section \<open>Memory accesses in range\<close>

lemma mem_rd_in [simp]: "i < length m \<Longrightarrow> mem_rd m i = Some (m ! i)"
  by (simp add: mem_rd_def)

lemma mem_wr_in [simp]: "i < length m \<Longrightarrow> mem_wr m i v = Some (m[i := v])"
  by (simp add: mem_wr_def)

lemma mem_wr_before_in:
  "k < p \<Longrightarrow> p - k - 1 < length m \<Longrightarrow> mem_wr_before m p k v = Some (m[p - k - 1 := v])"
  by (simp add: mem_wr_before_def)

lemma lzf_copy_literals_ok:
  assumes "ip + n \<le> length inp" "op + n \<le> length out"
  shows "lzf_copy_literals inp ip out op n = Some (splice_at out op (slice inp ip n))"
  using assms
proof (induction n arbitrary: ip op out)
  case (Suc n)
  have sl: "slice inp ip (Suc n) = inp ! ip # slice inp (ip + 1) n"
    using Suc.prems by (simp add: slice_def Cons_nth_drop_Suc [symmetric])
  have "lzf_copy_literals inp ip out op (Suc n) =
      Some (splice_at (out[op := inp ! ip]) (op + 1) (slice inp (ip + 1) n))"
    using Suc.prems Suc.IH [of "ip + 1" "op + 1" "out[op := inp ! ip]"] by simp
  also have "\<dots> = Some (splice_at out op (slice inp ip (Suc n)))"
    using Suc.prems
    by (simp add: sl splice_at_def take_Suc_conv_app_nth take_update_swap list_update_append)
  finally show ?case .
qed (simp add: slice_def splice_at_def)

lemma lzf_copy_back_ok:
  assumes "ref < op" "op + n \<le> length out"
  shows "\<exists>out'. lzf_copy_back out ref op n = Some out' \<and> length out' = length out \<and>
    (\<forall>i<length out. i < op \<or> op + n \<le> i \<longrightarrow> out' ! i = out ! i) \<and>
    (\<forall>k<n. out' ! (op + k) = out' ! (ref + k))"
  using assms
proof (induction n arbitrary: ref op out)
  case (Suc n)
  let ?o = "out[op := out ! ref]"
  obtain out' where IH: "lzf_copy_back ?o (ref + 1) (op + 1) n = Some out'" "length out' = length out"
    "\<forall>i<length out. i < op + 1 \<or> op + 1 + n \<le> i \<longrightarrow> out' ! i = ?o ! i"
    "\<forall>k<n. out' ! (op + 1 + k) = out' ! (ref + 1 + k)"
    using Suc.IH [of "ref + 1" "op + 1" ?o] Suc.prems by auto
  have "out' ! (op + k) = out' ! (ref + k)" if "k < Suc n" for k
    using that IH(3,4) Suc.prems by (cases k) auto
  then show ?case
    using IH Suc.prems by (intro exI [of _ out']) auto
qed simp

declare lzf_copy_literals.simps [simp del] lzf_copy_back.simps [simp del]

section \<open>The decompressor is memory safe\<close>

text \<open>What a successful iteration leaves alone.\<close>

definition lzf_extends :: "nat \<Rightarrow> nat \<Rightarrow> byte list \<Rightarrow> lzf_result + nat \<times> nat \<times> byte list \<Rightarrow> bool" where
  "lzf_extends out_len op out r \<longleftrightarrow>
     (\<forall>ip' op' out'. r = Inr (ip', op', out') \<longrightarrow>
        op \<le> op' \<and> op' \<le> out_len \<and> length out' = length out \<and>
        (\<forall>i<length out. i < op \<or> op' \<le> i \<longrightarrow> out' ! i = out ! i))"

lemma lzf_backref_safe:
  assumes "ip < length inp" "op \<le> out_len" "out_len \<le> length out" "ref < int op"
  shows "\<exists>r. lzf_backref inp out_len op out ref len ip = Some r \<and> lzf_extends out_len op out r"
proof -
  let ?ref = "ref - int (unat (inp ! ip))"
  show ?thesis
  proof (cases "op + len + 2 > out_len \<or> ?ref < 0")
    case True
    then show ?thesis
      using assms by (auto simp: lzf_backref_def lzf_extends_def Let_def)
  next
    case False
    have "0 \<le> int (unat (inp ! ip))" by simp
    then have "nat ?ref < op" using False assms(4) by linarith
    with False obtain out' where "lzf_copy_back out (nat ?ref) op (len + 2) = Some out'"
      "length out' = length out" "\<forall>i<length out. i < op \<or> op + (len + 2) \<le> i \<longrightarrow> out' ! i = out ! i"
      using lzf_copy_back_ok [of "nat ?ref" op "len + 2" out] assms by auto
    then show ?thesis
      using False assms by (simp add: lzf_backref_def lzf_extends_def)
  qed
qed

lemma lzf_decompress_step_safe:
  assumes "ip < length inp" "op \<le> out_len" "out_len \<le> length out"
  shows "\<exists>r. lzf_decompress_step inp out_len ip op out = Some r \<and> lzf_extends out_len op out r"
proof -
  let ?c = "unat (inp ! ip)"
  let ?ref = "int op - int (?c mod 32 * 256) - 1"
  consider (lit) "?c < 32" | (trunc) "\<not> ?c < 32" "ip + 1 \<ge> length inp"
    | (long) "\<not> ?c < 32" "ip + 1 < length inp" "?c div 32 = 7"
    | (short) "\<not> ?c < 32" "ip + 1 < length inp" "?c div 32 \<noteq> 7"
    by linarith
  then show ?thesis
  proof cases
    case lit
    then show ?thesis
      using assms
      by (auto simp: lzf_decompress_step_def lzf_extends_def Let_def lzf_copy_literals_ok length_splice_at
          length_slice nth_splice_at)
  next
    case trunc
    then show ?thesis
      using assms by (simp add: lzf_decompress_step_def lzf_extends_def)
  next
    case long
    have rd: "mem_rd inp (ip + 1) = Some (inp ! (ip + 1))"
      using long by (intro mem_rd_in)
    show ?thesis
    proof (cases "ip + 1 + 1 \<ge> length inp")
      case True
      then show ?thesis
        using long assms rd by (simp add: lzf_decompress_step_def lzf_extends_def Let_def)
    next
      case False
      then show ?thesis
        using long assms rd lzf_backref_safe [of "ip + 1 + 1" inp op out_len out ?ref "7 + unat (inp ! (ip + 1))"]
        by (simp add: lzf_decompress_step_def Let_def)
    qed
  next
    case short
    then show ?thesis
      using assms lzf_backref_safe [of "ip + 1" inp op out_len out ?ref "?c div 32"]
      by (simp add: lzf_decompress_step_def Let_def)
  qed
qed

lemma lzf_decompress_loop_safe:
  assumes "ip < length inp" "op \<le> out_len" "out_len \<le> length out"
  shows "\<exists>r out'. lzf_decompress_loop inp out_len ip op out = Some (r, out') \<and>
    length out' = length out \<and> (\<forall>i<length out. i < op \<or> out_len \<le> i \<longrightarrow> out' ! i = out ! i) \<and>
    (\<forall>n. r = LZF_OK n \<longrightarrow> n \<le> out_len)"
  using assms
proof (induction inp out_len ip op out rule: lzf_decompress_loop.induct)
  case (1 inp out_len ip op out)
  obtain r where r: "lzf_decompress_step inp out_len ip op out = Some r" "lzf_extends out_len op out r"
    using lzf_decompress_step_safe [OF "1.prems"] by blast
  show ?case
  proof (cases r)
    case (Inl e)
    have "e \<noteq> LZF_OK n" for n
      using r(1) unfolding Inl
      by (auto simp: lzf_decompress_step_def lzf_backref_def Let_def split: if_splits bind_splits)
    then show ?thesis
      using r Inl by (simp add: lzf_decompress_loop.simps [of inp out_len ip op out])
  next
    case (Inr t)
    obtain ip' op' out' where t: "t = (ip', op', out')" by (metis prod_cases3)
    have ext: "op \<le> op'" "op' \<le> out_len" "length out' = length out"
      "\<forall>i<length out. i < op \<or> op' \<le> i \<longrightarrow> out' ! i = out ! i"
      using r(2) by (auto simp: lzf_extends_def Inr t)
    show ?thesis
    proof (cases "ip' < length inp")
      case True
      have "\<exists>r out''. lzf_decompress_loop inp out_len ip' op' out' = Some (r, out'') \<and>
        length out'' = length out' \<and> (\<forall>i<length out'. i < op' \<or> out_len \<le> i \<longrightarrow> out'' ! i = out' ! i) \<and>
        (\<forall>n. r = LZF_OK n \<longrightarrow> n \<le> out_len)"
        using "1.IH" [OF r(1) Inr t [symmetric] refl True] "1.prems" ext True by simp
      then show ?thesis
        using True r(1) Inr t ext by (fastforce simp: lzf_decompress_loop.simps [of inp out_len ip op out])
    next
      case False
      then show ?thesis
        using r(1) Inr t ext by (auto simp: lzf_decompress_loop.simps [of inp out_len ip op out])
    qed
  qed
qed

section \<open>Compressed streams\<close>

text \<open>
  The compressed format as a relation between a stream of tokens and the data it stands for:
  literal runs of 1 to 32 bytes, and back references of 3 to 264 bytes at a distance of at
  most 8192, whose source may overlap what they produce.
\<close>

definition lzf_ref_token :: "nat \<Rightarrow> nat \<Rightarrow> byte list" where
  "lzf_ref_token off l =
     (if l < 7 then [u8 (off div 256 + l * 32), u8 off]
      else [u8 (off div 256 + 7 * 32), u8 (l - 7), u8 off])"

inductive lzf_stream :: "byte list \<Rightarrow> byte list \<Rightarrow> bool" where
  lzf_stream_Nil: "lzf_stream [] []"
| lzf_stream_lit: "lzf_stream T D \<Longrightarrow> length xs = Suc n \<Longrightarrow> n < 32 \<Longrightarrow>
     lzf_stream (T @ u8 n # xs) (D @ xs)"
| lzf_stream_ref: "lzf_stream T D \<Longrightarrow> off < length D \<Longrightarrow> off < 8192 \<Longrightarrow>
     length xs = l + 2 \<Longrightarrow> 1 \<le> l \<Longrightarrow> l \<le> 262 \<Longrightarrow>
     (\<forall>k<length xs. (D @ xs) ! (length D - 1 - off + k) = xs ! k) \<Longrightarrow>
     lzf_stream (T @ lzf_ref_token off l) (D @ xs)"

definition lzf_run ::
  "byte list \<Rightarrow> nat \<Rightarrow> nat \<Rightarrow> nat \<Rightarrow> byte list \<Rightarrow> (lzf_result \<times> byte list) option" where
  "lzf_run inp out_len ip op out =
     (if ip < length inp then lzf_decompress_loop inp out_len ip op out else Some (LZF_OK op, out))"

lemma lzf_run_step:
  assumes "ip < length inp" "lzf_decompress_step inp out_len ip op out = Some (Inr (ip', op', out'))"
  shows "lzf_run inp out_len ip op out = lzf_run inp out_len ip' op' out'"
  using assms by (simp add: lzf_run_def lzf_decompress_loop.simps [of inp out_len ip op out])

lemma lzf_step_literal:
  assumes inp: "inp = T @ u8 n # xs @ R" and xs: "length xs = Suc n" "n < 32"
    and op: "op + length xs \<le> out_len" "out_len \<le> length out"
  shows "lzf_decompress_step inp out_len (length T) op out =
    Some (Inr (length T + Suc (length xs), op + length xs, splice_at out op xs))"
proof -
  have "unat (u8 n) = n"
    using xs by simp
  moreover have "slice inp (Suc (length T)) (length xs) = xs"
    by (simp add: inp slice_def)
  moreover have "mem_rd inp (length T) = Some (u8 n)"
    by (simp add: inp)
  moreover have "length inp = length T + Suc (length xs) + length R"
    by (simp add: inp)
  ultimately show ?thesis
    using xs op lzf_copy_literals_ok [of "Suc (length T)" "length xs" inp op out]
    by (simp add: lzf_decompress_step_def Let_def)
qed

lemma lzf_copy_back_take:
  assumes "take op out = D" "length D = op" "off < op" "op + length xs \<le> length out"
    and "\<forall>k<length xs. (D @ xs) ! (op - 1 - off + k) = xs ! k"
  shows "\<exists>out'. lzf_copy_back out (op - 1 - off) op (length xs) = Some out' \<and>
    length out' = length out \<and> take (op + length xs) out' = D @ xs"
proof -
  obtain out' where o: "lzf_copy_back out (op - 1 - off) op (length xs) = Some out'"
    "length out' = length out" "\<forall>i<length out. i < op \<or> op + length xs \<le> i \<longrightarrow> out' ! i = out ! i"
    "\<forall>k<length xs. out' ! (op + k) = out' ! (op - 1 - off + k)"
    using lzf_copy_back_ok [of "op - 1 - off" op "length xs" out] assms(3,4) by auto
  have "out' ! i = (D @ xs) ! i" if "i < op + length xs" for i
    using that
  proof (induction i rule: less_induct)
    case (less i)
    show ?case
    proof (cases "i < op")
      case True
      then show ?thesis
        using o(3) assms(1,2,4) by (auto simp: nth_append dest!: arg_cong [where f = "\<lambda>l. l ! i"])
    next
      case False
      define k where "k = i - op"
      have k: "i = op + k" "k < length xs" using False less.prems by (auto simp: k_def)
      have "out' ! i = out' ! (op - 1 - off + k)"
        using o(4) k by simp
      also have "\<dots> = (D @ xs) ! (op - 1 - off + k)"
        using less.IH [of "op - 1 - off + k"] k assms(3) less.prems by simp
      also have "\<dots> = (D @ xs) ! i"
        using assms(2,5) k by (simp add: nth_append)
      finally show ?thesis .
    qed
  qed
  then have "take (op + length xs) out' = D @ xs"
    using assms(2,4) o(2) by (intro nth_equalityI) auto
  with o show ?thesis by blast
qed


lemma ctrl_long: "x < 32 \<Longrightarrow> (x + 224) div 32 = 7 \<and> (x + 224) mod 32 = (x :: nat)"
  using div_mult_self1 [of 32 x 7] mod_mult_self1 [of x 7 32] by simp

lemma lzf_step_ref:
  assumes inp: "inp = T @ lzf_ref_token off l @ R" and off: "off < 8192" "off < op"
    and l: "length xs = l + 2" "1 \<le> l" "l \<le> 262"
    and out: "take op out = D" "length D = op" "op + length xs \<le> out_len" "out_len \<le> length out"
    and X: "\<forall>k<length xs. (D @ xs) ! (op - 1 - off + k) = xs ! k"
  shows "\<exists>out'. lzf_decompress_step inp out_len (length T) op out =
      Some (Inr (length T + length (lzf_ref_token off l), op + length xs, out')) \<and>
    length out' = length out \<and> take (op + length xs) out' = D @ xs"
proof -
  obtain out' where o: "lzf_copy_back out (op - 1 - off) op (length xs) = Some out'"
    "length out' = length out" "take (op + length xs) out' = D @ xs"
    using lzf_copy_back_take [of op out D off xs] off(2) out X by auto
  have backref: "lzf_backref inp out_len op out (int op - int (off div 256 * 256) - 1) l p =
      Some (Inr (p + 1, op + length xs, out'))" if "p < length inp" "inp ! p = u8 off" for p
  proof -
    have "off div 256 * 256 + off mod 256 = off" by simp
    then have "int (off div 256 * 256) + int (off mod 256) = int off"
      by (metis of_nat_add)
    then have ref: "int op - int (off div 256 * 256) - 1 - int (off mod 256) = int (op - 1 - off)"
      using off(2) by linarith
    then have "\<not> int op - int (off div 256 * 256) - 1 < int (off mod 256)"
      by linarith
    then show ?thesis
      using that o(1) out(3) l(1) unfolding lzf_backref_def
      by (simp add: ref del: of_nat_mult)
  qed
  show ?thesis
  proof (cases "l < 7")
    case True
    have len: "length inp = length T + 2 + length R" by (simp add: inp lzf_ref_token_def True)
    have rd: "inp ! length T = u8 (off div 256 + l * 32)" "inp ! Suc (length T) = u8 off"
      by (simp_all add: inp lzf_ref_token_def True nth_append)
    have "unat (u8 (off div 256 + l * 32)) = off div 256 + l * 32" "off div 256 < 32"
      using off(1) True by simp_all
    then show ?thesis
      using True rd l o len backref [of "Suc (length T)"]
      by (simp add: lzf_decompress_step_def Let_def lzf_ref_token_def del: unat_u8)
  next
    case False
    have len: "length inp = length T + 3 + length R" by (simp add: inp lzf_ref_token_def False)
    have rd: "inp ! length T = u8 (off div 256 + 7 * 32)" "inp ! Suc (length T) = u8 (l - 7)"
      "inp ! Suc (Suc (length T)) = u8 off"
      by (simp_all add: inp lzf_ref_token_def False nth_append)
    have "unat (u8 (off div 256 + 7 * 32)) = off div 256 + 7 * 32" "unat (u8 (l - 7)) = l - 7"
      "off div 256 < 32"
      using off(1) l by simp_all
    moreover have "(off div 256 + 224) div 32 = 7" "(off div 256 + 224) mod 32 = off div 256"
      using ctrl_long [of "off div 256"] off(1) by (simp_all add: less_mult_imp_div_less)
    moreover have "mem_rd inp (Suc (length T)) = Some (u8 (l - 7))"
      using len rd(2) by simp
    ultimately show ?thesis
      using False rd l o len backref [of "Suc (Suc (length T))"]
      by (simp add: lzf_decompress_step_def Let_def lzf_ref_token_def del: unat_u8)
  qed
qed

lemma lzf_stream_run:
  assumes "lzf_stream T D" "inp = T @ R" "length D \<le> out_len" "out_len \<le> length out"
  shows "\<exists>out'. lzf_run inp out_len 0 0 out = lzf_run inp out_len (length T) (length D) out' \<and>
    take (length D) out' = D \<and> length out' = length out"
  using assms
proof (induction arbitrary: R rule: lzf_stream.induct)
  case lzf_stream_Nil
  then show ?case by auto
next
  case (lzf_stream_lit T D xs n)
  obtain out' where o: "lzf_run inp out_len 0 0 out = lzf_run inp out_len (length T) (length D) out'"
    "take (length D) out' = D" "length out' = length out"
    using lzf_stream_lit.IH [of "u8 n # xs @ R"] lzf_stream_lit.prems by auto
  have "lzf_run inp out_len (length T) (length D) out' =
      lzf_run inp out_len (length T + Suc (length xs)) (length D + length xs) (splice_at out' (length D) xs)"
    using lzf_stream_lit.hyps lzf_stream_lit.prems o(3)
    by (intro lzf_run_step lzf_step_literal [where n = n and R = R]) auto
  moreover have "take (length D + length xs) (splice_at out' (length D) xs) = D @ xs"
    "length (splice_at out' (length D) xs) = length out"
    using o(2,3) lzf_stream_lit.prems by (auto simp: splice_at_def)
  ultimately show ?case
    using o(1) by auto
next
  case (lzf_stream_ref T D off xs l)
  obtain out' where o: "lzf_run inp out_len 0 0 out = lzf_run inp out_len (length T) (length D) out'"
    "take (length D) out' = D" "length out' = length out"
    using lzf_stream_ref.IH [of "lzf_ref_token off l @ R"] lzf_stream_ref.prems by auto
  obtain out'' where s: "lzf_decompress_step inp out_len (length T) (length D) out' =
      Some (Inr (length T + length (lzf_ref_token off l), length D + length xs, out''))"
    "length out'' = length out'" "take (length D + length xs) out'' = D @ xs"
    using lzf_step_ref [of inp T off l R "length D" xs out' D out_len]
      lzf_stream_ref.hyps lzf_stream_ref.prems o by auto
  have "length T < length inp"
    using lzf_stream_ref.prems(1) by (simp add: lzf_ref_token_def)
  then show ?case
    using o(1,3) s lzf_run_step [OF _ s(1)] by auto
qed

lemma lzf_decompress_stream:
  assumes "lzf_stream T D" "T \<noteq> []" "length D \<le> out_len" "out_len \<le> length out"
  shows "\<exists>out'. lzf_decompress T out out_len = Some (LZF_OK (length D), out') \<and>
    take (length D) out' = D \<and> length out' = length out"
  using lzf_stream_run [OF assms(1) _ assms(3,4), of T "[]"] assms(2)
  by (auto simp: lzf_run_def lzf_decompress_def)

section \<open>The match length\<close>

definition lzf_same :: "byte list \<Rightarrow> nat \<Rightarrow> nat \<Rightarrow> nat \<Rightarrow> bool" where
  "lzf_same inp ref ip n \<longleftrightarrow> (\<forall>k<n. inp ! (ref + k) = inp ! (ip + k))"

lemma lzf_same_Suc: "lzf_same inp ref ip (Suc n) \<longleftrightarrow> lzf_same inp ref ip n \<and> inp ! (ref + n) = inp ! (ip + n)"
  by (auto simp: lzf_same_def less_Suc_eq)

lemma lzf_match_unrolled_ok:
  assumes "ref < ip" "ip + len + k < length inp" "lzf_same inp ref ip (len + 1)"
  shows "\<exists>n broke. lzf_match_unrolled inp ref ip k len = Some (n, broke) \<and> len \<le> n \<and> n \<le> len + k \<and>
    (if broke then len < n \<and> lzf_same inp ref ip n else n = len + k \<and> lzf_same inp ref ip (n + 1))"
  using assms
proof (induction k arbitrary: len)
  case (Suc k)
  have rd: "mem_rd inp (ref + (len + 1)) = Some (inp ! (ref + (len + 1)))"
    "mem_rd inp (ip + (len + 1)) = Some (inp ! (ip + (len + 1)))"
    using Suc.prems by (intro mem_rd_in; simp)+
  show ?case
  proof (cases "inp ! (ref + (len + 1)) = inp ! (ip + (len + 1))")
    case True
    then have "lzf_same inp ref ip (len + 1 + 1)"
      using Suc.prems(3) by (simp add: lzf_same_Suc)
    moreover have "ip + (len + 1) + k < length inp"
      using Suc.prems(2) by simp
    ultimately obtain n broke where IH: "lzf_match_unrolled inp ref ip k (len + 1) = Some (n, broke)"
      "len + 1 \<le> n" "n \<le> len + 1 + k"
      "if broke then len + 1 < n \<and> lzf_same inp ref ip n
       else n = len + 1 + k \<and> lzf_same inp ref ip (n + 1)"
      using Suc.IH [of "len + 1"] Suc.prems(1) by blast
    have "lzf_match_unrolled inp ref ip (Suc k) len = Some (n, broke)"
      using rd True IH(1) by simp
    then show ?thesis
      using IH(2-4) by (intro exI [of _ n] exI [of _ broke]) (cases broke; auto)
  next
    case False
    then show ?thesis
      using rd Suc.prems by (intro exI [of _ "len + 1"] exI [of _ True]) simp
  qed
qed auto

lemma lzf_match_tail_ok:
  assumes "ref < ip" "ip + maxlen \<le> length inp" "ip + len < length inp" "lzf_same inp ref ip (len + 1)"
  shows "\<exists>n. lzf_match_tail inp ref ip maxlen len = Some n \<and> len < n \<and> n \<le> max (len + 1) maxlen \<and>
    lzf_same inp ref ip n"
  using assms
proof (induction inp ref ip maxlen len rule: lzf_match_tail.induct)
  case (1 inp ref ip maxlen len)
  note eq = lzf_match_tail.simps [of inp ref ip maxlen len]
  show ?case
  proof (cases "len + 1 < maxlen")
    case True
    have rd: "mem_rd inp (ref + (len + 1)) = Some (inp ! (ref + (len + 1)))"
      "mem_rd inp (ip + (len + 1)) = Some (inp ! (ip + (len + 1)))"
      using "1.prems" True by (intro mem_rd_in; simp)+
    show ?thesis
    proof (cases "inp ! (ref + (len + 1)) = inp ! (ip + (len + 1))")
      case same: True
      then have "lzf_same inp ref ip (len + 1 + 1)"
        using "1.prems"(4) by (simp add: lzf_same_Suc)
      moreover have "ip + (len + 1) < length inp"
        using "1.prems"(2) True by simp
      ultimately obtain n where "lzf_match_tail inp ref ip maxlen (len + 1) = Some n" "len + 1 < n"
        "n \<le> max (len + 1 + 1) maxlen" "lzf_same inp ref ip n"
        using "1.IH" [OF True rd same] "1.prems"(1,2) by blast
      then show ?thesis
        using True rd same unfolding eq by (intro exI [of _ n]) simp
    next
      case False
      then show ?thesis
        using rd True "1.prems" unfolding eq by simp
    qed
  next
    case False
    then show ?thesis
      using "1.prems" unfolding eq by simp
  qed
qed

lemma lzf_match_length_ok:
  assumes "ref < ip" "ip + 4 < length inp" "lzf_same inp ref ip 3"
  shows "\<exists>n. lzf_match_length inp ref ip = Some n \<and> 3 \<le> n \<and> n \<le> 264 \<and> ip + n \<le> length inp \<and>
    lzf_same inp ref ip n"
proof -
  define maxlen where
    "maxlen = (if length inp - ip - 2 > MAX_REF then MAX_REF else length inp - ip - 2)"
  have ml: "lzf_match_length inp ref ip =
    (if maxlen > 16 then do {
        (len, broke) \<leftarrow> lzf_match_unrolled inp ref ip 16 2;
        if broke then Some len else lzf_match_tail inp ref ip maxlen len }
     else lzf_match_tail inp ref ip maxlen 2)"
    by (simp only: lzf_match_length_def maxlen_def Let_def)
  have maxlen: "maxlen \<le> 264" "ip + maxlen + 2 \<le> length inp" "3 \<le> maxlen"
    using assms(2) by (auto simp: maxlen_def MAX_REF_def)
  show ?thesis
  proof (cases "maxlen > 16")
    case False
    then obtain n where "lzf_match_tail inp ref ip maxlen 2 = Some n" "2 < n" "n \<le> max (2 + 1) maxlen"
      "lzf_same inp ref ip n"
      using lzf_match_tail_ok [of ref ip maxlen inp 2] assms maxlen by auto
    then show ?thesis
      using False maxlen unfolding ml by (intro exI [of _ n]) auto
  next
    case True
    then have "\<exists>n broke. lzf_match_unrolled inp ref ip 16 2 = Some (n, broke) \<and> 2 \<le> n \<and> n \<le> 2 + 16 \<and>
      (if broke then 2 < n \<and> lzf_same inp ref ip n else n = 2 + 16 \<and> lzf_same inp ref ip (n + 1))"
      using assms maxlen by (intro lzf_match_unrolled_ok) auto
    then obtain n broke where u: "lzf_match_unrolled inp ref ip 16 2 = Some (n, broke)" "2 \<le> n" "n \<le> 18"
      "if broke then 2 < n \<and> lzf_same inp ref ip n else n = 18 \<and> lzf_same inp ref ip (n + 1)"
      by (auto simp del: One_nat_def split: if_splits)
    have room: "ip + 18 < length inp" "ip + maxlen \<le> length inp"
      using True maxlen by auto
    show ?thesis
    proof (cases broke)
      case b: True
      then show ?thesis
        using True u room unfolding ml by (intro exI [of _ n]) auto
    next
      case b: False
      then obtain n' where "lzf_match_tail inp ref ip maxlen 18 = Some n'" "18 < n'" "n' \<le> max (18 + 1) maxlen"
        "lzf_same inp ref ip n'"
        using lzf_match_tail_ok [of ref ip maxlen inp 18] u(4) assms(1) room by auto
      then show ?thesis
        using True u b room maxlen unfolding ml by (intro exI [of _ n']) auto
    qed
  qed
qed

section \<open>The compressor emits streams of its input\<close>

text \<open>
  The state between two steps: the output holds a finished stream \<open>T\<close> of the input before the
  open run, a hole for the run's control byte, and the run's literals.
\<close>

definition lzf_open_run :: "byte list \<Rightarrow> nat \<Rightarrow> byte list \<Rightarrow> lzf_state \<Rightarrow> bool" where
  "lzf_open_run inp out_len T s \<longleftrightarrow>
     lzf_stream T (take (lz_ip s - lz_lit s) inp) \<and>
     lz_lit s \<le> MAX_LIT \<and> lz_lit s \<le> lz_ip s \<and> lz_ip s \<le> length inp \<and>
     lz_op s = length T + 1 + lz_lit s \<and> lz_op s \<le> out_len + 1 \<and> (lz_lit s > 0 \<longrightarrow> lz_op s \<le> out_len) \<and>
     out_len < length (lz_out s) \<and> take (length T) (lz_out s) = T \<and>
     slice (lz_out s) (length T + 1) (lz_lit s) = slice inp (lz_ip s - lz_lit s) (lz_lit s) \<and>
     32 * length T \<le> 33 * (lz_ip s - lz_lit s) \<and>
     (\<forall>i. in_signed 64 (lz_htab s i))"

lemma take_split_slice:
  "n < length xs \<Longrightarrow> take (n + 1 + k) xs = take n xs @ xs ! n # slice xs (n + 1) k"
  using take_add [of "Suc n" k xs] by (simp add: take_Suc_conv_app_nth slice_def)

lemma take_take_slice: "k \<le> i \<Longrightarrow> take (i - k) xs @ slice xs (i - k) k = take i xs"
  using take_add [of "i - k" k xs] by (simp add: slice_def)

lemma take_take_slice_up: "take i xs @ slice xs i k = take (i + k) xs"
  by (simp add: take_add slice_def)

text \<open>Closing the run: its control byte is written, or its hole is given back when it is empty.\<close>

lemma lzf_close_run:
  assumes "lzf_open_run inp out_len T s"
  shows "\<exists>T' out'. mem_wr_before (lz_out s) (lz_op s) (lz_lit s) (word_of_int (int (lz_lit s) - 1)) = Some out' \<and>
    length out' = length (lz_out s) \<and> (if lz_lit s = 0 then lz_op s - 1 else lz_op s) = length T' \<and>
    take (length T') out' = T' \<and> lzf_stream T' (take (lz_ip s) inp)"
proof -
  let ?lit = "lz_lit s" and ?v = "word_of_int (int (lz_lit s) - 1) :: byte"
  let ?out = "(lz_out s)[length T := ?v]"
  have s: "lzf_stream T (take (lz_ip s - ?lit) inp)" "?lit \<le> 32" "?lit \<le> lz_ip s" "lz_ip s \<le> length inp"
    "lz_op s = length T + 1 + ?lit" "lz_op s \<le> out_len + 1" "out_len < length (lz_out s)"
    "take (length T) (lz_out s) = T"
    "slice (lz_out s) (length T + 1) ?lit = slice inp (lz_ip s - ?lit) ?lit"
    using assms by (auto simp: lzf_open_run_def MAX_LIT_def)
  have wr: "mem_wr_before (lz_out s) (lz_op s) ?lit ?v = Some ?out"
    using s by (simp add: mem_wr_before_def)
  show ?thesis
  proof (cases "?lit = 0")
    case True
    then show ?thesis
      using wr s by (intro exI [of _ T] exI [of _ ?out]) simp
  next
    case False
    let ?xs = "slice inp (lz_ip s - ?lit) ?lit"
    let ?T = "T @ u8 (?lit - 1) # ?xs"
    have v: "?v = u8 (?lit - 1)"
      using False by (cases ?lit) (simp_all add: u8_def)
    have len: "length ?xs = Suc (?lit - 1)"
      using False s by (simp add: length_slice)
    have "slice ?out (length T + 1) ?lit = ?xs"
      using s by (simp add: slice_def)
    then have "take (length T + 1 + ?lit) ?out = ?T"
      using take_split_slice [of "length T" ?out ?lit] s v by simp
    moreover have "lzf_stream ?T (take (lz_ip s) inp)"
      using lzf_stream_lit [OF s(1) len] s(2,3) False by (simp add: take_take_slice)
    moreover have "length ?T = lz_op s"
      using len s False by simp
    ultimately show ?thesis
      using wr False s by (intro exI [of _ ?T] exI [of _ ?out]) simp
  qed
qed

lemma lzf_put_literal_ok:
  assumes "lzf_open_run inp out_len T s" "lz_lit s < MAX_LIT" "lz_op s < out_len" "lz_ip s < length inp"
  shows "\<exists>s' T'. lzf_put_literal inp s = Some s' \<and> lzf_open_run inp out_len T' s' \<and> lz_lit s' < MAX_LIT \<and>
    lz_ip s' = lz_ip s + 1 \<and> lz_op s' \<le> lz_op s + 2 \<and> (lz_op s' = lz_op s + 2 \<longrightarrow> lz_lit s' = 0) \<and>
    length (lz_out s') = length (lz_out s)"
proof -
  let ?b = "inp ! lz_ip s"
  let ?s = "s\<lparr>lz_lit := lz_lit s + 1, lz_out := (lz_out s)[lz_op s := ?b], lz_op := lz_op s + 1, lz_ip := lz_ip s + 1\<rparr>"
  have op: "lz_op s = length T + 1 + lz_lit s" and outl: "out_len < length (lz_out s)"
    and lit: "lz_lit s \<le> lz_ip s"
    and sl: "slice (lz_out s) (length T + 1) (lz_lit s) = slice inp (lz_ip s - lz_lit s) (lz_lit s)"
    using assms(1) by (auto simp: lzf_open_run_def)
  have "slice ((lz_out s)[lz_op s := ?b]) (length T + 1) (lz_lit s + 1) = slice inp (lz_ip s - lz_lit s) (lz_lit s) @ [?b]"
    using op outl assms(3,4) sl lit
    by (simp add: slice_def take_Suc_conv_app_nth drop_update_swap take_update_swap list_update_append)
  also have "\<dots> = slice inp (lz_ip s - lz_lit s) (lz_lit s + 1)"
    using assms(4) lit by (simp add: slice_def take_Suc_conv_app_nth)
  finally have run: "lzf_open_run inp out_len T ?s"
    using assms by (auto simp: lzf_open_run_def)
  show ?thesis
  proof (cases "lz_lit s + 1 = MAX_LIT")
    case False
    then show ?thesis
      using run assms outl by (intro exI [of _ ?s] exI [of _ T]) (auto simp: lzf_put_literal_def Let_def)
  next
    case True
    obtain T' out' where c: "mem_wr_before (lz_out ?s) (lz_op ?s) (lz_lit ?s) (word_of_int (int (lz_lit ?s) - 1)) = Some out'"
      "length out' = length (lz_out s)" "lz_op ?s = length T'"
      "take (length T') out' = T'" "lzf_stream T' (take (lz_ip ?s) inp)"
      using lzf_close_run [OF run] by auto
    let ?s' = "?s\<lparr>lz_out := out', lz_lit := 0, lz_op := lz_op ?s + 1\<rparr>"
    have lit31: "lz_lit s = 31"
      using True by (simp add: MAX_LIT_def)
    then have "lzf_put_literal inp s = Some ?s'"
      using c(1) assms outl by (simp add: lzf_put_literal_def Let_def MAX_LIT_def)
    moreover have "lzf_open_run inp out_len T' ?s'"
      using c run assms lit31 by (auto simp: lzf_open_run_def slice_def)
    ultimately show ?thesis
      using c by (intro exI [of _ ?s'] exI [of _ T']) (simp add: MAX_LIT_def)
  qed
qed

lemma take_append_upd1:
  "take n xs = T \<Longrightarrow> length T = n \<Longrightarrow> n < length xs \<Longrightarrow> take (Suc n) (xs[n := a]) = T @ [a]"
  by (simp add: take_Suc_conv_app_nth)

text \<open>The back reference that a match of \<open>n\<close> bytes yields extends the stream over these bytes.\<close>

lemma lzf_stream_match:
  assumes "lzf_stream T (take ip inp)" "ref < ip" "ip - ref - 1 < MAX_OFF"
    and "lzf_same inp ref ip n" "3 \<le> n" "n \<le> 264" "ip + n \<le> length inp"
  shows "lzf_stream (T @ lzf_ref_token (ip - ref - 1) (n - 2)) (take (ip + n) inp)"
proof -
  have "(take ip inp @ slice inp ip n) ! (length (take ip inp) - 1 - (ip - ref - 1) + k) = slice inp ip n ! k"
    if "k < n" for k
    using that assms by (simp add: take_take_slice_up nth_slice lzf_same_def)
  then have "lzf_stream (T @ lzf_ref_token (ip - ref - 1) (n - 2)) (take ip inp @ slice inp ip n)"
    using assms by (intro lzf_stream_ref) (auto simp: MAX_OFF_def length_slice)
  then show ?thesis
    by (simp add: take_take_slice_up)
qed

lemma lzf_write_ref:
  assumes "take (length T) out = T" "length T + 4 < length out"
  shows "\<exists>out'. (if l < 7 then do {
            out \<leftarrow> mem_wr out (length T) (u8 (off div 256 + l * 32));
            Some (out, length T + 1) }
          else do {
            out \<leftarrow> mem_wr out (length T) (u8 (off div 256 + 7 * 32));
            out \<leftarrow> mem_wr out (length T + 1) (u8 (l - 7));
            Some (out, length T + 2) }) = Some (out', length T + length (lzf_ref_token off l) - 1) \<and>
    length out' = length out \<and>
    take (length T + length (lzf_ref_token off l)) (out'[length T + length (lzf_ref_token off l) - 1 := u8 off])
      = T @ lzf_ref_token off l"
proof (cases "l < 7")
  case True
  let ?o = "out[length T := u8 (off div 256 + l * 32)]"
  have "take (Suc (length T)) ?o = T @ [u8 (off div 256 + l * 32)]"
    using assms by (intro take_append_upd1) auto
  then have "take (Suc (Suc (length T))) (?o[Suc (length T) := u8 off]) = (T @ [u8 (off div 256 + l * 32)]) @ [u8 off]"
    using assms by (intro take_append_upd1) auto
  then show ?thesis
    using True assms by (intro exI [of _ ?o]) (simp add: lzf_ref_token_def)
next
  case False
  let ?o = "out[length T := u8 (off div 256 + 7 * 32)]" and ?b = "u8 (off div 256 + 7 * 32)"
  let ?p = "?o[Suc (length T) := u8 (l - 7)]"
  have "take (Suc (length T)) ?o = T @ [?b]"
    using assms by (intro take_append_upd1) auto
  then have "take (Suc (Suc (length T))) ?p = (T @ [?b]) @ [u8 (l - 7)]"
    using assms by (intro take_append_upd1) auto
  then have "take (Suc (Suc (Suc (length T)))) (?p[Suc (Suc (length T)) := u8 off]) = ((T @ [?b]) @ [u8 (l - 7)]) @ [u8 off]"
    using assms by (intro take_append_upd1) auto
  then show ?thesis
    using False assms by (intro exI [of _ ?p]) (simp add: lzf_ref_token_def numeral_3_eq_3)
qed

definition lzf_ready :: "byte list \<Rightarrow> nat \<Rightarrow> nat \<Rightarrow> lzf_state \<Rightarrow> bool" where
  "lzf_ready inp out_len m s \<longleftrightarrow>
     length (lz_out s) = m \<and> lz_lit s < MAX_LIT \<and> (\<exists>T. lzf_open_run inp out_len T s)"

definition lzf_flow_ok :: "byte list \<Rightarrow> nat \<Rightarrow> nat \<Rightarrow> lzf_state flow \<Rightarrow> bool" where
  "lzf_flow_ok inp out_len m r \<longleftrightarrow>
     (case r of
        Return n s \<Rightarrow> n = 0 \<and> length (lz_out s) = m \<and> 32 * out_len \<le> 33 * length inp + 160
      | Break s \<Rightarrow> lzf_ready inp out_len m s \<and> length inp \<le> lz_ip s + 2
      | Continue s \<Rightarrow> lzf_ready inp out_len m s)"

lemma in_signed_ip: "i < 2 ^ 32 \<Longrightarrow> in_signed 64 (int i)"
  by simp

lemma FRST_ok: "p + 1 < length inp \<Longrightarrow> \<exists>h. FRST inp p = Some h"
  by (simp add: FRST_def)

lemma NEXT_ok: "p + 2 < length inp \<Longrightarrow> \<exists>h. NEXT v inp p = Some h"
  by (simp add: NEXT_def)

lemma lzf_emit_match_ok:
  assumes run: "lzf_open_run inp out_len T s" and ip: "lz_ip s + 4 < length inp" "length inp < 2 ^ 32"
    and ref: "ref < lz_ip s" "lz_ip s - ref - 1 < MAX_OFF" "lzf_same inp ref (lz_ip s) 3"
  shows "\<exists>r. lzf_emit_match inp out_len s ref (lz_ip s - ref - 1) = Some r \<and>
    lzf_flow_ok inp out_len (length (lz_out s)) r"
proof -
  obtain T1 out1 where c: "mem_wr_before (lz_out s) (lz_op s) (lz_lit s) (word_of_int (int (lz_lit s) - 1)) = Some out1"
    "length out1 = length (lz_out s)" "(if lz_lit s = 0 then lz_op s - 1 else lz_op s) = length T1"
    "take (length T1) out1 = T1" "lzf_stream T1 (take (lz_ip s) inp)"
    using lzf_close_run [OF run] by blast
  have outl: "out_len < length (lz_out s)" and htab: "\<forall>i. in_signed 64 (lz_htab s i)"
    using run by (auto simp: lzf_open_run_def)
  have small: "32 * length T1 \<le> 33 * lz_ip s + 32"
    using run c(3) by (auto simp: lzf_open_run_def split: if_splits)
  show ?thesis
  proof (cases "length T1 + 3 + 1 \<ge> out_len")
    case True
    then show ?thesis
      using c small ip(1) by (simp add: lzf_emit_match_def Let_def lzf_flow_ok_def)
  next
    case False
    obtain n where n: "lzf_match_length inp ref (lz_ip s) = Some n" "3 \<le> n" "n \<le> 264"
      "lz_ip s + n \<le> length inp" "lzf_same inp ref (lz_ip s) n"
      using lzf_match_length_ok ip ref by blast
    let ?tok = "lzf_ref_token (lz_ip s - ref - 1) (n - 2)"
    let ?T = "T1 @ ?tok" and ?ip = "lz_ip s + n"
    obtain out2 where w: "(if n - 2 < 7 then do {
            out \<leftarrow> mem_wr out1 (length T1) (u8 ((lz_ip s - ref - 1) div 256 + (n - 2) * 32));
            Some (out, length T1 + 1) }
          else do {
            out \<leftarrow> mem_wr out1 (length T1) (u8 ((lz_ip s - ref - 1) div 256 + 7 * 32));
            out \<leftarrow> mem_wr out (length T1 + 1) (u8 (n - 2 - 7));
            Some (out, length T1 + 2) }) = Some (out2, length ?T - 1)"
      "length out2 = length out1" "take (length ?T) (out2[length ?T - 1 := u8 (lz_ip s - ref - 1)]) = ?T"
      using lzf_write_ref [OF c(4), of "n - 2" "lz_ip s - ref - 1"] False c(2) outl by auto
    have tok: "2 \<le> length ?tok" "length ?tok \<le> 3"
      by (auto simp: lzf_ref_token_def)
    let ?out = "out2[length ?T - 1 := u8 (lz_ip s - ref - 1)]"
    have wr: "mem_wr out2 (length ?T - 1) (u8 (lz_ip s - ref - 1)) = Some ?out"
      using False outl c(2) w(2) tok by (intro mem_wr_in) simp
    let ?s = "s\<lparr>lz_out := ?out, lz_op := length ?T + 1, lz_ip := ?ip, lz_lit := 0\<rparr>"
    have ip_eq: "lz_ip s + 1 + (n - 2 + 1) = ?ip" and op_eq: "length ?T - 1 + 1 + 1 = length ?T + 1"
      using n(2) tok by auto
    have st: "lzf_stream ?T (take ?ip inp)"
      using lzf_stream_match [OF c(5) ref(1,2)] n by blast
    have small': "32 * length ?T \<le> 33 * ?ip"
      using small n(2) by (auto simp: lzf_ref_token_def)
    have ready: "lzf_ready inp out_len (length (lz_out s)) (?s\<lparr>lz_hval := h, lz_htab := t\<rparr>)"
      if "\<forall>i. in_signed 64 (t i)" for h t
      unfolding lzf_ready_def
      using st c(2) w(2,3) n False outl tok small' that
      by (auto simp: lzf_open_run_def MAX_LIT_def slice_def intro!: exI [of _ ?T])
    have emit: "lzf_emit_match inp out_len s ref (lz_ip s - ref - 1) =
      (if ?ip + 2 \<ge> length inp then Some (Break ?s)
       else do {
         hval \<leftarrow> FRST inp (?ip - 2);
         hval \<leftarrow> NEXT hval inp (?ip - 2);
         let htab = (lz_htab s)(IDX hval := int (?ip - 2));
         hval \<leftarrow> NEXT hval inp (?ip - 2 + 1);
         let htab = htab(IDX hval := int (?ip - 2 + 1));
         Some (Continue (?s\<lparr>lz_ip := ?ip - 2 + 1 + 1, lz_hval := hval, lz_htab := htab\<rparr>)) })"
      using False unfolding lzf_emit_match_def Let_def
      by (simp only: c(1,3) w(1) n(1) wr ip_eq op_eq bind.bind_lunit prod.case if_False) simp
    show ?thesis
    proof (cases "?ip + 2 \<ge> length inp")
      case True
      then show ?thesis
        using emit ready [OF htab, of "lz_hval s"] by (simp add: lzf_flow_ok_def)
    next
      case f: False
      have b: "?ip - 2 + 1 < length inp" "?ip - 2 + 2 < length inp" "?ip - 2 + 1 + 2 < length inp"
        using f n(2) by auto
      obtain h1 where h1: "FRST inp (?ip - 2) = Some h1"
        using FRST_ok [OF b(1)] by blast
      obtain h2 where h2: "NEXT h1 inp (?ip - 2) = Some h2"
        using NEXT_ok [OF b(2)] by blast
      obtain h3 where h3: "NEXT h2 inp (?ip - 2 + 1) = Some h3"
        using NEXT_ok [OF b(3)] by blast
      define t where "t = (lz_htab s)(IDX h2 := int (?ip - 2), IDX h3 := int (?ip - 2 + 1))"
      have "\<forall>i. in_signed 64 (t i)"
        using htab f ip(2) in_signed_ip [of "?ip - 2"] in_signed_ip [of "?ip - 2 + 1"] by (auto simp: t_def)
      note rd = ready [OF this, of h3]
      have ip2: "?ip - 2 + 1 + 1 = ?ip"
        using n(2) by simp
      have "lzf_emit_match inp out_len s ref (lz_ip s - ref - 1) = Some (Continue (?s\<lparr>lz_hval := h3, lz_htab := t\<rparr>))"
        unfolding emit Let_def h1 h2 bind.bind_lunit h3 ip2 t_def using f by simp
      then show ?thesis
        using rd by (simp add: lzf_flow_ok_def)
    qed
  qed
qed

text \<open>The unsigned offset test alone rules out every stale or wild entry of the hash table.\<close>

lemma lzf_offset_test:
  assumes "to_unsigned 64 (int ip - ref - 1) < int MAX_OFF" "0 < ref" "in_signed 64 ref" "ip < 2 ^ 32"
  shows "nat ref < ip" "nat (to_unsigned 64 (int ip - ref - 1)) = ip - nat ref - 1" "ip - nat ref - 1 < MAX_OFF"
proof -
  have "ref < int ip"
  proof (rule ccontr)
    assume "\<not> ?thesis"
    then have "(int ip - ref - 1 + 2 ^ 64) mod 2 ^ 64 = int ip - ref - 1 + 2 ^ 64"
      using assms(3) by (intro mod_pos_pos_trivial) auto
    then have "(int ip - ref - 1) mod 2 ^ 64 = int ip - ref - 1 + 2 ^ 64"
      by (simp only: mod_add_self2)
    then show False
      using assms by (simp add: to_unsigned_def MAX_OFF_def)
  qed
  then have "to_unsigned 64 (int ip - ref - 1) = int ip - ref - 1"
    using assms by (simp add: to_unsigned_def)
  then show "nat ref < ip" "nat (to_unsigned 64 (int ip - ref - 1)) = ip - nat ref - 1" "ip - nat ref - 1 < MAX_OFF"
    using assms \<open>ref < int ip\<close> by auto
qed

lemma lzf_compress_step_ok:
  assumes "lzf_ready inp out_len m s" "lz_ip s + 2 < length inp" "length inp < 2 ^ 32"
  shows "\<exists>r. lzf_compress_step inp out_len s = Some r \<and> lzf_flow_ok inp out_len m r"
proof -
  let ?ip = "lz_ip s"
  obtain T where run: "lzf_open_run inp out_len T s" and lit: "lz_lit s < MAX_LIT" and m: "length (lz_out s) = m"
    using assms(1) by (auto simp: lzf_ready_def)
  obtain h where h: "NEXT (lz_hval s) inp ?ip = Some h"
    using NEXT_ok assms(2) by blast
  define ref where "ref = lz_htab s (IDX h)"
  define off where "off = to_unsigned 64 (int ?ip - ref - 1)"
  define t where "t = (lz_htab s)(IDX h := int ?ip)"
  let ?s = "s\<lparr>lz_hval := h, lz_htab := t\<rparr>"
  let ?cand = "off < int MAX_OFF \<and> ?ip + 4 < length inp \<and> ref > 0"
  let ?found = "?cand \<and> inp ! nat ref = inp ! ?ip \<and> inp ! (nat ref + 1) = inp ! (?ip + 1) \<and>
    inp ! (nat ref + 2) = inp ! (?ip + 2)"
  have sref: "in_signed 64 ref" and run': "lzf_open_run inp out_len T ?s"
    using run in_signed_ip [of ?ip] assms by (auto simp: lzf_open_run_def t_def ref_def)
  have off: "nat ref < ?ip" "nat off = ?ip - nat ref - 1" "?ip - nat ref - 1 < MAX_OFF" if ?cand
    using that lzf_offset_test [of ?ip ref] sref assms unfolding off_def by auto
  have step: "lzf_compress_step inp out_len s =
    (if ?found then lzf_emit_match inp out_len ?s (nat ref) (nat off)
     else if lz_op s \<ge> out_len then Some (Return 0 ?s)
     else map_option Continue (lzf_put_literal inp ?s))"
    using off(1) assms by (auto simp: lzf_compress_step_def h Let_def simp flip: ref_def off_def t_def)
  show ?thesis
  proof (cases ?found)
    case True
    then have "lzf_same inp (nat ref) ?ip 3"
      by (simp add: lzf_same_def numeral_3_eq_3 less_Suc_eq all_conj_distrib)
    then show ?thesis
      using True lzf_emit_match_ok [OF run', of "nat ref"] off assms m unfolding step by simp
  next
    case f: False
    show ?thesis
    proof (cases "lz_op s \<ge> out_len")
      case True
      then show ?thesis
        using m run assms(2) unfolding step if_not_P [OF f] by (auto simp: lzf_flow_ok_def lzf_open_run_def)
    next
      case False
      then show ?thesis
        using lzf_put_literal_ok [OF run'] lit m assms unfolding step if_not_P [OF f]
        by (auto simp: lzf_flow_ok_def lzf_ready_def simp del: One_nat_def)
    qed
  qed
qed

lemma lzf_compress_loop_ok:
  assumes "lzf_ready inp out_len m s" "length inp < 2 ^ 32"
  shows "\<exists>r. lzf_compress_loop inp out_len s = Some r \<and> lzf_flow_ok inp out_len m r \<and> (\<forall>s'. r \<noteq> Continue s')"
  using assms
proof (induction inp out_len s rule: lzf_compress_loop.induct)
  case (1 inp out_len s)
  show ?case
  proof (cases "lz_ip s + 2 < length inp")
    case True
    then obtain r where "lzf_compress_step inp out_len s = Some r" "lzf_flow_ok inp out_len m r"
      using lzf_compress_step_ok "1.prems" by blast
    then show ?thesis
      using True "1.IH" "1.prems"
      by (cases r) (simp_all add: lzf_compress_loop.simps [of inp out_len s] lzf_flow_ok_def)
  next
    case False
    then show ?thesis
      using "1.prems" by (simp add: lzf_compress_loop.simps [of inp out_len s] lzf_flow_ok_def)
  qed
qed

lemma lzf_flush_loop_ok:
  assumes "lzf_ready inp out_len m s" "lz_op s + 2 * (length inp - lz_ip s) \<le> out_len + 1"
  shows "\<exists>s'. lzf_flush_loop inp s = Some s' \<and> lzf_ready inp out_len m s' \<and> lz_ip s' = length inp"
  using assms
proof (induction inp s rule: lzf_flush_loop.induct)
  case (1 inp s)
  obtain T where run: "lzf_open_run inp out_len T s" and lit: "lz_lit s < MAX_LIT" "length (lz_out s) = m"
    and le: "lz_ip s \<le> length inp"
    using "1.prems"(1) by (auto simp: lzf_ready_def lzf_open_run_def)
  show ?case
  proof (cases "lz_ip s < length inp")
    case True
    obtain s' where s': "lzf_put_literal inp s = Some s'" "lzf_ready inp out_len m s'"
      "lz_ip s' = lz_ip s + 1" "lz_op s' \<le> lz_op s + 2"
      using lzf_put_literal_ok [OF run lit(1) _ True] True lit(2) "1.prems"(2) by (fastforce simp: lzf_ready_def)
    then show ?thesis
      using "1.IH" [OF True s'(1,2)] True "1.prems"(2) by (simp add: lzf_flush_loop.simps [of inp s])
  next
    case False
    then show ?thesis
      using "1.prems"(1) le by (simp add: lzf_flush_loop.simps [of inp s])
  qed
qed

text \<open>
  The compressor as a whole: with one byte of slack behind \<open>out_len\<close> it never faults, and what it
  returns with a positive length is a stream of its input.
\<close>

lemma lzf_stream_nonempty: "lzf_stream T D \<Longrightarrow> D \<noteq> [] \<Longrightarrow> T \<noteq> []"
  by (erule lzf_stream.cases) (auto simp: lzf_ref_token_def)

lemma lzf_compress_stream:
  assumes "2 \<le> length inp" "length inp < 2 ^ 32" "out_len < length out" "\<forall>i. in_signed 64 (htab i)"
  shows "\<exists>n out'. lzf_compress inp out out_len htab = Some (n, out') \<and> length out' = length out \<and> n \<le> out_len \<and>
    (n > 0 \<longrightarrow> lzf_stream (take n out') inp) \<and> (33 * length inp + 160 < 32 * out_len \<longrightarrow> n > 0)"
proof (cases "out_len = 0")
  case False
  obtain h where h: "FRST inp 0 = Some h"
    using FRST_ok [of 0 inp] assms(1) by auto
  let ?s = "\<lparr>lz_ip = 0, lz_op = 1, lz_out = out, lz_htab = htab, lz_hval = h, lz_lit = 0\<rparr>"
  have "lzf_ready inp out_len (length out) ?s"
    using assms lzf_stream_Nil by (auto simp: lzf_ready_def lzf_open_run_def MAX_LIT_def slice_def intro!: exI [of _ "[]"])
  then obtain r where r: "lzf_compress_loop inp out_len ?s = Some r" "lzf_flow_ok inp out_len (length out) r"
    "\<forall>s'. r \<noteq> Continue s'"
    using lzf_compress_loop_ok assms(2) by blast
  have c: "lzf_compress inp out out_len htab = (case r of
          Return n s \<Rightarrow> Some (n, lz_out s)
        | Continue s \<Rightarrow> None
        | Break s \<Rightarrow>
            if lz_op s + 3 > out_len then Some (0, lz_out s)
            else do {
              s \<leftarrow> lzf_flush_loop inp s;
              out \<leftarrow> mem_wr_before (lz_out s) (lz_op s) (lz_lit s)
                      (word_of_int (int (lz_lit s) - 1));
              Some (if lz_lit s = 0 then lz_op s - 1 else lz_op s, out) })"
    using assms(1) False r(1) unfolding lzf_compress_def h bind.bind_lunit by auto
  show ?thesis
  proof (cases r)
    case (Return n s)
    then show ?thesis
      using r(2) unfolding c by (simp add: lzf_flow_ok_def)
  next
    case (Continue s)
    then show ?thesis
      using r(3) by simp
  next
    case (Break s)
    show ?thesis
    proof (cases "lz_op s + 3 > out_len")
      case True
      then show ?thesis
        using r(2) Break unfolding c by (auto simp add: lzf_flow_ok_def lzf_ready_def lzf_open_run_def)
    next
      case fits: False
      have "lz_op s + 2 * (length inp - lz_ip s) \<le> out_len + 1" "lzf_ready inp out_len (length out) s"
        using r(2) Break fits by (auto simp: lzf_flow_ok_def)
      then obtain s' T where s': "lzf_flush_loop inp s = Some s'" "lz_ip s' = length inp" "length (lz_out s') = length out"
        "lzf_open_run inp out_len T s'"
        using lzf_flush_loop_ok [of inp out_len "length out" s] by (auto simp: lzf_ready_def)
      obtain T' out' where f: "mem_wr_before (lz_out s') (lz_op s') (lz_lit s') (word_of_int (int (lz_lit s') - 1)) = Some out'"
        "length out' = length out" "(if lz_lit s' = 0 then lz_op s' - 1 else lz_op s') = length T'"
        "take (length T') out' = T'" "lzf_stream T' inp"
        using lzf_close_run [OF s'(4)] s'(2,3) by auto
      have "(if lz_lit s' = 0 then lz_op s' - 1 else lz_op s') \<le> out_len"
        using s'(4) by (auto simp: lzf_open_run_def)
      moreover have "lzf_compress inp out out_len htab = Some (length T', out')"
        using Break fits unfolding c f(3) [symmetric]
        by (simp only: s'(1) f(1) bind.bind_lunit flow.case if_False)
      moreover have "T' \<noteq> []"
        using lzf_stream_nonempty [OF f(5)] assms(1) by (cases inp) auto
      ultimately show ?thesis
        using f by simp
    qed
  qed
qed (use assms in \<open>auto simp: lzf_compress_def\<close>)

section \<open>A store past the output\<close>

text \<open>The main loop over bytes that match nothing, on the way to the overrun below.\<close>

lemma lzf_loop_literal:
  assumes "ip + 2 < length inp" "NEXT h inp ip = Some h'" "t (IDX h') \<le> 0" "op < out_len" "op < length out" "lit < 31"
  shows "lzf_compress_loop inp out_len \<lparr>lz_ip = ip, lz_op = op, lz_out = out, lz_htab = t, lz_hval = h, lz_lit = lit\<rparr> =
    lzf_compress_loop inp out_len \<lparr>lz_ip = ip + 1, lz_op = op + 1, lz_out = out[op := inp ! ip],
      lz_htab = t(IDX h' := int ip), lz_hval = h', lz_lit = lit + 1\<rparr>"
  using assms
  by (subst lzf_compress_loop.simps) (simp add: lzf_compress_step_def Let_def lzf_put_literal_def MAX_LIT_def)

lemma lzf_loop_full:
  assumes "ip + 2 < length inp" "NEXT h inp ip = Some h'" "t (IDX h') \<le> 0" "op < out_len" "op < length out" "31 < op" "lit = 31"
  shows "lzf_compress_loop inp out_len \<lparr>lz_ip = ip, lz_op = op, lz_out = out, lz_htab = t, lz_hval = h, lz_lit = lit\<rparr> =
    lzf_compress_loop inp out_len \<lparr>lz_ip = ip + 1, lz_op = op + 2, lz_out = out[op := inp ! ip, op - 32 := 31],
      lz_htab = t(IDX h' := int ip), lz_hval = h', lz_lit = 0\<rparr>"
  using assms
  by (subst lzf_compress_loop.simps)
    (simp add: lzf_compress_step_def Let_def lzf_put_literal_def MAX_LIT_def mem_wr_before_def)

lemma lzf_loop_no_room:
  assumes "ip + 4 < length inp" "NEXT h inp ip = Some h'" "0 < t (IDX h')" "t (IDX h') < int ip"
    "int ip - t (IDX h') \<le> int MAX_OFF" "inp ! nat (t (IDX h')) = inp ! ip"
    "inp ! (nat (t (IDX h')) + 1) = inp ! (ip + 1)"
    "inp ! (nat (t (IDX h')) + 2) = inp ! (ip + 2)" "op = out_len + 1" "ip < 2 ^ 32"
  shows "lzf_compress_loop inp out_len \<lparr>lz_ip = ip, lz_op = op, lz_out = out, lz_htab = t, lz_hval = h, lz_lit = 0\<rparr> =
    map_option (\<lambda>out'. Return 0 \<lparr>lz_ip = ip, lz_op = out_len, lz_out = out', lz_htab = t(IDX h' := int ip),
      lz_hval = h', lz_lit = 0\<rparr>) (mem_wr out out_len (- 1))"
proof -
  have "to_unsigned 64 (int ip - t (IDX h') - 1) = int ip - t (IDX h') - 1"
    using assms by (simp add: to_unsigned_def)
  moreover have "int ip - t (IDX h') - 1 < int MAX_OFF"
    using assms by linarith
  ultimately show ?thesis
    using assms
    by (subst lzf_compress_loop.simps)
      (simp add: lzf_compress_step_def Let_def lzf_emit_match_def mem_wr_before_def mem_wr_def)
qed

definition lzf_overrun_input :: "byte list" where
  "lzf_overrun_input =
    [0, 1, 2, 3, 4, 5, 6, 7, 8, 9, 10, 11, 12, 13, 14, 15, 16, 17, 18, 19, 20, 21, 22, 23, 24, 25, 26, 27, 28, 29, 30,
     31, 1, 2, 3, 4, 5, 6, 7, 8, 9]"

section \<open>Properties\<close>

text \<open>C12:
  LZF compression is lossless. On an input of at least two bytes, and whatever the uninitialised
  hash table holds, \<open>lzf_compress\<close> makes no access outside the input and the \<open>out_len + 1\<close>
  bytes of output memory, returns at most \<open>out_len\<close>, and gives up (returns 0) only when
  \<open>out_len\<close> is within \<open>in_len/32 + 5\<close> bytes of the input's length. When it returns
  \<open>n > 0\<close>, \<open>lzf_decompress\<close> on these \<open>n\<close> bytes returns \<open>in_len\<close> and restores the input, in any
  buffer that is large enough.
\<close>

theorem lzf_roundtrip:
  assumes "2 \<le> length inp" "length inp < 2 ^ 32" "out_len < length out" "\<forall>i. in_signed 64 (htab i)"
  shows "\<exists>n out'. lzf_compress inp out out_len htab = Some (n, out') \<and> n \<le> out_len \<and>
    (33 * length inp + 160 < 32 * out_len \<longrightarrow> n > 0) \<and>
    (n > 0 \<longrightarrow> (\<forall>dst cap. length inp \<le> cap \<longrightarrow> cap \<le> length dst \<longrightarrow>
       (\<exists>dst'. lzf_decompress (take n out') dst cap = Some (LZF_OK (length inp), dst') \<and>
          take (length inp) dst' = inp)))"
proof -
  obtain n out' where c: "lzf_compress inp out out_len htab = Some (n, out')" "length out' = length out"
    "n \<le> out_len" "n > 0 \<longrightarrow> lzf_stream (take n out') inp" "33 * length inp + 160 < 32 * out_len \<longrightarrow> n > 0"
    using lzf_compress_stream [OF assms] by blast
  have "\<exists>dst'. lzf_decompress (take n out') dst cap = Some (LZF_OK (length inp), dst') \<and> take (length inp) dst' = inp"
    if "n > 0" "length inp \<le> cap" "cap \<le> length dst" for dst cap
  proof -
    have "lzf_stream (take n out') inp" "take n out' \<noteq> []"
      using that c(2-4) assms(3) by auto
    then show ?thesis
      using lzf_decompress_stream that(2,3) by blast
  qed
  then show ?thesis
    using c by blast
qed

theorem lzf_roundtrip_witness:
  "\<exists>n out'. lzf_compress (replicate 20 7) (replicate 40 0) 30 (\<lambda>_. 0) = Some (n, out') \<and> 0 < n \<and>
     (\<exists>dst'. lzf_decompress (take n out') (replicate 20 0) 20 = Some (LZF_OK 20, dst') \<and>
        take 20 dst' = replicate 20 7)"
  using lzf_roundtrip [of "replicate 20 7" 30 "replicate 40 0" "\<lambda>_. 0"] by fastforce

text \<open>C14:
  The decompressor is safe on every input: on any non-empty byte string, hostile ones included, and
  any output buffer of at least \<open>out_len\<close> bytes it returns without an access outside its two
  buffers, changes no byte of the buffer from \<open>out_len\<close> on, and never reports a length above
  \<open>out_len\<close>.
\<close>

theorem lzf_decompress_safe:
  assumes "inp \<noteq> []" "out_len \<le> length out"
  shows "\<exists>r out'. lzf_decompress inp out out_len = Some (r, out') \<and> length out' = length out \<and>
    drop out_len out' = drop out_len out \<and> (\<forall>n. r = LZF_OK n \<longrightarrow> n \<le> out_len)"
proof -
  obtain r out' where "lzf_decompress inp out out_len = Some (r, out')" "length out' = length out"
    "\<forall>i<length out. out_len \<le> i \<longrightarrow> out' ! i = out ! i" "\<forall>n. r = LZF_OK n \<longrightarrow> n \<le> out_len"
    using lzf_decompress_loop_safe [of 0 inp 0 out_len out] assms by (auto simp: lzf_decompress_def)
  then show ?thesis
    by (auto intro!: nth_equalityI)
qed

theorem lzf_decompress_safe_witness:
  "\<exists>r out'. lzf_decompress [0xE0, 0xFF] (replicate 9 1) 8 = Some (r, out') \<and> drop 8 out' = [1] \<and>
     (\<forall>n. r = LZF_OK n \<longrightarrow> n \<le> 8)"
  using lzf_decompress_safe [of "[0xE0, 0xFF]" 8 "replicate 9 1"] by fastforce

text \<open>C40:
  The byte of slack is needed. On these 41 bytes, with \<open>out_len\<close> 33, a run of 32 literals has just
  been closed at the end of the output when a match is found, and the control byte of the next,
  empty run is stored at \<open>out_data[33]\<close> before the space check that would have stopped it: a
  fault when the buffer has exactly \<open>out_len\<close> bytes, a harmless store and the result 0 when
  the memory is larger.
\<close>

theorem lzf_compress_overrun:
  assumes "33 \<le> length out"
  shows "map_option fst (lzf_compress lzf_overrun_input out 33 (\<lambda>_. 0)) =
    (if length out = 33 then None else Some 0)"
proof -
  have "FRST lzf_overrun_input 0 = Some 1" "lzf_overrun_input \<noteq> []"
    by (simp_all add: FRST_def lzf_overrun_input_def)
  moreover have "map_option (\<lambda>r. case r of Return n s \<Rightarrow> Some n | _ \<Rightarrow> None) (lzf_compress_loop lzf_overrun_input 33
      \<lparr>lz_ip = 0, lz_op = 1, lz_out = out, lz_htab = \<lambda>_. 0, lz_hval = 1, lz_lit = 0\<rparr>) =
      (if length out = 33 then None else Some (Some 0))"
    using assms
    by (simp add: lzf_loop_literal lzf_loop_full lzf_loop_no_room NEXT_def IDX_def lzf_overrun_input_def
        MAX_OFF_def mem_wr_def)
  ultimately show ?thesis
    by (cases "lzf_compress_loop lzf_overrun_input 33
        \<lparr>lz_ip = 0, lz_op = 1, lz_out = out, lz_htab = \<lambda>_. 0, lz_hval = 1, lz_lit = 0\<rparr>")
      (auto simp: lzf_compress_def split: if_splits flow.splits)
qed

theorem lzf_compress_overrun_witness:
  "lzf_compress lzf_overrun_input (replicate 33 0) 33 (\<lambda>_. 0) = None"
  using lzf_compress_overrun [of "replicate 33 0"] by simp

end
