(* ===== verification/Crc_Register.thy ===== *)
theory Crc_Register
  imports Redis_Prelude
begin

text \<open>
  What the bit-serial division registers of the two checksums have in common: a linear,
  injective step on words (shift, and subtract the polynomial when a bit falls out), and a linear,
  injective way of adding a message byte to the register. The consequences that make a
  checksum useful are proved from these laws alone; \<open>Crc\<close> interprets the locale for CRC16 and CRC64.
\<close>

lemma xor_eq_0_iff: "xor a b = 0 \<longleftrightarrow> a = (b :: 'a :: len word)"
  by (metis xor.assoc xor.right_neutral xor_self_eq xor.left_neutral)

lemma of_nat_split_xor:
  fixes m :: nat
  assumes "r < 2 ^ m"
  shows "of_nat (2 ^ m + r) = xor (2 ^ m :: 'a :: len word) (of_nat r)"
proof -
  have "\<not> bit r m"
    using assms by (simp add: bit_iff_odd)
  then have "\<not> bit (of_nat r :: 'a word) m"
    by transfer (simp add: bit_take_bit_iff bit_of_nat_iff)
  then show ?thesis
    by (simp add: disjunctive_add_eq_xor and_exp_eq_0_iff_not_bit and.commute [of "2 ^ m"])
qed

locale crc_register =
  fixes step :: "'l :: len word \<Rightarrow> 'l word" and inject :: "byte \<Rightarrow> 'l word"
  assumes step_xor: "step (xor a b) = xor (step a) (step b)"
    and step_0_iff: "step a = 0 \<longleftrightarrow> a = 0"
    and inject_xor: "inject (xor x y) = xor (inject x) (inject y)"
    and inject_0_iff: "inject x = 0 \<longleftrightarrow> x = 0"
begin

lemma pow_xor: "(step ^^ n) (xor a b) = xor ((step ^^ n) a) ((step ^^ n) b)"
  by (induction n) (simp_all add: step_xor)

lemma pow_0_iff: "(step ^^ n) a = 0 \<longleftrightarrow> a = 0"
  by (induction n) (simp_all add: step_0_iff)

lemma pow_inject: "(step ^^ n) a = (step ^^ n) b \<longleftrightarrow> a = b"
proof -
  have "(step ^^ n) a = (step ^^ n) b \<longleftrightarrow> (step ^^ n) (xor a b) = 0"
    by (simp add: pow_xor xor_eq_0_iff)
  then show ?thesis
    by (simp add: pow_0_iff xor_eq_0_iff)
qed

text \<open>A message from a start value, and the remainders of all registers below a power of two.\<close>

lemma run_xor:
  "length xs = length ys \<Longrightarrow>
   foldl (\<lambda>c b. (step ^^ n) (xor c (inject b))) (xor c d) (map2 xor xs ys) =
   xor (foldl (\<lambda>c b. (step ^^ n) (xor c (inject b))) c xs) (foldl (\<lambda>c b. (step ^^ n) (xor c (inject b))) d ys)"
proof (induction xs ys arbitrary: c d rule: list_induct2)
  case (Cons x xs y ys)
  have "(step ^^ n) (xor (xor c d) (inject (xor x y))) =
    xor ((step ^^ n) (xor c (inject x))) ((step ^^ n) (xor d (inject y)))"
    by (simp add: inject_xor xor.left_commute xor.commute xor.assoc flip: pow_xor)
  then show ?case
    using Cons.IH by simp
qed simp

lemma run_inject_start:
  "foldl (\<lambda>c b. (step ^^ n) (xor c (inject b))) c xs = foldl (\<lambda>c b. (step ^^ n) (xor c (inject b))) d xs \<longleftrightarrow> c = d"
  by (induction xs arbitrary: c d) (simp_all add: pow_inject)

lemma run_single_byte:
  assumes "b \<noteq> b'"
  shows "foldl (\<lambda>c b. (step ^^ n) (xor c (inject b))) c (xs @ b # ys) \<noteq>
    foldl (\<lambda>c b. (step ^^ n) (xor c (inject b))) c (xs @ b' # ys)"
proof -
  have "inject b \<noteq> inject b'"
    using assms inject_xor [of b b'] inject_0_iff [of "xor b b'"] by (auto simp: xor_eq_0_iff)
  then show ?thesis
    by (simp add: run_inject_start pow_inject)
qed

lemma remainders_double:
  "map (\<lambda>i. (step ^^ n) (inject (of_nat i))) [0..<2 ^ Suc m] =
   map (\<lambda>i. (step ^^ n) (inject (of_nat i))) [0..<2 ^ m] @
   map (xor ((step ^^ n) (inject (2 ^ m)))) (map (\<lambda>i. (step ^^ n) (inject (of_nat i))) [0..<2 ^ m])"
proof -
  have "[0..<2 ^ m + 2 ^ m] = [0..<2 ^ m] @ map (\<lambda>i. i + 2 ^ m) [0..<2 ^ m]"
    unfolding map_add_upt by (rule upt_add_eq_append) simp
  moreover have "(step ^^ n) (inject (of_nat (i + 2 ^ m))) =
      xor ((step ^^ n) (inject (2 ^ m))) ((step ^^ n) (inject (of_nat i)))" if "i < 2 ^ m" for i
    using of_nat_split_xor [OF that, where 'a = 8] by (simp only: add.commute [of i] pow_xor inject_xor)
  ultimately show ?thesis
    unfolding power_Suc mult_2 by (simp only: map_append map_map) (simp del: of_nat_add)
qed

end

end
