(* ===== verification/Dict.thy ===== *)
theory Dict
  imports Redis_Prelude "HOL-Library.Monad_Syntax" "HOL-Library.Multiset"
begin

text \<open>
  \<^verbatim>\<open>redis-3.0.0/src/dict.c\<close> (and \<^verbatim>\<open>dict.h\<close>): the chained hash table with incremental rehashing behind
  the key space and the hash, set and sorted set types. A chain of entries is a list, so a
  pointer to an entry is the rest of its chain and \<open>NULL\<close> the empty list; a table is a list of
  chains, \<open>NULL\<close> being the table of size 0. Reading or writing a bucket outside the table is a
  fault (\<open>None\<close>), as is a failed \<open>assert\<close>. Allocation does not fail. The destructors of keys
  and values act outside the table and are not modelled; what they are called on is returned
  where the code calls them in a loop.
\<close>

section \<open>Data\<close>

definition DICT_OK :: nat where "DICT_OK = 0"
definition DICT_ERR :: nat where "DICT_ERR = 1"
definition DICT_HT_INITIAL_SIZE :: nat where "DICT_HT_INITIAL_SIZE = 4"
definition LONG_MAX :: nat where "LONG_MAX = 2 ^ 63 - 1"
definition dict_force_resize_ratio :: nat where "dict_force_resize_ratio = 5"

record ('k, 'v) dictEntry =
  de_key :: 'k
  de_val :: 'v

type_synonym ('k, 'v) chain = "('k, 'v) dictEntry list"

record ('k, 'v) dictType =
  hashFunction :: "'k \<Rightarrow> 32 word"
  keyDup :: "('k \<Rightarrow> 'k) option"
  valDup :: "('v \<Rightarrow> 'v) option"
  keyCompare :: "('k \<Rightarrow> 'k \<Rightarrow> bool) option"

record ('k, 'v) dictht =
  ht_table :: "('k, 'v) chain list"
  ht_size :: nat
  ht_sizemask :: nat
  ht_used :: nat

record ('k, 'v) dict =
  dtype :: "('k, 'v) dictType"
  ht0 :: "('k, 'v) dictht"
  ht1 :: "('k, 'v) dictht"
  rehashidx :: int
  iterators :: int

definition dictCompareKeys :: "('k, 'v) dict \<Rightarrow> 'k \<Rightarrow> 'k \<Rightarrow> bool" where
  "dictCompareKeys d key1 key2 = (case keyCompare (dtype d) of Some f \<Rightarrow> f key1 key2 | None \<Rightarrow> key1 = key2)"

definition dictHashKey :: "('k, 'v) dict \<Rightarrow> 'k \<Rightarrow> 32 word" where
  "dictHashKey d key = hashFunction (dtype d) key"

definition dictSetKey :: "('k, 'v) dict \<Rightarrow> 'k \<Rightarrow> 'k" where
  "dictSetKey d key = (case keyDup (dtype d) of Some f \<Rightarrow> f key | None \<Rightarrow> key)"

definition dictSetVal :: "('k, 'v) dict \<Rightarrow> 'v \<Rightarrow> 'v" where
  "dictSetVal d v = (case valDup (dtype d) of Some f \<Rightarrow> f v | None \<Rightarrow> v)"

definition dictIsRehashing :: "('k, 'v) dict \<Rightarrow> bool" where
  "dictIsRehashing d \<longleftrightarrow> rehashidx d \<noteq> -1"

definition dictSize :: "('k, 'v) dict \<Rightarrow> nat" where
  "dictSize d = ht_used (ht0 d) + ht_used (ht1 d)"

definition dictSlots :: "('k, 'v) dict \<Rightarrow> nat" where
  "dictSlots d = ht_size (ht0 d) + ht_size (ht1 d)"

text \<open>The bucket of a hash in a table, and checked bucket accesses.\<close>

definition ht_index :: "('k, 'v) dictht \<Rightarrow> 32 word \<Rightarrow> nat" where
  "ht_index t h = and (unat h) (ht_sizemask t)"

definition ht_at :: "('k, 'v) dictht \<Rightarrow> int \<Rightarrow> ('k, 'v) chain option" where
  "ht_at t i = (if 0 \<le> i \<and> i < int (length (ht_table t)) then Some (ht_table t ! nat i) else None)"

definition ht_put :: "('k, 'v) dictht \<Rightarrow> int \<Rightarrow> ('k, 'v) chain \<Rightarrow> ('k, 'v) dictht option" where
  "ht_put t i c =
     (if 0 \<le> i \<and> i < int (length (ht_table t)) then Some (t\<lparr>ht_table := (ht_table t)[nat i := c]\<rparr>) else None)"

text \<open>\<open>&d->ht[table]\<close>\<close>

definition ht_of :: "('k, 'v) dict \<Rightarrow> nat \<Rightarrow> ('k, 'v) dictht" where
  "ht_of d table = (if table = 0 then ht0 d else ht1 d)"

definition set_ht :: "('k, 'v) dict \<Rightarrow> nat \<Rightarrow> ('k, 'v) dictht \<Rightarrow> ('k, 'v) dict" where
  "set_ht d table t = (if table = 0 then d\<lparr>ht0 := t\<rparr> else d\<lparr>ht1 := t\<rparr>)"

section \<open>Creation and resizing\<close>

definition dictReset :: "('k, 'v) dictht" where
  "dictReset = \<lparr>ht_table = [], ht_size = 0, ht_sizemask = 0, ht_used = 0\<rparr>"

definition dictInit :: "('k, 'v) dictType \<Rightarrow> ('k, 'v) dict" where
  "dictInit ty = \<lparr>dtype = ty, ht0 = dictReset, ht1 = dictReset, rehashidx = -1, iterators = 0\<rparr>"

definition dictCreate :: "('k, 'v) dictType \<Rightarrow> ('k, 'v) dict" where
  "dictCreate ty = dictInit ty"

text \<open>The loop of \<open>_dictNextPower\<close>, entered with \<open>i > 0\<close>.\<close>

function dictNextPower_loop :: "nat \<Rightarrow> nat \<Rightarrow> nat" where
  "dictNextPower_loop sz i = (if i \<ge> sz \<or> i = 0 then i else dictNextPower_loop sz (i * 2))"
  by pat_completeness auto
termination
  by (relation "measure (\<lambda>(sz, i). sz - i)") auto

declare dictNextPower_loop.simps [simp del]

definition dictNextPower :: "nat \<Rightarrow> nat" where
  "dictNextPower sz =
     (if sz \<ge> LONG_MAX then LONG_MAX else dictNextPower_loop sz DICT_HT_INITIAL_SIZE)"

definition dictExpand :: "('k, 'v) dict \<Rightarrow> nat \<Rightarrow> nat \<times> ('k, 'v) dict" where
  "dictExpand d sz =
     (let realsize = dictNextPower sz in
      if dictIsRehashing d \<or> ht_used (ht0 d) > sz then (DICT_ERR, d)
      else if realsize = ht_size (ht0 d) then (DICT_ERR, d)
      else
        let n = \<lparr>ht_table = replicate realsize [], ht_size = realsize, ht_sizemask = realsize - 1, ht_used = 0\<rparr> in
        if ht_table (ht0 d) = [] then (DICT_OK, d\<lparr>ht0 := n\<rparr>)
        else (DICT_OK, d\<lparr>ht1 := n, rehashidx := 0\<rparr>))"

text \<open>\<open>minimal\<close> is an \<open>int\<close>; \<open>can_resize\<close> stands for the global \<open>dict_can_resize\<close>.\<close>

definition dictResize :: "bool \<Rightarrow> ('k, 'v) dict \<Rightarrow> nat \<times> ('k, 'v) dict" where
  "dictResize can_resize d =
     (if \<not> can_resize \<or> dictIsRehashing d then (DICT_ERR, d)
      else
        let minimal = to_signed 32 (int (ht_used (ht0 d)));
            minimal = (if minimal < int DICT_HT_INITIAL_SIZE then int DICT_HT_INITIAL_SIZE else minimal)
        in dictExpand d (nat minimal))"

definition dictExpandIfNeeded :: "bool \<Rightarrow> ('k, 'v) dict \<Rightarrow> nat \<times> ('k, 'v) dict" where
  "dictExpandIfNeeded can_resize d =
     (if dictIsRehashing d then (DICT_OK, d)
      else if ht_size (ht0 d) = 0 then dictExpand d DICT_HT_INITIAL_SIZE
      else if ht_used (ht0 d) \<ge> ht_size (ht0 d) \<and>
              (can_resize \<or> ht_used (ht0 d) div ht_size (ht0 d) > dict_force_resize_ratio)
      then dictExpand d (ht_used (ht0 d) * 2 mod 2 ^ 64)
      else (DICT_OK, d))"

section \<open>Incremental rehashing\<close>

text \<open>
  The inner loop of \<open>dictRehash\<close> over empty buckets: the dictionary, the visits left, and whether
  the function returned 1 from inside the loop.
\<close>

function dictRehash_skip :: "('k, 'v) dict \<Rightarrow> int \<Rightarrow> (('k, 'v) dict \<times> int \<times> bool) option" where
  "dictRehash_skip d empty_visits =
     (case ht_at (ht0 d) (rehashidx d) of
        None \<Rightarrow> None
      | Some (e # es) \<Rightarrow> Some (d, empty_visits, False)
      | Some [] \<Rightarrow>
          (let d = d\<lparr>rehashidx := rehashidx d + 1\<rparr>; empty_visits = empty_visits - 1 in
           if empty_visits = 0 then Some (d, empty_visits, True) else dictRehash_skip d empty_visits))"
  by pat_completeness auto
termination
  by (relation "measure (\<lambda>(d, v). nat (int (length (ht_table (ht0 d))) - rehashidx d))")
    (auto simp: ht_at_def split: if_splits)

declare dictRehash_skip.simps [simp del]

text \<open>The loop that moves the chain \<open>de\<close> of a bucket to the new table.\<close>

fun dictRehash_move :: "('k, 'v) dict \<Rightarrow> ('k, 'v) chain \<Rightarrow> ('k, 'v) dict option" where
  "dictRehash_move d [] = Some d"
| "dictRehash_move d (de # nextde) = do {
     let h = int (ht_index (ht1 d) (dictHashKey d (de_key de)));
     c \<leftarrow> ht_at (ht1 d) h;
     t \<leftarrow> ht_put (ht1 d) h (de # c);
     dictRehash_move (d\<lparr>ht0 := (ht0 d)\<lparr>ht_used := ht_used (ht0 d) - 1\<rparr>,
                        ht1 := t\<lparr>ht_used := ht_used t + 1\<rparr>\<rparr>) nextde }"

text \<open>The outer loop; the flag says that the function returned 1 from inside it.\<close>

fun dictRehash_loop :: "nat \<Rightarrow> ('k, 'v) dict \<Rightarrow> int \<Rightarrow> (('k, 'v) dict \<times> bool) option" where
  "dictRehash_loop 0 d empty_visits = Some (d, False)"
| "dictRehash_loop (Suc n) d empty_visits =
     (if ht_used (ht0 d) = 0 then Some (d, False)
      else if \<not> int (ht_size (ht0 d)) > rehashidx d then None
      else do {
        (d, empty_visits, returned) \<leftarrow> dictRehash_skip d empty_visits;
        if returned then Some (d, True)
        else do {
          de \<leftarrow> ht_at (ht0 d) (rehashidx d);
          d \<leftarrow> dictRehash_move d de;
          t \<leftarrow> ht_put (ht0 d) (rehashidx d) [];
          dictRehash_loop n (d\<lparr>ht0 := t, rehashidx := rehashidx d + 1\<rparr>) empty_visits } })"

text \<open>
  The argument \<open>n\<close> is an \<open>int\<close> that callers give as 1 or 100; the product \<open>n*10\<close> is taken not to overflow.
\<close>

definition dictRehash :: "('k, 'v) dict \<Rightarrow> nat \<Rightarrow> (nat \<times> ('k, 'v) dict) option" where
  "dictRehash d n =
     (if \<not> dictIsRehashing d then Some (0, d)
      else do {
        (d, returned) \<leftarrow> dictRehash_loop n d (int n * 10);
        if returned then Some (1, d)
        else if ht_used (ht0 d) = 0 then Some (0, d\<lparr>ht0 := ht1 d, ht1 := dictReset, rehashidx := -1\<rparr>)
        else Some (1, d) })"

definition dictRehashStep :: "('k, 'v) dict \<Rightarrow> ('k, 'v) dict option" where
  "dictRehashStep d = (if iterators d = 0 then map_option snd (dictRehash d 1) else Some d)"

section \<open>Lookup and update\<close>

text \<open>An entry inside the table: which table, which bucket, and how far down the chain.\<close>

type_synonym entry_ref = "nat \<times> int \<times> nat"

text \<open>The walk down a chain looking for a key.\<close>

fun chain_find :: "('k, 'v) dict \<Rightarrow> 'k \<Rightarrow> ('k, 'v) chain \<Rightarrow> nat option" where
  "chain_find d k [] = None"
| "chain_find d k (he # rest) =
     (if dictCompareKeys d k (de_key he) then Some 0 else map_option Suc (chain_find d k rest))"

text \<open>
  \<open>_dictKeyIndex\<close> returns an \<open>int\<close>, -1 for a key that is already there (or a failed resize).
\<close>

definition dictKeyIndex :: "bool \<Rightarrow> ('k, 'v) dict \<Rightarrow> 'k \<Rightarrow> (int \<times> ('k, 'v) dict) option" where
  "dictKeyIndex can_resize d k =
     (let (rc, d) = dictExpandIfNeeded can_resize d in
      if rc = DICT_ERR then Some (-1, d)
      else do {
        let h = dictHashKey d k;
        let idx0 = ht_index (ht0 d) h;
        c0 \<leftarrow> ht_at (ht0 d) (int idx0);
        if chain_find d k c0 \<noteq> None then Some (-1, d)
        else if \<not> dictIsRehashing d then Some (to_signed 32 (int idx0), d)
        else do {
          let idx1 = ht_index (ht1 d) h;
          c1 \<leftarrow> ht_at (ht1 d) (int idx1);
          if chain_find d k c1 \<noteq> None then Some (-1, d)
          else Some (to_signed 32 (int idx1), d) } })"

text \<open>
  \<open>dictAddRaw\<close> links a new entry whose value is not initialised: \<open>junk\<close> is what the allocated
  memory holds. The result is the entry, or \<open>None\<close> for \<open>NULL\<close>.
\<close>

definition dictAddRaw :: "bool \<Rightarrow> 'v \<Rightarrow> ('k, 'v) dict \<Rightarrow> 'k \<Rightarrow> (entry_ref option \<times> ('k, 'v) dict) option" where
  "dictAddRaw can_resize junk d k = do {
     d \<leftarrow> (if dictIsRehashing d then dictRehashStep d else Some d);
     (index, d) \<leftarrow> dictKeyIndex can_resize d k;
     if index = -1 then Some (None, d)
     else do {
       let table = (if dictIsRehashing d then 1 else 0);
       c \<leftarrow> ht_at (ht_of d table) index;
       t \<leftarrow> ht_put (ht_of d table) index (\<lparr>de_key = dictSetKey d k, de_val = junk\<rparr> # c);
       Some (Some (table, index, 0), set_ht d table (t\<lparr>ht_used := ht_used t + 1\<rparr>)) } }"

text \<open>\<open>entry->v.val = ...\<close> for an entry in the table.\<close>

definition entry_set_val :: "('k, 'v) dict \<Rightarrow> entry_ref \<Rightarrow> 'v \<Rightarrow> ('k, 'v) dict option" where
  "entry_set_val d r v =
     (case r of (table, i, p) \<Rightarrow> do {
        c \<leftarrow> ht_at (ht_of d table) i;
        if p < length c then do {
          t \<leftarrow> ht_put (ht_of d table) i (c[p := (c ! p)\<lparr>de_val := dictSetVal d v\<rparr>]);
          Some (set_ht d table t) }
        else None })"

definition dictAdd :: "bool \<Rightarrow> 'v \<Rightarrow> ('k, 'v) dict \<Rightarrow> 'k \<Rightarrow> 'v \<Rightarrow> (nat \<times> ('k, 'v) dict) option" where
  "dictAdd can_resize junk d k v = do {
     (entry, d) \<leftarrow> dictAddRaw can_resize junk d k;
     case entry of
       None \<Rightarrow> Some (DICT_ERR, d)
     | Some r \<Rightarrow> do { d \<leftarrow> entry_set_val d r v; Some (DICT_OK, d) } }"

definition dictFind :: "('k, 'v) dict \<Rightarrow> 'k \<Rightarrow> (entry_ref option \<times> ('k, 'v) dict) option" where
  "dictFind d k =
     (if ht_size (ht0 d) = 0 then Some (None, d)
      else do {
        d \<leftarrow> (if dictIsRehashing d then dictRehashStep d else Some d);
        let h = dictHashKey d k;
        let idx0 = int (ht_index (ht0 d) h);
        c0 \<leftarrow> ht_at (ht0 d) idx0;
        case chain_find d k c0 of
          Some p \<Rightarrow> Some (Some (0, idx0, p), d)
        | None \<Rightarrow>
            if \<not> dictIsRehashing d then Some (None, d)
            else do {
              let idx1 = int (ht_index (ht1 d) h);
              c1 \<leftarrow> ht_at (ht1 d) idx1;
              case chain_find d k c1 of
                Some p \<Rightarrow> Some (Some (1, idx1, p), d)
              | None \<Rightarrow> Some (None, d) } })"

text \<open>Reading through an entry.\<close>

definition entry_get :: "('k, 'v) dict \<Rightarrow> entry_ref \<Rightarrow> ('k, 'v) dictEntry option" where
  "entry_get d r =
     (case r of (table, i, p) \<Rightarrow> do {
        c \<leftarrow> ht_at (ht_of d table) i;
        if p < length c then Some (c ! p) else None })"

definition dictFetchValue :: "('k, 'v) dict \<Rightarrow> 'k \<Rightarrow> ('v option \<times> ('k, 'v) dict) option" where
  "dictFetchValue d k = do {
     (he, d) \<leftarrow> dictFind d k;
     case he of
       None \<Rightarrow> Some (None, d)
     | Some r \<Rightarrow> do { e \<leftarrow> entry_get d r; Some (Some (de_val e), d) } }"

text \<open>The first component is the C result: 1 for a new key, 0 for a replaced value.\<close>

definition dictReplace :: "bool \<Rightarrow> 'v \<Rightarrow> ('k, 'v) dict \<Rightarrow> 'k \<Rightarrow> 'v \<Rightarrow> (nat \<times> ('k, 'v) dict) option" where
  "dictReplace can_resize junk d k v = do {
     (rc, d) \<leftarrow> dictAdd can_resize junk d k v;
     if rc = DICT_OK then Some (1, d)
     else do {
       (entry, d) \<leftarrow> dictFind d k;
       case entry of
         None \<Rightarrow> None
       | Some r \<Rightarrow> do { d \<leftarrow> entry_set_val d r v; Some (0, d) } } }"

definition dictReplaceRaw :: "bool \<Rightarrow> 'v \<Rightarrow> ('k, 'v) dict \<Rightarrow> 'k \<Rightarrow> (entry_ref option \<times> ('k, 'v) dict) option" where
  "dictReplaceRaw can_resize junk d k = do {
     (entry, d) \<leftarrow> dictFind d k;
     case entry of Some r \<Rightarrow> Some (Some r, d) | None \<Rightarrow> dictAddRaw can_resize junk d k }"

section \<open>Deletion\<close>

text \<open>
  Unlinking the first entry of a chain with the key: \<open>prevHe\<close>'s successor or the head of the
  bucket is redirected, which on the chain as a list is the removal of that element.
\<close>

definition chain_unlink :: "('k, 'v) chain \<Rightarrow> nat \<Rightarrow> ('k, 'v) chain" where
  "chain_unlink c p = take p c @ drop (Suc p) c"

definition dictUnlinkAt :: "('k, 'v) dict \<Rightarrow> nat \<Rightarrow> int \<Rightarrow> ('k, 'v) chain \<Rightarrow> nat \<Rightarrow> ('k, 'v) dict option" where
  "dictUnlinkAt d table idx c p = do {
     t \<leftarrow> ht_put (ht_of d table) idx (chain_unlink c p);
     Some (set_ht d table (t\<lparr>ht_used := ht_used t - 1\<rparr>)) }"

text \<open>The middle component lists the entries whose key and value destructors are called.\<close>

definition dictGenericDelete ::
  "('k, 'v) dict \<Rightarrow> 'k \<Rightarrow> bool \<Rightarrow> (nat \<times> ('k, 'v) dictEntry list \<times> ('k, 'v) dict) option" where
  "dictGenericDelete d k nofree =
     (if ht_size (ht0 d) = 0 then Some (DICT_ERR, [], d)
      else do {
        d \<leftarrow> (if dictIsRehashing d then dictRehashStep d else Some d);
        let h = dictHashKey d k;
        let idx0 = int (ht_index (ht0 d) h);
        c0 \<leftarrow> ht_at (ht0 d) idx0;
        case chain_find d k c0 of
          Some p \<Rightarrow> do {
            d \<leftarrow> dictUnlinkAt d 0 idx0 c0 p;
            Some (DICT_OK, if nofree then [] else [c0 ! p], d) }
        | None \<Rightarrow>
            if \<not> dictIsRehashing d then Some (DICT_ERR, [], d)
            else do {
              let idx1 = int (ht_index (ht1 d) h);
              c1 \<leftarrow> ht_at (ht1 d) idx1;
              case chain_find d k c1 of
                Some p \<Rightarrow> do {
                  d \<leftarrow> dictUnlinkAt d 1 idx1 c1 p;
                  Some (DICT_OK, if nofree then [] else [c1 ! p], d) }
              | None \<Rightarrow> Some (DICT_ERR, [], d) } })"

definition dictDelete :: "('k, 'v) dict \<Rightarrow> 'k \<Rightarrow> (nat \<times> ('k, 'v) dictEntry list \<times> ('k, 'v) dict) option" where
  "dictDelete d k = dictGenericDelete d k False"

definition dictDeleteNoFree :: "('k, 'v) dict \<Rightarrow> 'k \<Rightarrow> (nat \<times> ('k, 'v) dictEntry list \<times> ('k, 'v) dict) option" where
  "dictDeleteNoFree d k = dictGenericDelete d k True"

section \<open>Destruction\<close>

text \<open>
  The loop of \<open>_dictClear\<close> from bucket \<open>i\<close> on with \<open>used\<close> entries left; it yields the entries
  freed, in order. The progress callback is not modelled.
\<close>

function dictClear_loop :: "('k, 'v) dictht \<Rightarrow> nat \<Rightarrow> nat \<Rightarrow> ('k, 'v) dictEntry list option" where
  "dictClear_loop t i used =
     (if i < ht_size t \<and> used > 0 then
        case ht_at t (int i) of
          None \<Rightarrow> None
        | Some c \<Rightarrow> map_option ((@) c) (dictClear_loop t (i + 1) (used - length c))
      else Some [])"
  by pat_completeness auto
termination
  by (relation "measure (\<lambda>(t, i, used). ht_size t - i)") auto

declare dictClear_loop.simps [simp del]

definition dictClear :: "('k, 'v) dictht \<Rightarrow> (('k, 'v) dictEntry list \<times> ('k, 'v) dictht) option" where
  "dictClear t = map_option (\<lambda>freed. (freed, dictReset)) (dictClear_loop t 0 (ht_used t))"

definition dictRelease :: "('k, 'v) dict \<Rightarrow> ('k, 'v) dictEntry list option" where
  "dictRelease d = do {
     (freed0, _) \<leftarrow> dictClear (ht0 d);
     (freed1, _) \<leftarrow> dictClear (ht1 d);
     Some (freed0 @ freed1) }"

definition dictEmpty :: "('k, 'v) dict \<Rightarrow> (('k, 'v) dictEntry list \<times> ('k, 'v) dict) option" where
  "dictEmpty d = do {
     (freed0, t0) \<leftarrow> dictClear (ht0 d);
     (freed1, t1) \<leftarrow> dictClear (ht1 d);
     Some (freed0 @ freed1, d\<lparr>ht0 := t0, ht1 := t1, rehashidx := -1, iterators := 0\<rparr>) }"

definition dictEnableResize :: "bool \<Rightarrow> bool" where "dictEnableResize can_resize = True"
definition dictDisableResize :: "bool \<Rightarrow> bool" where "dictDisableResize can_resize = False"

section \<open>Representation invariant and abstraction\<close>

text \<open>
  The callbacks of the dictionary type compare keys for equality and duplicate faithfully. Hash
  functions are arbitrary.
\<close>

definition dictType_ok :: "('k, 'v) dictType \<Rightarrow> bool" where
  "dictType_ok ty \<longleftrightarrow>
     (\<forall>f. keyCompare ty = Some f \<longrightarrow> (\<forall>a b. f a b \<longleftrightarrow> a = b)) \<and>
     (\<forall>f. keyDup ty = Some f \<longrightarrow> (\<forall>k. f k = k)) \<and>
     (\<forall>f. valDup ty = Some f \<longrightarrow> (\<forall>v. f v = v))"

text \<open>
  A table is absent or has a power of two of buckets, counts its entries, and has every entry in
  the bucket of its hash. Bucket numbers fit an \<open>int\<close>.
\<close>

definition ht_ok :: "('k \<Rightarrow> 32 word) \<Rightarrow> ('k, 'v) dictht \<Rightarrow> bool" where
  "ht_ok H t \<longleftrightarrow>
     t = dictReset \<or>
     (\<exists>n\<le>31. ht_size t = 2 ^ n) \<and> length (ht_table t) = ht_size t \<and> ht_sizemask t = ht_size t - 1 \<and>
     ht_used t = length (concat (ht_table t)) \<and>
     (\<forall>i<ht_size t. \<forall>e\<in>set (ht_table t ! i). ht_index t (H (de_key e)) = i)"

definition dict_entries :: "('k, 'v) dict \<Rightarrow> ('k, 'v) dictEntry list" where
  "dict_entries d = concat (ht_table (ht0 d)) @ concat (ht_table (ht1 d))"

definition dict_ok :: "('k, 'v) dict \<Rightarrow> bool" where
  "dict_ok d \<longleftrightarrow>
     dictType_ok (dtype d) \<and> ht_ok (hashFunction (dtype d)) (ht0 d) \<and> ht_ok (hashFunction (dtype d)) (ht1 d) \<and>
     distinct (map de_key (dict_entries d)) \<and>
     (if dictIsRehashing d then
        0 \<le> rehashidx d \<and> rehashidx d \<le> int (ht_size (ht0 d)) \<and> ht_size (ht0 d) > 0 \<and> ht_size (ht1 d) > 0 \<and>
        (\<forall>i<nat (rehashidx d). ht_table (ht0 d) ! i = [])
      else ht1 d = dictReset)"

text \<open>What the dictionary stores, as a partial map.\<close>

definition dict_map :: "('k, 'v) dict \<Rightarrow> 'k \<Rightarrow> 'v option" where
  "dict_map d = map_of (map (\<lambda>e. (de_key e, de_val e)) (dict_entries d))"

section \<open>Tables\<close>

lemma ht_reset_simps [simp]:
  "ht_table dictReset = []" "ht_size dictReset = 0" "ht_sizemask dictReset = 0" "ht_used dictReset = 0"
  by (simp_all add: dictReset_def)

lemma ht_ok_reset [simp]: "ht_ok H dictReset"
  by (simp add: ht_ok_def)

lemma ht_okD:
  assumes "ht_ok H t" "ht_size t > 0"
  shows "\<exists>n\<le>31. ht_size t = 2 ^ n" "length (ht_table t) = ht_size t" "ht_sizemask t = ht_size t - 1"
    "ht_used t = length (concat (ht_table t))"
    "i < ht_size t \<Longrightarrow> e \<in> set (ht_table t ! i) \<Longrightarrow> ht_index t (H (de_key e)) = i"
  using assms by (auto simp: ht_ok_def)

lemma ht_ok_length: "ht_ok H t \<Longrightarrow> length (ht_table t) = ht_size t"
  by (auto simp: ht_ok_def)

lemma ht_ok_used: "ht_ok H t \<Longrightarrow> ht_used t = length (concat (ht_table t))"
  by (auto simp: ht_ok_def)

lemma ht_size_pos_if_used: "ht_ok H t \<Longrightarrow> ht_used t > 0 \<Longrightarrow> ht_size t > 0"
  by (auto simp: ht_ok_def)

lemma ht_index_mod:
  assumes "ht_sizemask t = 2 ^ n - 1"
  shows "ht_index t h = unat h mod 2 ^ n"
  unfolding ht_index_def assms mask_eq_exp_minus_1 [symmetric] take_bit_eq_mask [symmetric] by (rule take_bit_eq_mod)

lemma ht_index_less:
  assumes "ht_ok H t" "ht_size t > 0"
  shows "ht_index t h < ht_size t" "ht_index t h < 2 ^ 31"
proof -
  obtain n where n: "n \<le> 31" "ht_size t = 2 ^ n" "ht_sizemask t = 2 ^ n - 1"
    using ht_okD [OF assms] by auto
  have "ht_index t h < 2 ^ n"
    using ht_index_mod [OF n(3)] by simp
  moreover have "(2 :: nat) ^ n \<le> 2 ^ 31"
    using n(1) by (intro power_increasing) auto
  ultimately show "ht_index t h < ht_size t" "ht_index t h < 2 ^ 31"
    using n(2) by auto
qed

lemma ht_at_in [simp]: "i < length (ht_table t) \<Longrightarrow> ht_at t (int i) = Some (ht_table t ! i)"
  by (simp add: ht_at_def)

lemma ht_put_in [simp]:
  "i < length (ht_table t) \<Longrightarrow> ht_put t (int i) c = Some (t\<lparr>ht_table := (ht_table t)[i := c]\<rparr>)"
  by (simp add: ht_put_def)

lemma mset_concat_update:
  "i < length xs \<Longrightarrow> mset (concat (xs[i := c])) + mset (xs ! i) = mset (concat xs) + mset c"
proof (induction xs arbitrary: i)
  case (Cons x xs)
  then show ?case
    by (cases i) (auto simp: ac_simps)
qed simp

lemma set_concat_nth: "set (concat xs) = (\<Union>i<length xs. set (xs ! i))"
  unfolding set_concat by (auto simp: set_conv_nth [of xs])

lemma ht_ok_update:
  assumes ok: "ht_ok H t" and i: "i < ht_size t"
    and c: "\<And>e. e \<in> set c \<Longrightarrow> ht_index t (H (de_key e)) = i"
    and u: "u + length (ht_table t ! i) = ht_used t + length c"
  shows "ht_ok H (t\<lparr>ht_table := (ht_table t)[i := c], ht_used := u\<rparr>)"
proof -
  have len: "i < length (ht_table t)"
    using ht_ok_length [OF ok] i by simp
  have "length (concat ((ht_table t)[i := c])) + length (ht_table t ! i) = length (concat (ht_table t)) + length c"
    using arg_cong [OF mset_concat_update [OF len, of c], of size] by simp
  then have "u = length (concat ((ht_table t)[i := c]))"
    using u ht_ok_used [OF ok] by simp
  moreover have "0 < ht_size t"
    using i by simp
  ultimately show ?thesis
    using ht_okD [OF ok] c len unfolding ht_ok_def by (auto simp: ht_index_def nth_list_update)
qed

lemma ht_bucket_of_key:
  assumes "ht_ok H t" "ht_size t > 0" "e \<in> set (concat (ht_table t))"
  shows "e \<in> set (ht_table t ! ht_index t (H (de_key e)))"
  using assms ht_okD [OF assms(1,2)] unfolding set_concat_nth by fastforce

section \<open>Entries and the map they represent\<close>

lemma dictType_ok_simps:
  assumes "dictType_ok (dtype d)"
  shows "dictCompareKeys d a b \<longleftrightarrow> a = b" "dictSetKey d k = k" "dictSetVal d v = v"
  using assms by (auto simp: dictType_ok_def dictCompareKeys_def dictSetKey_def dictSetVal_def split: option.split)

lemma chain_find_None:
  "dictType_ok (dtype d) \<Longrightarrow> chain_find d k c = None \<longleftrightarrow> k \<notin> de_key ` set c"
  by (induction c) (auto simp: dictType_ok_simps)

lemma chain_find_Some:
  "dictType_ok (dtype d) \<Longrightarrow> chain_find d k c = Some p \<Longrightarrow> p < length c \<and> de_key (c ! p) = k"
  by (induction c arbitrary: p) (auto simp: dictType_ok_simps split: if_splits)

lemma map_of_mset_cong:
  assumes "mset xs = mset ys" "distinct (map fst xs)"
  shows "map_of xs = map_of ys"
proof
  fix k
  have "distinct (map fst ys)" "set xs = set ys"
    using assms mset_eq_imp_distinct_iff [of "map fst xs" "map fst ys"] mset_eq_setD by auto
  then show "map_of xs k = map_of ys k"
  proof (cases "map_of xs k")
    case None
    then show ?thesis
      using \<open>set xs = set ys\<close> by (metis map_of_eq_None_iff)
  next
    case (Some v)
    then show ?thesis
      using \<open>set xs = set ys\<close> \<open>distinct (map fst ys)\<close> by (metis map_of_SomeD map_of_is_SomeI)
  qed
qed

lemma dict_map_mset:
  assumes "distinct (map de_key (dict_entries d))" "mset (dict_entries d') = mset (dict_entries d)"
  shows "distinct (map de_key (dict_entries d'))" "dict_map d' = dict_map d"
proof -
  show "distinct (map de_key (dict_entries d'))"
    using assms mset_eq_imp_distinct_iff [of "map de_key (dict_entries d')" "map de_key (dict_entries d)"] by simp
  show "dict_map d' = dict_map d"
    unfolding dict_map_def using assms by (intro map_of_mset_cong [symmetric]) (auto simp: comp_def)
qed

lemma dict_map_Some:
  assumes "distinct (map de_key (dict_entries d))"
  shows "dict_map d k = Some v \<longleftrightarrow> \<lparr>de_key = k, de_val = v\<rparr> \<in> set (dict_entries d)"
proof -
  have "dict_map d k = Some v \<longleftrightarrow> (k, v) \<in> (\<lambda>e. (de_key e, de_val e)) ` set (dict_entries d)"
    unfolding dict_map_def using assms by (subst map_of_eq_Some_iff) (auto simp: comp_def)
  also have "\<dots> \<longleftrightarrow> \<lparr>de_key = k, de_val = v\<rparr> \<in> set (dict_entries d)"
  proof
    assume "(k, v) \<in> (\<lambda>e. (de_key e, de_val e)) ` set (dict_entries d)"
    then obtain e where e: "e \<in> set (dict_entries d)" "de_key e = k" "de_val e = v"
      by auto
    have "e = \<lparr>de_key = k, de_val = v\<rparr>"
      using e(2,3) by (intro dictEntry.equality) simp_all
    then show "\<lparr>de_key = k, de_val = v\<rparr> \<in> set (dict_entries d)"
      using e(1) by (simp only:)
  qed (auto intro!: image_eqI [where x = "\<lparr>de_key = k, de_val = v\<rparr>"])
  finally show ?thesis .
qed

lemma dict_map_None: "dict_map d k = None \<longleftrightarrow> k \<notin> de_key ` set (dict_entries d)"
  by (auto simp: dict_map_def map_of_eq_None_iff image_iff)

lemma dict_okD:
  assumes "dict_ok d"
  shows "dictType_ok (dtype d)" "ht_ok (hashFunction (dtype d)) (ht0 d)" "ht_ok (hashFunction (dtype d)) (ht1 d)"
    "distinct (map de_key (dict_entries d))"
    "\<not> dictIsRehashing d \<Longrightarrow> ht1 d = dictReset"
    "dictIsRehashing d \<Longrightarrow> 0 \<le> rehashidx d" "dictIsRehashing d \<Longrightarrow> rehashidx d \<le> int (ht_size (ht0 d))"
    "dictIsRehashing d \<Longrightarrow> ht_size (ht0 d) > 0" "dictIsRehashing d \<Longrightarrow> ht_size (ht1 d) > 0"
    "dictIsRehashing d \<Longrightarrow> i < nat (rehashidx d) \<Longrightarrow> ht_table (ht0 d) ! i = []"
  using assms by (auto simp: dict_ok_def split: if_splits)

text \<open>Steps that only rearrange the entries.\<close>

definition dict_moved :: "('k, 'v) dict \<Rightarrow> ('k, 'v) dict \<Rightarrow> bool" where
  "dict_moved d d' \<longleftrightarrow>
     dict_ok d' \<and> dtype d' = dtype d \<and> iterators d' = iterators d \<and> mset (dict_entries d') = mset (dict_entries d)"

lemma dict_movedD:
  assumes "dict_moved d d'" "dict_ok d"
  shows "dict_ok d'" "dtype d' = dtype d" "dict_map d' = dict_map d" "iterators d' = iterators d"
    "dictSize d' = dictSize d"
proof -
  show "dict_ok d'" "dtype d' = dtype d" "iterators d' = iterators d"
    using assms by (auto simp: dict_moved_def)
  show "dict_map d' = dict_map d"
    using assms dict_map_mset dict_okD(4) unfolding dict_moved_def by blast
  have "dictSize e = size (mset (dict_entries e))" if "dict_ok e" for e :: "('a, 'b) dict"
    using dict_okD(2,3) [OF that, THEN ht_ok_used] by (simp add: dictSize_def dict_entries_def)
  then show "dictSize d' = dictSize d"
    using assms by (auto simp: dict_moved_def dest: mset_eq_length)
qed

lemma dict_moved_refl: "dict_ok d \<Longrightarrow> dict_moved d d"
  by (simp add: dict_moved_def)

lemma dict_moved_trans: "dict_moved d d' \<Longrightarrow> dict_moved d' d'' \<Longrightarrow> dict_moved d d''"
  by (simp add: dict_moved_def)

section \<open>Rehashing\<close>

lemma dictRehash_move_ok:
  assumes "ht_ok (hashFunction (dtype d)) (ht1 d)" "ht_size (ht1 d) > 0"
  shows "\<exists>t. dictRehash_move d c =
      Some (d\<lparr>ht0 := (ht0 d)\<lparr>ht_used := ht_used (ht0 d) - length c\<rparr>, ht1 := t\<rparr>) \<and>
    ht_ok (hashFunction (dtype d)) t \<and> ht_size t = ht_size (ht1 d) \<and>
    mset (concat (ht_table t)) = mset (concat (ht_table (ht1 d))) + mset c"
  using assms
proof (induction c arbitrary: d)
  case Nil
  then show ?case
    by (intro exI [of _ "ht1 d"]) simp
next
  case (Cons e c)
  let ?H = "hashFunction (dtype d)"
  let ?i = "ht_index (ht1 d) (?H (de_key e))"
  let ?b = "ht_table (ht1 d) ! ?i"
  let ?t = "(ht1 d)\<lparr>ht_table := (ht_table (ht1 d))[?i := e # ?b], ht_used := ht_used (ht1 d) + 1\<rparr>"
  let ?d = "d\<lparr>ht0 := (ht0 d)\<lparr>ht_used := ht_used (ht0 d) - 1\<rparr>, ht1 := ?t\<rparr>"
  have i: "?i < ht_size (ht1 d)" "?i < length (ht_table (ht1 d))"
    using ht_index_less(1) [OF Cons.prems] ht_ok_length [OF Cons.prems(1)] by auto
  have "ht_ok ?H ?t"
    using i ht_okD(5) [OF Cons.prems i(1)] by (intro ht_ok_update Cons.prems) auto
  then obtain t where t: "dictRehash_move ?d c =
      Some (?d\<lparr>ht0 := (ht0 ?d)\<lparr>ht_used := ht_used (ht0 ?d) - length c\<rparr>, ht1 := t\<rparr>)"
    "ht_ok ?H t" "ht_size t = ht_size (ht1 d)"
    "mset (concat (ht_table t)) = mset (concat ((ht_table (ht1 d))[?i := e # ?b])) + mset c"
    using Cons.IH [of ?d] Cons.prems(2) by auto
  have "dictRehash_move d (e # c) = dictRehash_move ?d c"
    using i by (simp add: dictHashKey_def Let_def)
  moreover have "mset (concat ((ht_table (ht1 d))[?i := e # ?b])) = mset (concat (ht_table (ht1 d))) + {#e#}"
    using mset_concat_update [OF i(2), of "e # ?b"] by simp
  ultimately show ?case
    using t by (intro exI [of _ t]) simp
qed

lemma dictRehash_skip_ok:
  assumes "0 \<le> rehashidx d" "rehashidx d \<le> int j" "j < length (ht_table (ht0 d))" "ht_table (ht0 d) ! j \<noteq> []" "1 \<le> v"
  shows "\<exists>r v' stop. dictRehash_skip d v = Some (d\<lparr>rehashidx := int r\<rparr>, v', stop) \<and>
    rehashidx d \<le> int r \<and> r \<le> j \<and> (\<forall>i<r. rehashidx d \<le> int i \<longrightarrow> ht_table (ht0 d) ! i = []) \<and>
    (if stop then rehashidx d < int r else ht_table (ht0 d) ! r \<noteq> [] \<and> 1 \<le> v')"
  using assms
proof (induction d v rule: dictRehash_skip.induct)
  case (1 d v)
  let ?r = "nat (rehashidx d)"
  have at: "ht_at (ht0 d) (rehashidx d) = Some (ht_table (ht0 d) ! ?r)"
    using "1.prems" by (simp add: ht_at_def)
  show ?case
  proof (cases "ht_table (ht0 d) ! ?r")
    case (Cons e es)
    then have "dictRehash_skip d v = Some (d\<lparr>rehashidx := int ?r\<rparr>, v, False)"
      using at "1.prems"(1) by (simp add: dictRehash_skip.simps [of d v])
    then show ?thesis
      using Cons "1.prems" by (intro exI [of _ ?r] exI [of _ v] exI [of _ False]) auto
  next
    case Nil
    let ?d = "d\<lparr>rehashidx := rehashidx d + 1\<rparr>"
    have "rehashidx d \<noteq> int j"
      using Nil "1.prems" by auto
    then have lt: "rehashidx d < int j"
      using "1.prems" by simp
    show ?thesis
    proof (cases "v = 1")
      case True
      then have "dictRehash_skip d v = Some (d\<lparr>rehashidx := int (?r + 1)\<rparr>, 0, True)"
        using at Nil "1.prems"(1) unfolding dictRehash_skip.simps [of d v] by (simp add: add.commute)
      moreover have "ht_table (ht0 d) ! i = []" if "i < ?r + 1" "rehashidx d \<le> int i" for i
        using that Nil "1.prems"(1) by (cases "i = ?r") auto
      ultimately show ?thesis
        using lt "1.prems"(1) by (intro exI [of _ "?r + 1"] exI [of _ 0] exI [of _ True]) auto
    next
      case False
      have "\<exists>r v' stop. dictRehash_skip ?d (v - 1) = Some (?d\<lparr>rehashidx := int r\<rparr>, v', stop) \<and>
        rehashidx ?d \<le> int r \<and> r \<le> j \<and> (\<forall>i<r. rehashidx ?d \<le> int i \<longrightarrow> ht_table (ht0 ?d) ! i = []) \<and>
        (if stop then rehashidx ?d < int r else ht_table (ht0 ?d) ! r \<noteq> [] \<and> 1 \<le> v')"
        using False "1.prems" lt by (intro "1.IH" [OF at Nil refl refl]) auto
      then obtain r v' stop where r: "dictRehash_skip ?d (v - 1) = Some (d\<lparr>rehashidx := int r\<rparr>, v', stop)"
        "rehashidx d + 1 \<le> int r" "r \<le> j" "\<forall>i<r. rehashidx d + 1 \<le> int i \<longrightarrow> ht_table (ht0 d) ! i = []"
        "if stop then rehashidx d + 1 < int r else ht_table (ht0 d) ! r \<noteq> [] \<and> 1 \<le> v'"
        by (simp cong: if_cong) blast
      have "ht_table (ht0 d) ! i = []" if "i < r" "rehashidx d \<le> int i" for i
        using that r(4) Nil by (cases "rehashidx d = int i") auto
      moreover have "dictRehash_skip d v = dictRehash_skip ?d (v - 1)"
        using at Nil False by (simp add: dictRehash_skip.simps [of d v])
      ultimately show ?thesis
        using r by (intro exI [of _ r] exI [of _ v'] exI [of _ stop]) (auto split: if_splits)
    qed
  qed
qed

lemma dict_moved_bucket:
  assumes ok: "dict_ok d" "dictIsRehashing d" and r: "r < ht_size (ht0 d)"
    and empty: "\<And>i. i < r \<Longrightarrow> ht_table (ht0 d) ! i = []"
    and t: "ht_ok (hashFunction (dtype d)) t" "ht_size t = ht_size (ht1 d)"
      "mset (concat (ht_table t)) = mset (concat (ht_table (ht1 d))) + mset (ht_table (ht0 d) ! r)"
  shows "dict_moved d (d\<lparr>ht0 := (ht0 d)\<lparr>ht_table := (ht_table (ht0 d))[r := []],
      ht_used := ht_used (ht0 d) - length (ht_table (ht0 d) ! r)\<rparr>, ht1 := t, rehashidx := int r + 1\<rparr>)"
proof -
  let ?H = "hashFunction (dtype d)"
  let ?t0 = "(ht0 d)\<lparr>ht_table := (ht_table (ht0 d))[r := []], ht_used := ht_used (ht0 d) - length (ht_table (ht0 d) ! r)\<rparr>"
  let ?d = "d\<lparr>ht0 := ?t0, ht1 := t, rehashidx := int r + 1\<rparr>"
  note D = dict_okD [OF ok(1)]
  have len: "r < length (ht_table (ht0 d))"
    using r ht_ok_length [OF D(2)] by simp
  have "length (ht_table (ht0 d) ! r) \<le> length (concat (ht_table (ht0 d)))"
    using arg_cong [OF mset_concat_update [OF len, of "[]"], of size] by simp
  then have "ht_ok ?H ?t0"
    using r ht_ok_used [OF D(2)] by (intro ht_ok_update D) auto
  moreover have m: "mset (dict_entries ?d) = mset (dict_entries d)"
    using mset_concat_update [OF len, of "[]"] t(3) by (simp add: dict_entries_def ac_simps)
  moreover have "distinct (map de_key (dict_entries ?d))"
    by (rule dict_map_mset(1) [OF D(4) m])
  moreover have "ht_table ?t0 ! i = []" if "i < nat (int r + 1)" for i
    using that empty len by (cases "i = r") auto
  ultimately show ?thesis
    using D t r ok(2) by (auto simp: dict_moved_def dict_ok_def dictIsRehashing_def)
qed

lemma dict_ok_nonempty_bucket:
  assumes "dict_ok d" "dictIsRehashing d" "ht_used (ht0 d) \<noteq> 0"
  obtains j where "rehashidx d \<le> int j" "j < ht_size (ht0 d)" "ht_table (ht0 d) ! j \<noteq> []"
proof -
  note D = dict_okD [OF assms(1)]
  have "concat (ht_table (ht0 d)) \<noteq> []"
    using ht_ok_used [OF D(2)] assms(3) by auto
  then obtain j where j: "j < length (ht_table (ht0 d))" "ht_table (ht0 d) ! j \<noteq> []"
    by (auto simp: in_set_conv_nth)
  then have "\<not> j < nat (rehashidx d)"
    using D(10) [OF assms(2)] by auto
  then have "rehashidx d \<le> int j"
    by (simp add: not_less nat_le_iff)
  then show thesis
    using that j ht_ok_length [OF D(2)] by auto
qed

lemma dictRehash_loop_ok:
  assumes "dict_ok d" "dictIsRehashing d" "1 \<le> v \<or> n = 0"
  shows "\<exists>d' stop. dictRehash_loop n d v = Some (d', stop) \<and> dict_moved d d' \<and> dictIsRehashing d' \<and>
    ht_size (ht0 d') = ht_size (ht0 d) \<and> ht_size (ht1 d') = ht_size (ht1 d) \<and> rehashidx d \<le> rehashidx d' \<and>
    (stop \<longrightarrow> ht_used (ht0 d') \<noteq> 0) \<and> (n > 0 \<and> ht_used (ht0 d) \<noteq> 0 \<longrightarrow> rehashidx d < rehashidx d') \<and>
    (ht_used (ht0 d) = 0 \<longrightarrow> ht_used (ht0 d') = 0)"
  using assms
proof (induction n arbitrary: d v)
  case 0
  then show ?case
    by (intro exI [of _ d] exI [of _ False]) (simp add: dict_moved_refl)
next
  case (Suc n)
  note D = dict_okD [OF Suc.prems(1)]
  show ?case
  proof (cases "ht_used (ht0 d) = 0")
    case True
    then show ?thesis
      using Suc.prems by (intro exI [of _ d] exI [of _ False]) (simp add: dict_moved_refl)
  next
    case False
    obtain j where j: "rehashidx d \<le> int j" "j < ht_size (ht0 d)" "ht_table (ht0 d) ! j \<noteq> []"
      using dict_ok_nonempty_bucket [OF Suc.prems(1,2) False] .
    have len: "length (ht_table (ht0 d)) = ht_size (ht0 d)"
      using ht_ok_length [OF D(2)] .
    obtain r v' stop where r: "dictRehash_skip d v = Some (d\<lparr>rehashidx := int r\<rparr>, v', stop)"
      "rehashidx d \<le> int r" "r \<le> j" "\<forall>i<r. rehashidx d \<le> int i \<longrightarrow> ht_table (ht0 d) ! i = []"
      "if stop then rehashidx d < int r else ht_table (ht0 d) ! r \<noteq> [] \<and> 1 \<le> v'"
      using dictRehash_skip_ok [of d j v] j len D(6) Suc.prems by auto
    have empty: "ht_table (ht0 d) ! i = []" if "i < r" for i
      using that r(4) D(10) [OF Suc.prems(2), of i] by (cases "rehashidx d \<le> int i") auto
    have guard: "int (ht_size (ht0 d)) > rehashidx d"
      using j by simp
    show ?thesis
    proof (cases stop)
      case True
      let ?d = "d\<lparr>rehashidx := int r\<rparr>"
      have "dict_moved d ?d" "dictIsRehashing ?d"
        using D Suc.prems(2) empty r(3) j(2)
        by (auto simp: dict_moved_def dict_ok_def dictIsRehashing_def dict_entries_def)
      then show ?thesis
        using r True False guard by (intro exI [of _ ?d] exI [of _ True]) simp
    next
      case go: False
      let ?c = "ht_table (ht0 d) ! r"
      obtain t where t: "dictRehash_move (d\<lparr>rehashidx := int r\<rparr>) ?c =
          Some (d\<lparr>rehashidx := int r, ht0 := (ht0 d)\<lparr>ht_used := ht_used (ht0 d) - length ?c\<rparr>, ht1 := t\<rparr>)"
        "ht_ok (hashFunction (dtype d)) t" "ht_size t = ht_size (ht1 d)"
        "mset (concat (ht_table t)) = mset (concat (ht_table (ht1 d))) + mset ?c"
        using dictRehash_move_ok [of "d\<lparr>rehashidx := int r\<rparr>" ?c] D(3) D(9) [OF Suc.prems(2)] by auto
      let ?d = "d\<lparr>ht0 := (ht0 d)\<lparr>ht_table := (ht_table (ht0 d))[r := []],
        ht_used := ht_used (ht0 d) - length ?c\<rparr>, ht1 := t, rehashidx := int r + 1\<rparr>"
      have moved: "dict_moved d ?d"
        using j(2) r(3) empty t Suc.prems by (intro dict_moved_bucket) auto
      have order: "d\<lparr>ht1 := t, ht0 := (ht0 d)\<lparr>ht_used := u, ht_table := b\<rparr>, rehashidx := i\<rparr> =
          d\<lparr>ht0 := (ht0 d)\<lparr>ht_table := b, ht_used := u\<rparr>, ht1 := t, rehashidx := i\<rparr>" for u b i
        by (intro dict.equality dictht.equality) simp_all
      have "dictRehash_loop (Suc n) d v = dictRehash_loop n ?d v'"
        using False guard r(1,3) go t(1) j(2) len by (simp add: order)
      moreover have "dict_ok ?d" "dictIsRehashing ?d"
        using moved by (auto simp: dict_moved_def dictIsRehashing_def)
      ultimately show ?thesis
        using Suc.IH [of ?d v'] r(2,5) go t(3) moved dict_moved_trans [OF moved] by auto
    qed
  qed
qed

lemma dictRehash_ok:
  assumes "dict_ok d"
  shows "\<exists>rc d'. dictRehash d n = Some (rc, d') \<and> dict_moved d d' \<and> rc = (if dictIsRehashing d' then 1 else 0) \<and>
    (dictIsRehashing d' \<longrightarrow> dictIsRehashing d \<and> ht_size (ht0 d') = ht_size (ht0 d) \<and>
       ht_size (ht1 d') = ht_size (ht1 d) \<and> (0 < n \<longrightarrow> rehashidx d < rehashidx d')) \<and>
    (ht_size (ht0 d) > 0 \<longrightarrow> ht_size (ht0 d') > 0)"
proof (cases "dictIsRehashing d")
  case False
  then show ?thesis
    using assms by (simp add: dictRehash_def dict_moved_refl)
next
  case True
  have v: "1 \<le> int n * 10 \<or> n = 0"
    by auto
  obtain d' stop where d': "dictRehash_loop n d (int n * 10) = Some (d', stop)" "dict_moved d d'" "dictIsRehashing d'"
    "ht_size (ht0 d') = ht_size (ht0 d)" "ht_size (ht1 d') = ht_size (ht1 d)" "rehashidx d \<le> rehashidx d'"
    "stop \<longrightarrow> ht_used (ht0 d') \<noteq> 0" "n > 0 \<and> ht_used (ht0 d) \<noteq> 0 \<longrightarrow> rehashidx d < rehashidx d'"
    "ht_used (ht0 d) = 0 \<longrightarrow> ht_used (ht0 d') = 0"
    using dictRehash_loop_ok [OF assms True v] by (elim exE conjE) (rule that)
  show ?thesis
  proof (cases "ht_used (ht0 d') = 0")
    case True
    let ?d = "d'\<lparr>ht0 := ht1 d', ht1 := dictReset, rehashidx := -1\<rparr>"
    note D = dict_okD [OF dict_movedD(1) [OF d'(2) assms]]
    have "concat (ht_table (ht0 d')) = []"
      using ht_ok_used [OF D(2)] True by simp
    then have "dict_entries ?d = dict_entries d'"
      by (simp add: dict_entries_def)
    then have "dict_moved d' ?d" "\<not> dictIsRehashing ?d"
      using D by (auto simp: dict_moved_def dict_ok_def dictIsRehashing_def)
    then show ?thesis
      using \<open>dictIsRehashing d\<close> d'(1,3,7) True D(9) dict_moved_trans [OF d'(2)] by (auto simp: dictRehash_def)
  next
    case False
    then show ?thesis
      using \<open>dictIsRehashing d\<close> d' False by (auto simp: dictRehash_def)
  qed
qed

section \<open>Resizing\<close>

lemma dictNextPower_loop_power:
  assumes "i = 2 ^ m"
  shows "\<exists>n\<ge>m. dictNextPower_loop sz i = 2 ^ n \<and> sz \<le> 2 ^ n \<and> (n = m \<or> 2 ^ (n - 1) < sz)"
  using assms
proof (induction sz i arbitrary: m rule: dictNextPower_loop.induct)
  case (1 sz i)
  show ?case
  proof (cases "sz \<le> i")
    case True
    then show ?thesis
      using "1.prems" unfolding dictNextPower_loop.simps [of sz i] by (intro exI [of _ m]) auto
  next
    case False
    then obtain n where "n \<ge> Suc m" "dictNextPower_loop sz (i * 2) = 2 ^ n" "sz \<le> 2 ^ n" "n = Suc m \<or> 2 ^ (n - 1) < sz"
      using "1.IH" [of "Suc m"] "1.prems" by auto
    then show ?thesis
      using False "1.prems" unfolding dictNextPower_loop.simps [of sz i] by (intro exI [of _ n]) auto
  qed
qed

lemma dictNextPower_power:
  assumes "sz < LONG_MAX"
  shows "\<exists>n\<ge>2. dictNextPower sz = 2 ^ n \<and> sz \<le> 2 ^ n \<and> (n = 2 \<or> 2 ^ (n - 1) < sz)"
  using assms dictNextPower_loop_power [of 4 2 sz] by (simp add: dictNextPower_def DICT_HT_INITIAL_SIZE_def)

lemma dictNextPower_small:
  assumes "sz \<le> 2 ^ 31"
  shows "\<exists>n. 2 \<le> n \<and> n \<le> 31 \<and> dictNextPower sz = 2 ^ n \<and> sz \<le> 2 ^ n"
proof -
  obtain n where n: "2 \<le> n" "dictNextPower sz = 2 ^ n" "sz \<le> 2 ^ n" "n = 2 \<or> 2 ^ (n - 1) < sz"
    using dictNextPower_power [of sz] assms by (auto simp: LONG_MAX_def)
  have "n \<le> 31"
  proof (rule ccontr)
    assume "\<not> n \<le> 31"
    then have "(2 :: nat) ^ 31 \<le> 2 ^ (n - 1)"
      by (intro power_increasing) auto
    then show False
      using n(4) assms \<open>\<not> n \<le> 31\<close> by auto
  qed
  then show ?thesis
    using n by blast
qed

lemma ht_ok_fresh:
  "n \<le> 31 \<Longrightarrow> ht_ok H \<lparr>ht_table = replicate (2 ^ n) [], ht_size = 2 ^ n, ht_sizemask = 2 ^ n - 1, ht_used = 0\<rparr>"
  by (auto simp: ht_ok_def)

lemma dictExpand_ok:
  assumes "dict_ok d" "sz \<le> 2 ^ 31"
  shows "dict_moved d (snd (dictExpand d sz))"
    "\<not> dictIsRehashing d \<Longrightarrow> ht_used (ht0 d) \<le> sz \<Longrightarrow> dictNextPower sz \<noteq> ht_size (ht0 d) \<Longrightarrow>
      fst (dictExpand d sz) = DICT_OK \<and> ht_size (ht0 (snd (dictExpand d sz))) > 0"
proof -
  obtain n where n: "n \<le> 31" "dictNextPower sz = 2 ^ n" "2 \<le> n"
    using dictNextPower_small [OF assms(2)] by blast
  note D = dict_okD [OF assms(1)]
  have t: "ht_table (ht0 d) = [] \<longleftrightarrow> ht_size (ht0 d) = 0"
    using ht_ok_length [OF D(2)] by auto
  then show "dict_moved d (snd (dictExpand d sz))"
    using D n ht_ok_fresh [OF n(1)] dict_moved_refl [OF assms(1)]
    by (auto simp: dictExpand_def Let_def dict_moved_def dict_ok_def dictIsRehashing_def dict_entries_def)
  show "fst (dictExpand d sz) = DICT_OK \<and> ht_size (ht0 (snd (dictExpand d sz))) > 0"
    if "\<not> dictIsRehashing d" "ht_used (ht0 d) \<le> sz" "dictNextPower sz \<noteq> ht_size (ht0 d)"
    using that n t by (auto simp: dictExpand_def Let_def)
qed

definition dict_room :: "('k, 'v) dict \<Rightarrow> bool" where
  "dict_room d \<longleftrightarrow> dictSize d \<le> 2 ^ 30"

lemma dictExpandIfNeeded_ok:
  assumes "dict_ok d" "dict_room d"
  shows "\<exists>d'. dictExpandIfNeeded cr d = (DICT_OK, d') \<and> dict_moved d d' \<and> ht_size (ht0 d') > 0"
proof -
  note D = dict_okD [OF assms(1)]
  consider (re) "dictIsRehashing d" | (new) "\<not> dictIsRehashing d" "ht_size (ht0 d) = 0"
    | (grow) "\<not> dictIsRehashing d" "ht_size (ht0 d) > 0" "ht_used (ht0 d) \<ge> ht_size (ht0 d)"
        "cr \<or> ht_used (ht0 d) div ht_size (ht0 d) > dict_force_resize_ratio"
    | (keep) "\<not> dictIsRehashing d" "ht_size (ht0 d) > 0"
        "\<not> (ht_used (ht0 d) \<ge> ht_size (ht0 d) \<and> (cr \<or> ht_used (ht0 d) div ht_size (ht0 d) > dict_force_resize_ratio))"
    by blast
  then show ?thesis
  proof cases
    case re
    then show ?thesis
      using D(8) dict_moved_refl [OF assms(1)] by (simp add: dictExpandIfNeeded_def)
  next
    case new
    have "ht_used (ht0 d) = 0"
      using ht_size_pos_if_used [OF D(2)] new by auto
    moreover have "dictNextPower 4 \<noteq> 0"
      using dictNextPower_small [of 4] by auto
    ultimately show ?thesis
      using dictExpand_ok [OF assms(1), of 4] new
      by (intro exI [of _ "snd (dictExpand d 4)"]) (auto simp: dictExpandIfNeeded_def DICT_HT_INITIAL_SIZE_def prod_eq_iff)
  next
    case grow
    let ?sz = "ht_used (ht0 d) * 2"
    have sz: "?sz \<le> 2 ^ 31"
      using assms(2) by (simp add: dict_room_def dictSize_def)
    then have "?sz mod 2 ^ 64 = ?sz"
      by simp
    moreover have "dictNextPower ?sz \<noteq> ht_size (ht0 d)"
      using dictNextPower_small [OF sz] grow(2,3) by auto
    ultimately show ?thesis
      using dictExpand_ok [OF assms(1) sz] grow
      by (intro exI [of _ "snd (dictExpand d ?sz)"]) (auto simp: dictExpandIfNeeded_def prod_eq_iff)
  next
    case keep
    then show ?thesis
      using dict_moved_refl [OF assms(1)] unfolding dictExpandIfNeeded_def by auto
  qed
qed

section \<open>Looking up a key\<close>

text \<open>The bucket of a key in table \<open>j\<close>.\<close>

abbreviation key_bucket :: "('k, 'v) dict \<Rightarrow> nat \<Rightarrow> 'k \<Rightarrow> nat" where
  "key_bucket d j k \<equiv> ht_index (ht_of d j) (hashFunction (dtype d) k)"

lemma ht_of_simps [simp]: "ht_of d 0 = ht0 d" "ht_of d (Suc 0) = ht1 d"
  by (simp_all add: ht_of_def)

lemma set_ht_simps [simp]: "set_ht d 0 t = d\<lparr>ht0 := t\<rparr>" "set_ht d (Suc 0) t = d\<lparr>ht1 := t\<rparr>"
  by (simp_all add: set_ht_def)

lemma key_in_bucket:
  assumes "ht_ok H t" "ht_size t > 0"
  shows "k \<in> de_key ` set (concat (ht_table t)) \<longleftrightarrow> k \<in> de_key ` set (ht_table t ! ht_index t (H k))"
proof
  assume "k \<in> de_key ` set (concat (ht_table t))"
  then show "k \<in> de_key ` set (ht_table t ! ht_index t (H k))"
    using ht_bucket_of_key [OF assms] by force
next
  have "ht_index t (H k) < length (ht_table t)"
    using ht_index_less(1) [OF assms] ht_ok_length [OF assms(1)] by simp
  then show "k \<in> de_key ` set (ht_table t ! ht_index t (H k)) \<Longrightarrow> k \<in> de_key ` set (concat (ht_table t))"
    unfolding set_concat_nth by blast
qed

lemma key_in_dict:
  assumes "dict_ok d" "ht_size (ht0 d) > 0"
  shows "dict_map d k \<noteq> None \<longleftrightarrow>
    k \<in> de_key ` set (ht_table (ht0 d) ! key_bucket d 0 k) \<or>
    dictIsRehashing d \<and> k \<in> de_key ` set (ht_table (ht1 d) ! key_bucket d 1 k)"
proof -
  note D = dict_okD [OF assms(1)]
  have "dict_map d k \<noteq> None \<longleftrightarrow>
    k \<in> de_key ` set (concat (ht_table (ht0 d))) \<or> k \<in> de_key ` set (concat (ht_table (ht1 d)))"
    by (simp only: dict_map_None dict_entries_def set_append image_Un Un_iff not_not)
  then show ?thesis
    using key_in_bucket [OF D(2) assms(2)] key_in_bucket [OF D(3)] D(5,9) by (cases "dictIsRehashing d") auto
qed

lemma bucket_at:
  assumes "dict_ok d" "ht_size (ht0 d) > 0"
  shows "ht_at (ht0 d) (int (key_bucket d 0 k)) = Some (ht_table (ht0 d) ! key_bucket d 0 k)"
    "dictIsRehashing d \<Longrightarrow> ht_at (ht1 d) (int (key_bucket d 1 k)) = Some (ht_table (ht1 d) ! key_bucket d 1 k)"
  using ht_index_less(1) [OF dict_okD(2) [OF assms(1)]] ht_index_less(1) [OF dict_okD(3) [OF assms(1)]]
    ht_ok_length [OF dict_okD(2) [OF assms(1)]] ht_ok_length [OF dict_okD(3) [OF assms(1)]] dict_okD(9) [OF assms(1)] assms(2)
  by simp_all

lemma dictRehashStep_ok:
  assumes "dict_ok d"
  shows "\<exists>d'. dictRehashStep d = Some d' \<and> dict_moved d d' \<and> (ht_size (ht0 d) > 0 \<longrightarrow> ht_size (ht0 d') > 0)"
  using dictRehash_ok [OF assms, of 1] dict_moved_refl [OF assms] by (auto simp: dictRehashStep_def)

text \<open>The step of incremental rehashing every operation starts with.\<close>

lemma rehash_first_ok:
  assumes "dict_ok d"
  shows "\<exists>d'. (if dictIsRehashing d then dictRehashStep d else Some d) = Some d' \<and> dict_moved d d' \<and>
    (ht_size (ht0 d) > 0 \<longrightarrow> ht_size (ht0 d') > 0)"
  using dictRehashStep_ok [OF assms] dict_moved_refl [OF assms] by auto

text \<open>Where a key is, or that it is nowhere: the search common to all operations.\<close>

definition dict_locates :: "('k, 'v) dict \<Rightarrow> 'k \<Rightarrow> entry_ref option \<Rightarrow> bool" where
  "dict_locates d k r \<longleftrightarrow>
     (case r of
        None \<Rightarrow> dict_map d k = None
      | Some (table, i, p) \<Rightarrow>
          table \<le> 1 \<and> i = int (key_bucket d table k) \<and> key_bucket d table k < ht_size (ht_of d table) \<and>
          p < length (ht_table (ht_of d table) ! key_bucket d table k) \<and>
          de_key (ht_table (ht_of d table) ! key_bucket d table k ! p) = k)"

lemma dictFind_ok:
  assumes "dict_ok d"
  shows "\<exists>r d'. dictFind d k = Some (r, d') \<and> dict_moved d d' \<and> dict_locates d' k r"
proof (cases "ht_size (ht0 d) = 0")
  case True
  then have "dict_entries d = []"
    using dict_okD(5,8) [OF assms] ht_ok_length [OF dict_okD(2) [OF assms]]
    by (cases "dictIsRehashing d") (auto simp: dict_entries_def)
  then show ?thesis
    using True dict_moved_refl [OF assms] by (simp add: dictFind_def dict_locates_def dict_map_def)
next
  case False
  obtain d' where d': "(if dictIsRehashing d then dictRehashStep d else Some d) = Some d'" "dict_moved d d'"
    and pos: "ht_size (ht0 d') > 0"
    using rehash_first_ok [OF assms] False by blast
  have ok: "dict_ok d'" and ty: "dictType_ok (dtype d')"
    using dict_movedD(1) [OF d'(2) assms] dict_okD(1) by auto
  let ?c0 = "ht_table (ht0 d') ! key_bucket d' 0 k" and ?c1 = "ht_table (ht1 d') ! key_bucket d' 1 k"
  have find: "dictFind d k =
      (case chain_find d' k ?c0 of
         Some p \<Rightarrow> Some (Some (0, int (key_bucket d' 0 k), p), d')
       | None \<Rightarrow> if \<not> dictIsRehashing d' then Some (None, d')
           else case chain_find d' k ?c1 of
             Some p \<Rightarrow> Some (Some (1, int (key_bucket d' 1 k), p), d')
           | None \<Rightarrow> Some (None, d'))"
    using False d'(1) bucket_at [OF ok pos] by (simp add: dictFind_def dictHashKey_def Let_def split: option.split)
  have none: "chain_find d' k c = None \<longleftrightarrow> k \<notin> de_key ` set c" for c
    by (rule chain_find_None [OF ty])
  consider (first) p where "chain_find d' k ?c0 = Some p"
    | (second) p where "chain_find d' k ?c0 = None" "dictIsRehashing d'" "chain_find d' k ?c1 = Some p"
    | (absent) "chain_find d' k ?c0 = None" "dictIsRehashing d' \<longrightarrow> chain_find d' k ?c1 = None"
    by (cases "chain_find d' k ?c0"; cases "chain_find d' k ?c1"; cases "dictIsRehashing d'") auto
  then show ?thesis
  proof cases
    case first
    then show ?thesis
      using d'(2) find chain_find_Some [OF ty first] ht_index_less(1) [OF dict_okD(2) [OF ok] pos]
      by (simp add: dict_locates_def)
  next
    case second
    then show ?thesis
      using d'(2) find chain_find_Some [OF ty second(3)] ht_index_less(1) [OF dict_okD(3) [OF ok] dict_okD(9) [OF ok second(2)]]
      by (simp add: dict_locates_def)
  next
    case absent
    then have "dict_map d' k = None"
      using key_in_dict [OF ok pos, of k] none by auto
    then show ?thesis
      using d'(2) find absent by (auto simp: dict_locates_def)
  qed
qed

section \<open>Updating a bucket\<close>

abbreviation with_bucket :: "('k, 'v) dict \<Rightarrow> nat \<Rightarrow> nat \<Rightarrow> ('k, 'v) chain \<Rightarrow> nat \<Rightarrow> ('k, 'v) dict" where
  "with_bucket d j i c u \<equiv>
     set_ht d j ((ht_of d j)\<lparr>ht_table := (ht_table (ht_of d j))[i := c], ht_used := u\<rparr>)"

lemma set_ht_fields [simp]:
  "dtype (set_ht d j t) = dtype d" "rehashidx (set_ht d j t) = rehashidx d" "iterators (set_ht d j t) = iterators d"
  "dictIsRehashing (set_ht d j t) = dictIsRehashing d"
  by (simp_all add: set_ht_def dictIsRehashing_def)

lemma ht_of_ok: "dict_ok d \<Longrightarrow> ht_ok (hashFunction (dtype d)) (ht_of d j)"
  using dict_okD(2,3) by (auto simp: ht_of_def)

lemma mset_with_bucket:
  assumes "dict_ok d" "i < ht_size (ht_of d j)"
  shows "mset (dict_entries (with_bucket d j i c u)) + mset (ht_table (ht_of d j) ! i) = mset (dict_entries d) + mset c"
proof -
  have "i < length (ht_table (ht_of d j))"
    using assms ht_ok_length [OF ht_of_ok [OF assms(1)]] by simp
  from mset_concat_update [OF this, of c] show ?thesis
    by (auto simp: dict_entries_def ht_of_def set_ht_def ac_simps split: if_splits)
qed

lemma dict_ok_with_bucket:
  assumes ok: "dict_ok d" and i: "i < ht_size (ht_of d j)"
    and c: "\<And>e. e \<in> set c \<Longrightarrow> ht_index (ht_of d j) (hashFunction (dtype d) (de_key e)) = i"
    and u: "u + length (ht_table (ht_of d j) ! i) = ht_used (ht_of d j) + length c"
    and e: "j = 0 \<Longrightarrow> dictIsRehashing d \<Longrightarrow> ht_table (ht0 d) ! i = [] \<Longrightarrow> c = []"
    and dist: "distinct (map de_key (dict_entries (with_bucket d j i c u)))"
  shows "dict_ok (with_bucket d j i c u)"
proof -
  note D = dict_okD [OF ok]
  let ?t = "(ht_of d j)\<lparr>ht_table := (ht_table (ht_of d j))[i := c], ht_used := u\<rparr>"
  have t: "ht_ok (hashFunction (dtype d)) ?t"
    by (rule ht_ok_update [OF ht_of_ok [OF ok] i c u])
  have len: "length (ht_table (ht_of d j)) = ht_size (ht_of d j)"
    using ht_ok_length [OF ht_of_ok [OF ok]] .
  show ?thesis
  proof (cases "j = 0")
    case True
    have "(ht_table (ht0 d))[i := c] ! m = []" if "dictIsRehashing d" "m < nat (rehashidx d)" for m
      using that D(10) e True i len by (cases "m = i") auto
    then show ?thesis
      using D t True dist by (auto simp: dict_ok_def set_ht_def dictIsRehashing_def)
  next
    case False
    then show ?thesis
      using D t dist i by (auto simp: dict_ok_def set_ht_def ht_of_def dictIsRehashing_def)
  qed
qed

lemma dict_map_insert:
  assumes "distinct (map de_key (dict_entries d))" "mset (dict_entries d') = add_mset e (mset (dict_entries d))"
    "dict_map d (de_key e) = None"
  shows "distinct (map de_key (dict_entries d'))" "dict_map d' = (dict_map d)(de_key e \<mapsto> de_val e)"
proof -
  have m: "mset (dict_entries d') = mset (e # dict_entries d)"
    using assms(2) by simp
  then have dd: "distinct (map de_key (dict_entries d')) \<longleftrightarrow> distinct (map de_key (e # dict_entries d))"
    by (intro mset_eq_imp_distinct_iff) (simp only: mset_map)
  then show "distinct (map de_key (dict_entries d'))"
    using assms(1,3) by (simp add: dict_map_None)
  then show "dict_map d' = (dict_map d)(de_key e \<mapsto> de_val e)"
    using map_of_mset_cong [of "map (\<lambda>e. (de_key e, de_val e)) (dict_entries d')"
        "map (\<lambda>e. (de_key e, de_val e)) (e # dict_entries d)"] m
    by (simp add: dict_map_def comp_def)
qed

lemma dict_map_delete:
  assumes "distinct (map de_key (dict_entries d))" "add_mset e (mset (dict_entries d')) = mset (dict_entries d)"
  shows "distinct (map de_key (dict_entries d'))" "dict_map d' = (dict_map d)(de_key e := None)"
    "dict_map d (de_key e) = Some (de_val e)" "dict_map d' (de_key e) = None"
proof -
  have m: "mset (dict_entries d) = mset (e # dict_entries d')"
    using assms(2) by simp
  then have "distinct (map de_key (e # dict_entries d'))"
    using assms(1) mset_eq_imp_distinct_iff [of "map de_key (dict_entries d)" "map de_key (e # dict_entries d')"]
    by (simp only: mset_map)
  then show dist: "distinct (map de_key (dict_entries d'))" and none: "dict_map d' (de_key e) = None"
    by (simp_all add: dict_map_None)
  have "dict_map d = (dict_map d')(de_key e \<mapsto> de_val e)"
    by (rule dict_map_insert(2) [OF dist _ none]) (use assms(2) in simp)
  then show "dict_map d' = (dict_map d)(de_key e := None)" "dict_map d (de_key e) = Some (de_val e)"
    using none by (auto simp: fun_eq_iff)
qed

section \<open>Adding a key\<close>

lemma dictKeyIndex_ok:
  assumes "dict_ok d" "dict_room d"
  shows "\<exists>idx d'. dictKeyIndex cr d k = Some (idx, d') \<and> dict_moved d d' \<and> ht_size (ht0 d') > 0 \<and>
    idx = (if dict_map d k \<noteq> None then -1
           else int (key_bucket d' (if dictIsRehashing d' then 1 else 0) k))"
proof -
  obtain d' where d': "dictExpandIfNeeded cr d = (DICT_OK, d')" "dict_moved d d'" "ht_size (ht0 d') > 0"
    using dictExpandIfNeeded_ok [OF assms] by blast
  note D = dict_okD [OF dict_movedD(1) [OF d'(2) assms(1)]]
  have ok: "dict_ok d'" and m: "dict_map d' = dict_map d"
    using dict_movedD [OF d'(2) assms(1)] by auto
  have small: "to_signed 32 (int (key_bucket d' 0 k)) = int (key_bucket d' 0 k)"
    "dictIsRehashing d' \<Longrightarrow> to_signed 32 (int (key_bucket d' 1 k)) = int (key_bucket d' 1 k)"
    using ht_index_less(2) [OF D(2) d'(3)] ht_index_less(2) [OF D(3) D(9)] by (simp_all add: to_signed_id)
  have none: "chain_find d' k c = None \<longleftrightarrow> k \<notin> de_key ` set c" for c
    by (rule chain_find_None [OF D(1)])
  have "dictKeyIndex cr d k = Some (if dict_map d k \<noteq> None then -1
      else int (key_bucket d' (if dictIsRehashing d' then 1 else 0) k), d')"
    using d'(1) bucket_at [OF ok d'(3), of k] none key_in_dict [OF ok d'(3), of k] small m
    by (auto simp: dictKeyIndex_def dictHashKey_def Let_def DICT_OK_def DICT_ERR_def)
  then show ?thesis
    using d' by blast
qed

lemma dict_locatesD:
  assumes "dict_ok d" "dict_locates d k (Some (j, i, p))"
  shows "j \<le> 1" "key_bucket d j k < ht_size (ht_of d j)" "i = int (key_bucket d j k)"
    "p < length (ht_table (ht_of d j) ! key_bucket d j k)" "de_key (ht_table (ht_of d j) ! key_bucket d j k ! p) = k"
    "key_bucket d j k < length (ht_table (ht_of d j))"
  using assms(2) ht_ok_length [OF ht_of_ok [OF assms(1)], of j] by (auto simp: dict_locates_def)

lemma dict_locates_entry:
  assumes "dict_ok d" "dict_locates d k (Some (j, i, p))"
  shows "\<exists>e. entry_get d (j, i, p) = Some e \<and> de_key e = k \<and> dict_map d k = Some (de_val e) \<and>
    e = ht_table (ht_of d j) ! key_bucket d j k ! p"
proof -
  note L = dict_locatesD [OF assms]
  let ?e = "ht_table (ht_of d j) ! key_bucket d j k ! p"
  have "?e \<in> set (concat (ht_table (ht_of d j)))"
    using nth_mem [OF L(4)] L(6) unfolding set_concat_nth by blast
  then have "?e \<in> set (dict_entries d)"
    by (auto simp: dict_entries_def ht_of_def split: if_splits)
  moreover have "?e = \<lparr>de_key = k, de_val = de_val ?e\<rparr>"
    using L(5) by (intro dictEntry.equality) simp_all
  ultimately have "dict_map d k = Some (de_val ?e)"
    unfolding dict_map_Some [OF dict_okD(4) [OF assms(1)]] by (simp only:)
  then show ?thesis
    using L by (simp add: entry_get_def)
qed

lemma dict_map_replace:
  assumes dist: "distinct (map de_key (dict_entries d))" and e: "e \<in> set (dict_entries d)" "de_key e' = de_key e"
    and m: "add_mset e (mset (dict_entries d')) = add_mset e' (mset (dict_entries d))"
  shows "distinct (map de_key (dict_entries d'))" "dict_map d' = (dict_map d)(de_key e \<mapsto> de_val e')"
proof -
  let ?es = "remove1 e (dict_entries d)" and ?kv = "\<lambda>e :: ('a, 'b) dictEntry. (de_key e, de_val e)"
  have old: "mset (dict_entries d) = mset (e # ?es)"
    using e(1) by simp
  have "add_mset e (mset (dict_entries d')) = add_mset e (mset (e' # ?es))"
    unfolding m old by (simp add: add_mset_commute)
  then have new: "mset (dict_entries d') = mset (e' # ?es)"
    by simp
  have de: "distinct (map de_key (e # ?es))"
    using dist mset_eq_imp_distinct_iff [of "map de_key (dict_entries d)" "map de_key (e # ?es)"] old
    by (simp only: mset_map)
  then have de': "distinct (map de_key (e' # ?es))"
    using e(2) by simp
  then show "distinct (map de_key (dict_entries d'))"
    using mset_eq_imp_distinct_iff [of "map de_key (dict_entries d')" "map de_key (e' # ?es)"] new
    by (simp only: mset_map)
  have "dict_map d = map_of (map ?kv (e # ?es))"
    unfolding dict_map_def using old dist by (intro map_of_mset_cong) (simp_all only: mset_map map_map comp_def fst_conv)
  moreover have "dict_map d' = map_of (map ?kv (e' # ?es))"
    unfolding dict_map_def using new de'
    by (intro map_of_mset_cong [symmetric]) (simp_all only: mset_map map_map comp_def fst_conv)
  ultimately show "dict_map d' = (dict_map d)(de_key e \<mapsto> de_val e')"
    using e(2) by simp
qed

lemma mset_exchange:
  fixes A :: "'x multiset"
  assumes "N' + C = N + C'" "C' + A = C + B"
  shows "N' + A = N + B"
proof -
  have "(N' + A) + C = (N' + C) + A"
    by (simp only: ac_simps)
  also have "\<dots> = N + (C' + A)"
    unfolding assms(1) by (simp only: ac_simps)
  also have "\<dots> = (N + B) + C"
    unfolding assms(2) by (simp only: ac_simps)
  finally show ?thesis
    by simp
qed

lemma entry_set_val_ok:
  assumes "dict_ok d" "dict_locates d k (Some r)"
  shows "\<exists>d'. entry_set_val d r v = Some d' \<and> dict_ok d' \<and> dtype d' = dtype d \<and> iterators d' = iterators d \<and>
    dict_map d' = (dict_map d)(k \<mapsto> v)"
proof -
  obtain j i p where r: "r = (j, i, p)"
    by (cases r)
  note L = dict_locatesD [OF assms [unfolded r]]
  let ?b = "key_bucket d j k"
  let ?c = "ht_table (ht_of d j) ! ?b"
  let ?e = "?c ! p" and ?e' = "(?c ! p)\<lparr>de_val := v\<rparr>"
  let ?d = "with_bucket d j ?b (?c[p := ?e']) (ht_used (ht_of d j))"
  have e: "?e \<in> set (dict_entries d)"
    using nth_mem [OF L(4)] L(6) set_concat_nth [of "ht_table (ht_of d j)"]
    by (auto simp: dict_entries_def ht_of_def split: if_splits)
  have "mset (?c[p := ?e']) + {#?e#} = mset ?c + {#?e'#}"
    using L(4) by (simp add: mset_update)
  then have "mset (dict_entries ?d) + {#?e#} = mset (dict_entries d) + {#?e'#}"
    by (rule mset_exchange [OF mset_with_bucket [OF assms(1) L(2)]])
  then have m: "add_mset ?e (mset (dict_entries ?d)) = add_mset ?e' (mset (dict_entries d))"
    by simp
  have "de_key ?e' = de_key ?e"
    by simp
  note R = dict_map_replace [OF dict_okD(4) [OF assms(1)] e this m]
  have "dict_ok ?d"
  proof (rule dict_ok_with_bucket [OF assms(1) L(2)])
    show "ht_index (ht_of d j) (hashFunction (dtype d) (de_key x)) = ?b" if "x \<in> set (?c[p := ?e'])" for x
      using that L(5) ht_okD(5) [OF ht_of_ok [OF assms(1)], of j ?b x] L(2) set_update_subset_insert [of ?c p ?e'] by auto
  qed (use L(4) R(1) in auto)
  moreover have "entry_set_val d r v = Some ?d"
    using L r dictType_ok_simps(3) [OF dict_okD(1) [OF assms(1)]] by (simp add: entry_set_val_def)
  ultimately show ?thesis
    using R(2) L(5) by simp
qed

lemma dictAddRaw_ok:
  assumes "dict_ok d" "dict_room d"
  shows "\<exists>r d'. dictAddRaw cr junk d k = Some (r, d') \<and> dict_ok d' \<and> dtype d' = dtype d \<and> iterators d' = iterators d \<and>
    (if dict_map d k \<noteq> None then r = None \<and> dict_map d' = dict_map d
     else r \<noteq> None \<and> dict_locates d' k r \<and> dict_map d' = (dict_map d)(k \<mapsto> junk))"
proof -
  obtain d1 where d1: "(if dictIsRehashing d then dictRehashStep d else Some d) = Some d1" "dict_moved d d1"
    using rehash_first_ok [OF assms(1)] by blast
  have ok1: "dict_ok d1" and room1: "dict_room d1" and m1: "dict_map d1 = dict_map d"
    using dict_movedD [OF d1(2) assms(1)] assms(2) by (auto simp: dict_room_def)
  obtain idx d2 where d2: "dictKeyIndex cr d1 k = Some (idx, d2)" "dict_moved d1 d2" "ht_size (ht0 d2) > 0"
    "idx = (if dict_map d1 k \<noteq> None then -1 else int (key_bucket d2 (if dictIsRehashing d2 then 1 else 0) k))"
    using dictKeyIndex_ok [OF ok1 room1] by blast
  have M: "dict_ok d2" "dtype d2 = dtype d" "iterators d2 = iterators d" "dict_map d2 = dict_map d"
    using dict_movedD [OF d2(2) ok1] dict_movedD [OF d1(2) assms(1)] by auto
  note D = dict_okD [OF M(1)]
  show ?thesis
  proof (cases "dict_map d k = None")
    case False
    then show ?thesis
      using d1(1) d2(1,4) m1 M by (simp add: dictAddRaw_def)
  next
    case True
    define j where "j = (if dictIsRehashing d2 then 1 else 0 :: nat)"
    let ?b = "key_bucket d2 j k"
    let ?c = "ht_table (ht_of d2 j) ! ?b" and ?e = "\<lparr>de_key = k, de_val = junk\<rparr>"
    let ?d = "with_bucket d2 j ?b (?e # ?c) (ht_used (ht_of d2 j) + 1)"
    have size: "ht_size (ht_of d2 j) > 0"
      using d2(3) D(9) by (simp add: j_def)
    have b: "?b < ht_size (ht_of d2 j)" "?b < length (ht_table (ht_of d2 j))"
      using ht_index_less(1) [OF ht_of_ok [OF M(1)] size] ht_ok_length [OF ht_of_ok [OF M(1)]] by auto
    have "mset (dict_entries ?d) + {#} = mset (dict_entries d2) + {#?e#}"
      by (rule mset_exchange [OF mset_with_bucket [OF M(1) b(1)]]) simp
    then have m: "mset (dict_entries ?d) = add_mset ?e (mset (dict_entries d2))"
      by simp
    note I = dict_map_insert [OF D(4) m, simplified, OF True [folded M(4)]]
    have "dict_ok ?d"
    proof (rule dict_ok_with_bucket [OF M(1) b(1)])
      show "ht_index (ht_of d2 j) (hashFunction (dtype d2) (de_key x)) = ?b" if "x \<in> set (?e # ?c)" for x
        using that ht_okD(5) [OF ht_of_ok [OF M(1)] size b(1), of x] by auto
    qed (use I(1) in \<open>auto simp: j_def\<close>)
    moreover have "dictAddRaw cr junk d k = Some (Some (j, int ?b, 0), ?d)"
      using d1(1) d2(1) d2(4) [folded j_def] m1 True b dictType_ok_simps(2) [OF D(1)]
      by (simp add: dictAddRaw_def Let_def flip: j_def)
    moreover have "dict_locates ?d k (Some (j, int ?b, 0))"
      using b by (auto simp: dict_locates_def set_ht_def ht_of_def ht_index_def j_def)
    ultimately show ?thesis
      using I(2) M True by auto
  qed
qed

lemma dictAdd_ok:
  assumes "dict_ok d" "dict_room d"
  shows "\<exists>rc d'. dictAdd cr junk d k v = Some (rc, d') \<and> dict_ok d' \<and> dtype d' = dtype d \<and> iterators d' = iterators d \<and>
    (if dict_map d k \<noteq> None then rc = DICT_ERR \<and> dict_map d' = dict_map d
     else rc = DICT_OK \<and> dict_map d' = (dict_map d)(k \<mapsto> v))"
proof -
  obtain r d1 where d1: "dictAddRaw cr junk d k = Some (r, d1)" "dict_ok d1" "dtype d1 = dtype d" "iterators d1 = iterators d"
    "if dict_map d k \<noteq> None then r = None \<and> dict_map d1 = dict_map d
     else r \<noteq> None \<and> dict_locates d1 k r \<and> dict_map d1 = (dict_map d)(k \<mapsto> junk)"
    using dictAddRaw_ok [OF assms, of cr junk k] by (elim exE conjE) (rule that)
  show ?thesis
  proof (cases "dict_map d k = None")
    case False
    then show ?thesis
      using d1 by (simp add: dictAdd_def)
  next
    case True
    then obtain x where x: "r = Some x" "dict_locates d1 k (Some x)"
      using d1(5) by auto
    then show ?thesis
      using entry_set_val_ok [OF d1(2) x(2), of v] d1 True by (auto simp: dictAdd_def)
  qed
qed

lemma dictReplace_ok:
  assumes "dict_ok d" "dict_room d"
  shows "\<exists>d'. dictReplace cr junk d k v = Some (if dict_map d k = None then 1 else 0, d') \<and> dict_ok d' \<and>
    dtype d' = dtype d \<and> iterators d' = iterators d \<and> dict_map d' = (dict_map d)(k \<mapsto> v)"
proof -
  obtain rc d1 where d1: "dictAdd cr junk d k v = Some (rc, d1)" "dict_ok d1" "dtype d1 = dtype d" "iterators d1 = iterators d"
    "if dict_map d k \<noteq> None then rc = DICT_ERR \<and> dict_map d1 = dict_map d
     else rc = DICT_OK \<and> dict_map d1 = (dict_map d)(k \<mapsto> v)"
    using dictAdd_ok [OF assms, of cr junk k v] by (elim exE conjE) (rule that)
  show ?thesis
  proof (cases "dict_map d k = None")
    case True
    then show ?thesis
      using d1 by (simp add: dictReplace_def)
  next
    case False
    obtain r d2 where d2: "dictFind d1 k = Some (r, d2)" "dict_moved d1 d2" "dict_locates d2 k r"
      using dictFind_ok [OF d1(2)] by blast
    note M = dict_movedD [OF d2(2) d1(2)]
    have "r \<noteq> None"
      using d2(3) M(3) d1(5) False by (cases r) (auto simp: dict_locates_def)
    then obtain x where x: "r = Some x"
      by blast
    obtain d3 where "entry_set_val d2 x v = Some d3" "dict_ok d3" "dtype d3 = dtype d2" "iterators d3 = iterators d2"
      "dict_map d3 = (dict_map d2)(k \<mapsto> v)"
      using entry_set_val_ok [OF M(1) d2(3) [unfolded x]] by blast
    then show ?thesis
      using d1 d2(1) M False x by (simp add: dictReplace_def DICT_OK_def DICT_ERR_def)
  qed
qed

lemma dictFetchValue_ok:
  assumes "dict_ok d"
  shows "\<exists>d'. dictFetchValue d k = Some (dict_map d k, d') \<and> dict_moved d d'"
proof -
  obtain r d1 where d1: "dictFind d k = Some (r, d1)" "dict_moved d d1" "dict_locates d1 k r"
    using dictFind_ok [OF assms] by blast
  note M = dict_movedD [OF d1(2) assms]
  show ?thesis
  proof (cases r)
    case None
    then show ?thesis
      using d1 M by (simp add: dictFetchValue_def dict_locates_def)
  next
    case (Some x)
    then show ?thesis
      using d1 M dict_locates_entry [OF M(1), of k] by (cases x) (fastforce simp: dictFetchValue_def)
  qed
qed

section \<open>Deletion\<close>

lemma mset_chain_unlink: "p < length c \<Longrightarrow> add_mset (c ! p) (mset (chain_unlink c p)) = mset c"
proof -
  assume "p < length c"
  then have "c = take p c @ c ! p # drop (Suc p) c"
    by (rule id_take_nth_drop)
  then have "mset c = mset (take p c @ c ! p # drop (Suc p) c)"
    by simp
  then show ?thesis
    by (simp add: chain_unlink_def)
qed

lemma dictUnlinkAt_ok:
  assumes "dict_ok d" "dict_locates d k (Some (j, i, p))"
  shows "\<exists>d'. dictUnlinkAt d j i (ht_table (ht_of d j) ! key_bucket d j k) p = Some d' \<and> dict_ok d' \<and>
    dtype d' = dtype d \<and> iterators d' = iterators d \<and> dict_map d' = (dict_map d)(k := None)"
proof -
  note L = dict_locatesD [OF assms]
  let ?b = "key_bucket d j k"
  let ?c = "ht_table (ht_of d j) ! ?b"
  let ?d = "with_bucket d j ?b (chain_unlink ?c p) (ht_used (ht_of d j) - 1)"
  note U = mset_chain_unlink [OF L(4)]
  have "mset (dict_entries ?d) + {#?c ! p#} = mset (dict_entries d) + {#}"
    by (rule mset_exchange [OF mset_with_bucket [OF assms(1) L(2)]]) (use U in simp)
  then have m: "add_mset (?c ! p) (mset (dict_entries ?d)) = mset (dict_entries d)"
    by simp
  note X = dict_map_delete [OF dict_okD(4) [OF assms(1)] m]
  have sub: "set (chain_unlink ?c p) \<subseteq> set ?c"
    using mset_eq_setD [of "?c ! p # chain_unlink ?c p" ?c] U by auto
  have len: "length ?c = Suc (length (chain_unlink ?c p))"
    using arg_cong [OF U, of size] by simp
  have "length ?c \<le> ht_used (ht_of d j)"
    using ht_ok_used [OF ht_of_ok [OF assms(1)], of j] arg_cong [OF mset_concat_update [OF L(6), of "[]"], of size] by simp
  then have used: "ht_used (ht_of d j) > 0"
    using L(4) by linarith
  have "dict_ok ?d"
  proof (rule dict_ok_with_bucket [OF assms(1) L(2)])
    show "ht_index (ht_of d j) (hashFunction (dtype d) (de_key x)) = ?b" if "x \<in> set (chain_unlink ?c p)" for x
      using that sub ht_okD(5) [OF ht_of_ok [OF assms(1)] _ L(2), of x] L(2) by auto
    show "chain_unlink ?c p = []" if "j = 0" "ht_table (ht0 d) ! ?b = []"
      using that L(4) by simp
  qed (use X(1) used len in auto)
  moreover have "dictUnlinkAt d j i ?c p = Some ?d"
    using L by (simp add: dictUnlinkAt_def)
  ultimately show ?thesis
    using X(2) L(5) by simp
qed

text \<open>Deletion is a lookup followed by the removal of what it found.\<close>

lemma dictGenericDelete_find:
  "dictGenericDelete d k nofree = do {
     (r, d) \<leftarrow> dictFind d k;
     case r of
       None \<Rightarrow> Some (DICT_ERR, [], d)
     | Some (j, i, p) \<Rightarrow> do {
         c \<leftarrow> ht_at (ht_of d j) i;
         d \<leftarrow> dictUnlinkAt d j i c p;
         Some (DICT_OK, if nofree then [] else [c ! p], d) } }"
  by (auto simp: dictGenericDelete_def dictFind_def Let_def split: option.split bind_splits)

lemma dictGenericDelete_ok:
  assumes "dict_ok d"
  shows "\<exists>freed d'. dictGenericDelete d k nofree =
      Some (if dict_map d k = None then DICT_ERR else DICT_OK, freed, d') \<and>
    dict_ok d' \<and> dtype d' = dtype d \<and> iterators d' = iterators d \<and> dict_map d' = (dict_map d)(k := None) \<and>
    freed = (case dict_map d k of Some v \<Rightarrow> if nofree then [] else [\<lparr>de_key = k, de_val = v\<rparr>] | None \<Rightarrow> [])"
proof -
  obtain r d1 where d1: "dictFind d k = Some (r, d1)" "dict_moved d d1" "dict_locates d1 k r"
    using dictFind_ok [OF assms] by blast
  note M = dict_movedD [OF d1(2) assms]
  show ?thesis
  proof (cases r)
    case None
    then have "dict_map d k = None"
      using d1(3) M(3) by (simp add: dict_locates_def)
    then show ?thesis
      using None d1(1) M by (simp add: dictGenericDelete_find fun_upd_idem)
  next
    case (Some x)
    obtain j i p where x: "x = (j, i, p)"
      by (cases x)
    note loc = d1(3) [unfolded Some x]
    note L = dict_locatesD [OF M(1) loc]
    let ?c = "ht_table (ht_of d1 j) ! key_bucket d1 j k"
    obtain d2 where d2: "dictUnlinkAt d1 j i ?c p = Some d2" "dict_ok d2" "dtype d2 = dtype d1"
      "iterators d2 = iterators d1" "dict_map d2 = (dict_map d1)(k := None)"
      using dictUnlinkAt_ok [OF M(1) loc] by blast
    have e: "de_key (?c ! p) = k" "dict_map d k = Some (de_val (?c ! p))"
      using dict_locates_entry [OF M(1) loc] M(3) by auto
    have "?c ! p = \<lparr>de_key = k, de_val = de_val (?c ! p)\<rparr>"
      using e(1) by (intro dictEntry.equality) simp_all
    moreover have "dictGenericDelete d k nofree = Some (DICT_OK, if nofree then [] else [?c ! p], d2)"
      using d1(1) Some x d2(1) L by (simp add: dictGenericDelete_find)
    ultimately show ?thesis
      using d2 M e(2) by simp
  qed
qed

section \<open>Destruction\<close>

lemma dictClear_loop_ok:
  assumes "length (ht_table t) = ht_size t" "used = length (concat (drop i (ht_table t)))"
  shows "dictClear_loop t i used = Some (concat (drop i (ht_table t)))"
  using assms
proof (induction t i used rule: dictClear_loop.induct)
  case (1 t i used)
  show ?case
  proof (cases "i < ht_size t \<and> used > 0")
    case True
    then have d: "drop i (ht_table t) = ht_table t ! i # drop (i + 1) (ht_table t)"
      using "1.prems"(1) by (simp add: Cons_nth_drop_Suc)
    then have "dictClear_loop t (i + 1) (used - length (ht_table t ! i)) = Some (concat (drop (i + 1) (ht_table t)))"
      using True "1.prems" "1.IH" by simp
    then show ?thesis
      using True d "1.prems"(1) unfolding dictClear_loop.simps [of t i used] by simp
  next
    case False
    then have "concat (drop i (ht_table t)) = []"
      using "1.prems" by (cases "i < ht_size t") auto
    then show ?thesis
      using False unfolding dictClear_loop.simps [of t i used] by auto
  qed
qed

lemma dictClear_ok: "ht_ok H t \<Longrightarrow> dictClear t = Some (concat (ht_table t), dictReset)"
  using dictClear_loop_ok [of t "ht_used t" 0] by (simp add: dictClear_def ht_ok_length ht_ok_used)

end
