(* ===== verification/Dict_Refinement.thy ===== *)
theory Dict_Refinement
  imports Dict
begin

text \<open>
  The hash table of \<open>Dict\<close> as an implementation of a partial map: histories of calls, completion
  of incremental rehashing, and the properties of the single operations.
\<close>

section \<open>Size\<close>

lemma dictSize_card:
  assumes "dict_ok d"
  shows "dictSize d = card (dom (dict_map d))" "finite (dom (dict_map d))"
proof -
  note D = dict_okD [OF assms]
  have dom: "dom (dict_map d) = set (map de_key (dict_entries d))"
    using dict_map_None [of d] by (auto simp: dom_def)
  then show "finite (dom (dict_map d))"
    by simp
  have "dictSize d = length (map de_key (dict_entries d))"
    using ht_ok_used [OF D(2)] ht_ok_used [OF D(3)] by (simp add: dictSize_def dict_entries_def)
  also have "\<dots> = card (dom (dict_map d))"
    unfolding dom by (rule distinct_card [OF D(4), symmetric])
  finally show "dictSize d = card (dom (dict_map d))" .
qed

lemma dict_ok_create: "dictType_ok ty \<Longrightarrow> dict_ok (dictCreate ty)" "dict_map (dictCreate ty) = (\<lambda>_. None)"
  by (simp_all add: dictCreate_def dictInit_def dict_ok_def dictIsRehashing_def dict_entries_def dict_map_def)

lemma dictCreate_fields [simp]:
  "ht0 (dictCreate ty) = dictReset" "ht1 (dictCreate ty) = dictReset" "dictSize (dictCreate ty) = 0"
  by (simp_all add: dictCreate_def dictInit_def dictSize_def)

section \<open>Histories\<close>

text \<open>
  The calls a client makes, with the resize switch of the module as part of the state, and the
  same calls on a partial map. Results that a map does not determine are not compared.
\<close>

datatype ('k, 'v) dict_op =
  OpAdd 'k 'v | OpReplace 'k 'v | OpDelete 'k | OpFetch 'k | OpRehash nat | OpResize | OpEmpty
| OpEnableResize | OpDisableResize

datatype 'v dict_result = Code nat | Fetched "'v option" | Unspecified

fun dict_exec ::
  "'v \<Rightarrow> bool \<times> ('k, 'v) dict \<Rightarrow> ('k, 'v) dict_op \<Rightarrow> ('v dict_result \<times> bool \<times> ('k, 'v) dict) option" where
  "dict_exec junk (cr, d) (OpAdd k v) = map_option (\<lambda>(rc, d). (Code rc, cr, d)) (dictAdd cr junk d k v)"
| "dict_exec junk (cr, d) (OpReplace k v) = map_option (\<lambda>(rc, d). (Code rc, cr, d)) (dictReplace cr junk d k v)"
| "dict_exec junk (cr, d) (OpDelete k) = map_option (\<lambda>(rc, _, d). (Code rc, cr, d)) (dictDelete d k)"
| "dict_exec junk (cr, d) (OpFetch k) = map_option (\<lambda>(v, d). (Fetched v, cr, d)) (dictFetchValue d k)"
| "dict_exec junk (cr, d) (OpRehash n) = map_option (\<lambda>(_, d). (Unspecified, cr, d)) (dictRehash d n)"
| "dict_exec junk (cr, d) OpResize = Some (Unspecified, cr, snd (dictResize cr d))"
| "dict_exec junk (cr, d) OpEmpty = map_option (\<lambda>(_, d). (Unspecified, cr, d)) (dictEmpty d)"
| "dict_exec junk (cr, d) OpEnableResize = Some (Unspecified, dictEnableResize cr, d)"
| "dict_exec junk (cr, d) OpDisableResize = Some (Unspecified, dictDisableResize cr, d)"

fun map_exec :: "('k \<Rightarrow> 'v option) \<Rightarrow> ('k, 'v) dict_op \<Rightarrow> 'v dict_result \<times> ('k \<Rightarrow> 'v option)" where
  "map_exec m (OpAdd k v) = (if m k = None then (Code DICT_OK, m(k \<mapsto> v)) else (Code DICT_ERR, m))"
| "map_exec m (OpReplace k v) = (Code (if m k = None then 1 else 0), m(k \<mapsto> v))"
| "map_exec m (OpDelete k) = (Code (if m k = None then DICT_ERR else DICT_OK), m(k := None))"
| "map_exec m (OpFetch k) = (Fetched (m k), m)"
| "map_exec m OpEmpty = (Unspecified, \<lambda>_. None)"
| "map_exec m _ = (Unspecified, m)"

fun dict_run ::
  "'v \<Rightarrow> bool \<times> ('k, 'v) dict \<Rightarrow> ('k, 'v) dict_op list \<Rightarrow> ('v dict_result list \<times> bool \<times> ('k, 'v) dict) option" where
  "dict_run junk s [] = Some ([], s)"
| "dict_run junk s (p # ps) =
     (case dict_exec junk s p of
        None \<Rightarrow> None
      | Some (r, s) \<Rightarrow> map_option (\<lambda>(rs, s). (r # rs, s)) (dict_run junk s ps))"

fun map_run :: "('k \<Rightarrow> 'v option) \<Rightarrow> ('k, 'v) dict_op list \<Rightarrow> 'v dict_result list \<times> ('k \<Rightarrow> 'v option)" where
  "map_run m [] = ([], m)"
| "map_run m (p # ps) = (let (r, m) = map_exec m p; (rs, m) = map_run m ps in (r # rs, m))"

lemma dictResize_ok:
  assumes "dict_ok d"
  shows "dict_moved d (snd (dictResize cr d))"
proof -
  let ?m = "to_signed 32 (int (ht_used (ht0 d)))"
  have "?m < 2 ^ 31"
    using to_signed_range [of 32 "int (ht_used (ht0 d))"] by simp
  then have "nat (if ?m < int DICT_HT_INITIAL_SIZE then int DICT_HT_INITIAL_SIZE else ?m) \<le> 2 ^ 31"
    by (simp add: DICT_HT_INITIAL_SIZE_def nat_le_iff)
  then show ?thesis
    using dictExpand_ok(1) [OF assms] dict_moved_refl [OF assms] by (simp add: dictResize_def Let_def)
qed

lemma dictEmpty_ok:
  assumes "dict_ok d"
  shows "\<exists>d'. dictEmpty d = Some (dict_entries d, d') \<and> dict_ok d' \<and> dict_map d' = (\<lambda>_. None) \<and> dtype d' = dtype d"
  using dict_okD [OF assms] dictClear_ok [OF dict_okD(2) [OF assms]] dictClear_ok [OF dict_okD(3) [OF assms]]
  by (simp add: dictEmpty_def dict_entries_def dict_ok_def dictIsRehashing_def dict_map_def)

lemma dict_exec_refines:
  assumes "dict_ok d" "dict_room d"
  shows "\<exists>r cr' d'. dict_exec junk (cr, d) p = Some (r, cr', d') \<and> dict_ok d' \<and>
    map_exec (dict_map d) p = (r, dict_map d')"
proof (cases p)
  case (OpAdd k v)
  then show ?thesis
    using dictAdd_ok [OF assms, of cr junk k v] by (auto split: if_splits)
next
  case (OpReplace k v)
  then show ?thesis
    using dictReplace_ok [OF assms, of cr junk k v] by auto
next
  case (OpDelete k)
  then show ?thesis
    using dictGenericDelete_ok [OF assms(1), of k False] by (auto simp: dictDelete_def)
next
  case (OpFetch k)
  obtain d' where d': "dictFetchValue d k = Some (dict_map d k, d')" "dict_moved d d'"
    using dictFetchValue_ok [OF assms(1)] by blast
  then show ?thesis
    using OpFetch dict_movedD [OF d'(2) assms(1)] by simp
next
  case (OpRehash n)
  obtain rc d' where d': "dictRehash d n = Some (rc, d')" "dict_moved d d'"
    using dictRehash_ok [OF assms(1), of n] by blast
  then show ?thesis
    using OpRehash dict_movedD [OF d'(2) assms(1)] by simp
next
  case OpResize
  then show ?thesis
    using dict_movedD [OF dictResize_ok [OF assms(1), of cr] assms(1)] by simp
next
  case OpEmpty
  then show ?thesis
    using dictEmpty_ok [OF assms(1)] by auto
qed (use assms in simp_all)

lemma map_exec_card:
  assumes "finite (dom m)"
  shows "finite (dom (snd (map_exec m p)))" "card (dom (snd (map_exec m p))) \<le> Suc (card (dom m))"
proof -
  define k where "k = (case p of OpAdd k v \<Rightarrow> k | OpReplace k v \<Rightarrow> k | _ \<Rightarrow> undefined)"
  have k: "dom (snd (map_exec m p)) \<subseteq> insert k (dom m)"
    by (cases p) (auto simp: k_def split: if_splits)
  then show "finite (dom (snd (map_exec m p)))"
    using assms finite_subset by blast
  show "card (dom (snd (map_exec m p))) \<le> Suc (card (dom m))"
    using card_mono [OF _ k] assms card_insert_if [OF assms, of k] by (auto split: if_splits)
qed

lemma dict_run_refines:
  assumes "dict_ok d" "dictSize d + length ps \<le> 2 ^ 30"
  shows "\<exists>rs cr' d'. dict_run junk (cr, d) ps = Some (rs, cr', d') \<and> dict_ok d' \<and>
    map_run (dict_map d) ps = (rs, dict_map d')"
  using assms
proof (induction ps arbitrary: cr d)
  case (Cons p ps)
  have "dict_room d"
    using Cons.prems(2) by (simp add: dict_room_def)
  then obtain r cr1 d1 where d1: "dict_exec junk (cr, d) p = Some (r, cr1, d1)" "dict_ok d1"
    "map_exec (dict_map d) p = (r, dict_map d1)"
    using dict_exec_refines [OF Cons.prems(1)] by blast
  have "dictSize d1 \<le> Suc (dictSize d)"
    using map_exec_card(2) [OF dictSize_card(2) [OF Cons.prems(1)], of p] d1(3)
      dictSize_card(1) [OF d1(2)] dictSize_card(1) [OF Cons.prems(1)] by simp
  then obtain rs cr2 d2 where "dict_run junk (cr1, d1) ps = Some (rs, cr2, d2)" "dict_ok d2"
    "map_run (dict_map d1) ps = (rs, dict_map d2)"
    using Cons.IH [OF d1(2)] Cons.prems(2) by fastforce
  then show ?case
    using d1 by simp
qed simp

section \<open>Progress of rehashing\<close>

text \<open>Calls \<open>dictRehash(d, 1)\<close> made one after the other.\<close>

fun rehash_calls :: "nat \<Rightarrow> ('k, 'v) dict \<Rightarrow> ('k, 'v) dict option" where
  "rehash_calls 0 d = Some d"
| "rehash_calls (Suc n) d = do { (_, d) \<leftarrow> dictRehash d 1; rehash_calls n d }"

lemma rehash_calls_idle: "\<not> dictIsRehashing d \<Longrightarrow> rehash_calls n d = Some d"
  by (induction n) (simp_all add: dictRehash_def)

lemma rehash_calls_ok:
  assumes "dict_ok d" "dictIsRehashing d \<Longrightarrow> int (ht_size (ht0 d)) < rehashidx d + int n"
  shows "\<exists>d'. rehash_calls n d = Some d' \<and> \<not> dictIsRehashing d' \<and> dict_moved d d'"
  using assms
proof (induction n arbitrary: d)
  case 0
  then show ?case
    using dict_okD(7) [OF "0.prems"(1)] dict_moved_refl by fastforce
next
  case (Suc n)
  obtain rc d1 where d1: "dictRehash d 1 = Some (rc, d1)" "dict_moved d d1"
    "dictIsRehashing d1 \<longrightarrow> dictIsRehashing d \<and> ht_size (ht0 d1) = ht_size (ht0 d) \<and>
       ht_size (ht1 d1) = ht_size (ht1 d) \<and> (0 < (1 :: nat) \<longrightarrow> rehashidx d < rehashidx d1)"
    using dictRehash_ok [OF Suc.prems(1), of 1] by (elim exE conjE) (rule that)
  have "dict_ok d1"
    by (rule dict_movedD(1) [OF d1(2) Suc.prems(1)])
  moreover have "int (ht_size (ht0 d1)) < rehashidx d1 + int n" if "dictIsRehashing d1"
    using that d1(3) Suc.prems(2) by auto
  ultimately obtain d' where "rehash_calls n d1 = Some d'" "\<not> dictIsRehashing d'" "dict_moved d1 d'"
    using Suc.IH [of d1] by blast
  then show ?case
    using d1(1) dict_moved_trans [OF d1(2)] by simp
qed

section \<open>Properties\<close>

text \<open>A dictionary type with pointer keys and no callbacks, for the examples below.\<close>

definition plainDictType :: "(nat, nat) dictType" where
  "plainDictType = \<lparr>hashFunction = of_nat, keyDup = None, valDup = None, keyCompare = None\<rparr>"

lemma plainDictType_ok: "dictType_ok plainDictType"
  by (simp add: plainDictType_def dictType_ok_def)

text \<open>C1:
  The hash table implements a partial map. Take any history of \<open>dictAdd\<close>, \<open>dictReplace\<close>,
  \<open>dictDelete\<close>, \<open>dictFetchValue\<close>, \<open>dictRehash\<close>, \<open>dictResize\<close>, \<open>dictEmpty\<close> and of
  \<open>dictEnableResize\<close> and \<open>dictDisableResize\<close> on a new dictionary, with any hash function. No call
  accesses a bucket outside its table or fails an assertion, every result is the one the same
  operation has on a partial map, and the dictionary ends well-formed and representing that
  map. The history has at most 2^30 calls, so that bucket numbers fit the \<open>int\<close> that
  \<open>_dictKeyIndex\<close> returns.
\<close>

theorem dict_history_refines_map:
  assumes "dictType_ok ty" "length ps \<le> 2 ^ 30"
  shows "\<exists>rs cr' d'. dict_run junk (cr, dictCreate ty) ps = Some (rs, cr', d') \<and> dict_ok d' \<and>
    map_run (\<lambda>_. None) ps = (rs, dict_map d')"
  using dict_run_refines [OF dict_ok_create(1) [OF assms(1)], of ps junk cr] assms(2)
  by (simp add: dict_ok_create(2))

theorem dict_history_refines_map_witness:
  "\<exists>cr' d'. dict_run 0 (True, dictCreate plainDictType)
     [OpAdd 1 10, OpAdd 1 20, OpFetch 1, OpReplace 1 30, OpAdd 5 50, OpDelete 1, OpFetch 1, OpFetch 5] =
     Some ([Code 0, Code 1, Fetched (Some 10), Code 0, Code 0, Code 0, Fetched None, Fetched (Some 50)], cr', d')"
  using dict_history_refines_map [OF plainDictType_ok,
      of "[OpAdd 1 10, OpAdd 1 20, OpFetch 1, OpReplace 1 30, OpAdd 5 50, OpDelete 1, OpFetch 1, OpFetch 5]" 0 True]
  by (auto simp: DICT_OK_def DICT_ERR_def)

text \<open>C6:
  Adding a key succeeds exactly when it is absent, and then only that key changes; a key that is
  present makes \<open>dictAdd\<close> fail without changing what is stored. The well-formedness of the table
  is kept: entry counts, the bucket of every entry, distinct keys, the empty prefix during
  rehashing.
\<close>

theorem dictAdd_correct:
  assumes "dict_ok d" "dictSize d \<le> 2 ^ 30"
  shows "\<exists>rc d'. dictAdd cr junk d k v = Some (rc, d') \<and> dict_ok d' \<and>
    (if dict_map d k = None then rc = DICT_OK \<and> dict_map d' = (dict_map d)(k \<mapsto> v) \<and> dictSize d' = dictSize d + 1
     else rc = DICT_ERR \<and> dict_map d' = dict_map d \<and> dictSize d' = dictSize d)"
proof -
  obtain rc d' where d': "dictAdd cr junk d k v = Some (rc, d')" "dict_ok d'"
    "if dict_map d k \<noteq> None then rc = DICT_ERR \<and> dict_map d' = dict_map d
     else rc = DICT_OK \<and> dict_map d' = (dict_map d)(k \<mapsto> v)"
    using dictAdd_ok [of d cr junk k v] assms unfolding dict_room_def by blast
  have "card (dom (dict_map d')) = card (dom (dict_map d)) + (if dict_map d k = None then 1 else 0)"
    using d'(3) dictSize_card(2) [OF assms(1)] by (auto simp: card_insert_if)
  then show ?thesis
    using d' dictSize_card(1) [OF d'(2)] dictSize_card(1) [OF assms(1)] by auto
qed

theorem dictAdd_correct_witness:
  "\<exists>rc d'. dictAdd True 0 (dictCreate plainDictType) 7 70 = Some (rc, d') \<and> rc = DICT_OK \<and> dict_map d' 7 = Some 70"
  using dictAdd_correct [OF dict_ok_create(1) [OF plainDictType_ok], of True 0 7 70]
  by (auto simp: dict_ok_create(2))

text \<open>C7:
  Deleting a key removes it and only it, reports whether it was there, and calls the
  destructors on exactly the entry removed (\<open>dictDelete\<close>) or on none (\<open>dictDeleteNoFree\<close>).
\<close>

theorem dictDelete_correct:
  assumes "dict_ok d"
  shows "(\<exists>freed d'. dictDelete d k = Some (if dict_map d k = None then DICT_ERR else DICT_OK, freed, d') \<and>
      dict_ok d' \<and> dict_map d' = (dict_map d)(k := None) \<and>
      freed = (case dict_map d k of Some v \<Rightarrow> [\<lparr>de_key = k, de_val = v\<rparr>] | None \<Rightarrow> [])) \<and>
    (\<exists>d'. dictDeleteNoFree d k = Some (if dict_map d k = None then DICT_ERR else DICT_OK, [], d') \<and>
      dict_ok d' \<and> dict_map d' = (dict_map d)(k := None))"
proof
  show "\<exists>freed d'. dictDelete d k = Some (if dict_map d k = None then DICT_ERR else DICT_OK, freed, d') \<and>
      dict_ok d' \<and> dict_map d' = (dict_map d)(k := None) \<and>
      freed = (case dict_map d k of Some v \<Rightarrow> [\<lparr>de_key = k, de_val = v\<rparr>] | None \<Rightarrow> [])"
    using dictGenericDelete_ok [OF assms, of k False] unfolding dictDelete_def by (auto split: option.splits)
  show "\<exists>d'. dictDeleteNoFree d k = Some (if dict_map d k = None then DICT_ERR else DICT_OK, [], d') \<and>
      dict_ok d' \<and> dict_map d' = (dict_map d)(k := None)"
    using dictGenericDelete_ok [OF assms, of k True] unfolding dictDeleteNoFree_def by (auto split: option.splits)
qed

text \<open>
  A dictionary in the middle of a rehashing: the keys 2 and 6 are still in a bucket of the old table of 4
  buckets, the key 9 has moved to the new one of 8.
\<close>

definition rehashing_sample :: "(nat, nat) dict" where
  "rehashing_sample = \<lparr>dtype = plainDictType,
     ht0 = \<lparr>ht_table = (replicate 4 [])[2 := [\<lparr>de_key = 2, de_val = 20\<rparr>, \<lparr>de_key = 6, de_val = 60\<rparr>]],
            ht_size = 4, ht_sizemask = 3, ht_used = 2\<rparr>,
     ht1 = \<lparr>ht_table = (replicate 8 [])[1 := [\<lparr>de_key = 9, de_val = 90\<rparr>]],
            ht_size = 8, ht_sizemask = 7, ht_used = 1\<rparr>,
     rehashidx = 2, iterators = 0\<rparr>"

lemma rehashing_sample_ok: "dict_ok rehashing_sample" "dictIsRehashing rehashing_sample" "ht_size (ht0 rehashing_sample) = 4"
  "dict_map rehashing_sample 2 = Some 20" "dict_map rehashing_sample 6 = Some 60" "dict_map rehashing_sample 9 = Some 90"
proof -
  show "dictIsRehashing rehashing_sample" "ht_size (ht0 rehashing_sample) = 4"
    by (simp_all add: rehashing_sample_def dictIsRehashing_def)
  have c: "concat ((replicate 4 [])[2 := es]) = es" "concat ((replicate 8 [])[1 := es]) = es"
    "concat ((replicate 8 [])[Suc 0 := es]) = es" for es
    by (simp_all add: numeral_eq_Suc)
  show "dict_map rehashing_sample 2 = Some 20" "dict_map rehashing_sample 6 = Some 60" "dict_map rehashing_sample 9 = Some 90"
    by (simp_all add: dict_map_def dict_entries_def rehashing_sample_def c)
  have "ht_ok (hashFunction plainDictType) (ht0 rehashing_sample)" "ht_ok (hashFunction plainDictType) (ht1 rehashing_sample)"
    unfolding ht_ok_def
    by (auto simp: rehashing_sample_def plainDictType_def ht_index_def nth_list_update c intro: exI [of _ 2] exI [of _ 3])
  then show "dict_ok rehashing_sample"
    by (auto simp: dict_ok_def rehashing_sample_def dictIsRehashing_def dict_entries_def plainDictType_ok c nth_list_update)
qed

theorem dictDelete_correct_witness:
  "\<exists>d'. dictDelete rehashing_sample 6 = Some (DICT_OK, [\<lparr>de_key = 6, de_val = 60\<rparr>], d') \<and> dict_ok d' \<and>
     dict_map d' 6 = None \<and> dict_map d' 2 = Some 20 \<and> dict_map d' 9 = Some 90"
  using conjunct1 [OF dictDelete_correct [OF rehashing_sample_ok(1), of 6]]
  by (auto simp: rehashing_sample_ok)

text \<open>C8:
  Incremental rehashing completes. From any well-formed dictionary, as many single steps as the
  old table has buckets plus one leave no rehashing in progress, whatever the distribution of
  the keys and the empty buckets the steps are allowed to skip, and change nothing of what is
  stored.
\<close>

theorem dictRehash_completes:
  assumes "dict_ok d"
  shows "\<exists>d'. rehash_calls (ht_size (ht0 d) + 1) d = Some d' \<and> \<not> dictIsRehashing d' \<and> dict_ok d' \<and>
    dict_map d' = dict_map d"
proof -
  obtain d' where "rehash_calls (ht_size (ht0 d) + 1) d = Some d'" "\<not> dictIsRehashing d'" "dict_moved d d'"
    using rehash_calls_ok [OF assms, of "ht_size (ht0 d) + 1"] dict_okD(6) [OF assms] by fastforce
  then show ?thesis
    using dict_movedD [of d d'] assms by blast
qed

theorem dictRehash_completes_witness:
  "dict_ok rehashing_sample \<and> dictIsRehashing rehashing_sample \<and>
   (\<exists>d'. rehash_calls 5 rehashing_sample = Some d' \<and> \<not> dictIsRehashing d' \<and> dict_map d' 2 = Some 20 \<and>
      dict_map d' 6 = Some 60 \<and> dict_map d' 9 = Some 90)"
  using dictRehash_completes [OF rehashing_sample_ok(1)] rehashing_sample_ok by auto

text \<open>Destroying a dictionary frees every entry exactly once: \<open>dictRelease\<close> and \<open>dictEmpty\<close> call the
  destructors on the entries of both tables, each once, although the loop stops early when the
  count of entries reaches zero; \<open>dictEmpty\<close> leaves a well-formed empty dictionary.
\<close>

theorem dictEmpty_frees_all:
  assumes "dict_ok d"
  shows "\<exists>d'. dictEmpty d = Some (dict_entries d, d') \<and> dictRelease d = Some (dict_entries d) \<and> dict_ok d' \<and>
    dict_map d' = (\<lambda>_. None) \<and> dictSize d' = 0"
proof -
  obtain d' where d': "dictEmpty d = Some (dict_entries d, d')" "dict_ok d'" "dict_map d' = (\<lambda>_. None)"
    using dictEmpty_ok [OF assms] by blast
  moreover have "dictRelease d = Some (dict_entries d)"
    using dictClear_ok [OF dict_okD(2) [OF assms]] dictClear_ok [OF dict_okD(3) [OF assms]]
    by (simp add: dictRelease_def dict_entries_def)
  ultimately show ?thesis
    using dictSize_card(1) [OF d'(2)] by simp
qed

theorem dictEmpty_frees_all_witness: "dictRelease (dictCreate plainDictType) = Some []"
  using dictEmpty_frees_all [OF dict_ok_create(1) [OF plainDictType_ok]]
  by (auto simp: dict_entries_def)

end
