(* ===== verification/Dict_Scan.thy ===== *)
theory Dict_Scan
  imports Dict_Refinement
begin

text \<open>
  The cursor-based iteration of the dictionary (\<open>rev\<close> and \<open>dictScan\<close> of src/redis-3.0.0/src/dict.c),
  which the SCAN family of commands uses. The cursor is an \<open>unsigned long\<close>, here a \<open>64 word\<close>;
  the callback is modelled by the list of entries it is called on. The lemmas read a cursor
  as a position, the number its reversed bits denote: a call covers one block of positions and
  moves to the next block, so that resizing a table between calls keeps what was covered.
\<close>

section \<open>Reversing a cursor\<close>

text \<open>\<open>s\<close> is the loop's shift, \<open>m\<close> the mask of the bits it swaps.\<close>

function rev_loop :: "64 word \<Rightarrow> 64 word \<Rightarrow> nat \<Rightarrow> 64 word" where
  "rev_loop v m s =
     (let s = s div 2 in
      if s > 0 then
        let m = xor m (push_bit s m);
            v = or (and (drop_bit s v) m) (and (push_bit s v) (not m))
        in rev_loop v m s
      else v)"
  by pat_completeness auto
termination
  by (relation "measure (\<lambda>(v, m, s). s)") auto

declare rev_loop.simps [simp del]

definition rev_ul :: "64 word \<Rightarrow> 64 word" where
  "rev_ul v = rev_loop v (not 0) 64"

definition rev_stage :: "nat \<Rightarrow> 64 word \<Rightarrow> 64 word \<Rightarrow> 64 word" where
  "rev_stage s m v = or (and (drop_bit s v) m) (and (push_bit s v) (not m))"

lemma rev_ul_stages:
  "rev_ul v = rev_stage 1 0x5555555555555555 (rev_stage 2 0x3333333333333333 (rev_stage 4 0x0f0f0f0f0f0f0f0f
     (rev_stage 8 0x00ff00ff00ff00ff (rev_stage 16 0x0000ffff0000ffff (rev_stage 32 0x00000000ffffffff v)))))"
proof -
  have step: "rev_loop v m t = rev_loop (rev_stage s m' v) m' s"
    if "0 < s" "t = 2 * s" "xor m (push_bit s m) = m'" for v m m' s t
    unfolding that(2) using that(1,3) by (subst rev_loop.simps) (simp add: rev_stage_def Let_def)
  have masks: "xor (not 0) (push_bit 32 (not 0)) = (0x00000000ffffffff :: 64 word)"
    "xor 0x00000000ffffffff (push_bit 16 0x00000000ffffffff) = (0x0000ffff0000ffff :: 64 word)"
    "xor 0x0000ffff0000ffff (push_bit 8 0x0000ffff0000ffff) = (0x00ff00ff00ff00ff :: 64 word)"
    "xor 0x00ff00ff00ff00ff (push_bit 4 0x00ff00ff00ff00ff) = (0x0f0f0f0f0f0f0f0f :: 64 word)"
    "xor 0x0f0f0f0f0f0f0f0f (push_bit 2 0x0f0f0f0f0f0f0f0f) = (0x3333333333333333 :: 64 word)"
    "xor 0x3333333333333333 (push_bit 1 0x3333333333333333) = (0x5555555555555555 :: 64 word)"
    by (simp_all add: mask_eq_exp_minus_1)
  have "rev_ul v = rev_loop (rev_stage 32 0x00000000ffffffff v) 0x00000000ffffffff 32"
    unfolding rev_ul_def by (rule step [OF _ _ masks(1)]) simp_all
  also have "\<dots> = rev_loop (rev_stage 16 0x0000ffff0000ffff (rev_stage 32 0x00000000ffffffff v)) 0x0000ffff0000ffff 16"
    by (rule step [OF _ _ masks(2)]) simp_all
  also have "\<dots> = rev_loop (rev_stage 8 0x00ff00ff00ff00ff (rev_stage 16 0x0000ffff0000ffff
      (rev_stage 32 0x00000000ffffffff v))) 0x00ff00ff00ff00ff 8"
    by (rule step [OF _ _ masks(3)]) simp_all
  also have "\<dots> = rev_loop (rev_stage 4 0x0f0f0f0f0f0f0f0f (rev_stage 8 0x00ff00ff00ff00ff (rev_stage 16 0x0000ffff0000ffff
      (rev_stage 32 0x00000000ffffffff v)))) 0x0f0f0f0f0f0f0f0f 4"
    by (rule step [OF _ _ masks(4)]) simp_all
  also have "\<dots> = rev_loop (rev_stage 2 0x3333333333333333 (rev_stage 4 0x0f0f0f0f0f0f0f0f (rev_stage 8 0x00ff00ff00ff00ff
      (rev_stage 16 0x0000ffff0000ffff (rev_stage 32 0x00000000ffffffff v))))) 0x3333333333333333 2"
    by (rule step [OF _ _ masks(5)]) simp_all
  also have "\<dots> = rev_loop (rev_stage 1 0x5555555555555555 (rev_stage 2 0x3333333333333333 (rev_stage 4 0x0f0f0f0f0f0f0f0f
      (rev_stage 8 0x00ff00ff00ff00ff (rev_stage 16 0x0000ffff0000ffff (rev_stage 32 0x00000000ffffffff v))))))
      0x5555555555555555 1"
    by (rule step [OF _ _ masks(6)]) simp_all
  also have "\<dots> = rev_stage 1 0x5555555555555555 (rev_stage 2 0x3333333333333333 (rev_stage 4 0x0f0f0f0f0f0f0f0f
     (rev_stage 8 0x00ff00ff00ff00ff (rev_stage 16 0x0000ffff0000ffff (rev_stage 32 0x00000000ffffffff v)))))"
    by (subst rev_loop.simps) simp
  finally show ?thesis .
qed

lemma bit_rev_stage:
  "bit (rev_stage s m v) i \<longleftrightarrow> (if bit m i then bit v (i + s) else s \<le> i \<and> i < 64 \<and> bit v (i - s))"
  by (auto simp: rev_stage_def bit_simps ac_simps dest: bit_imp_le_length)

lemma bit_rev_ul_all: "\<forall>i\<in>set [0..<64]. bit (rev_ul v) i \<longleftrightarrow> bit v (63 - i)"
  by (simp add: upt_rec rev_ul_stages bit_rev_stage) (simp add: numeral_2_eq_2 numeral_3_eq_3)

lemma bit_rev_ul: "bit (rev_ul v) i \<longleftrightarrow> i < 64 \<and> bit v (63 - i)"
  using bit_rev_ul_all [of v] bit_imp_le_length [of "rev_ul v" i] by auto

lemma rev_ul_0 [simp]: "rev_ul 0 = 0"
  by (rule bit_eqI) (simp add: bit_rev_ul)

lemma rev_ul_rev_ul [simp]: "rev_ul (rev_ul v) = v"
  by (rule bit_eqI) (auto simp: bit_rev_ul)

section \<open>The scan\<close>

definition dictScan_emit :: "('k, 'v) dictht \<Rightarrow> 64 word \<Rightarrow> ('k, 'v) chain option" where
  "dictScan_emit t v = ht_at t (int (unat (and v (of_nat (ht_sizemask t)))))"

text \<open>The \<open>do ... while\<close> over the larger table.\<close>

partial_function (option) dictScan_expand ::
  "('k, 'v) dictht \<Rightarrow> 64 word \<Rightarrow> 64 word \<Rightarrow> 64 word \<Rightarrow> (('k, 'v) dictEntry list \<times> 64 word) option" where
  "dictScan_expand t1 m0 m1 v = do {
     es \<leftarrow> dictScan_emit t1 v;
     let v = or (and (or v m0 + 1) (not m0)) (and v m0);
     if and v (xor m0 m1) \<noteq> 0 then do {
       (es', v) \<leftarrow> dictScan_expand t1 m0 m1 v;
       Some (es @ es', v) }
     else Some (es, v) }"

text \<open>The entries passed to the callback, and the next cursor.\<close>

definition dictScan :: "('k, 'v) dict \<Rightarrow> 64 word \<Rightarrow> (('k, 'v) dictEntry list \<times> 64 word) option" where
  "dictScan d v =
     (if dictSize d = 0 then Some ([], 0)
      else do {
        (es, v, m0) \<leftarrow>
          (if \<not> dictIsRehashing d then do {
             es \<leftarrow> dictScan_emit (ht0 d) v;
             Some (es, v, of_nat (ht_sizemask (ht0 d))) }
           else do {
             let (t0, t1) = (if ht_size (ht0 d) > ht_size (ht1 d) then (ht1 d, ht0 d) else (ht0 d, ht1 d));
             let m0 = of_nat (ht_sizemask t0);
             let m1 = of_nat (ht_sizemask t1);
             es \<leftarrow> dictScan_emit t0 v;
             (es', v) \<leftarrow> dictScan_expand t1 m0 m1 v;
             Some (es @ es', v, m0) });
        let v = or v (not m0);
        let v = rev_ul v;
        let v = v + 1;
        let v = rev_ul v;
        Some (es, v) })"

section \<open>Cursors as positions\<close>

text \<open>The reversed cursor as a number: the scan visits positions in increasing order.\<close>

definition scan_pos :: "64 word \<Rightarrow> nat" where
  "scan_pos v = unat (rev_ul v)"

lemma unat_div_mod_word:
  fixes x :: "64 word"
  shows "unat x div 2 ^ k = unat (drop_bit k x)" "unat x mod 2 ^ k = unat (take_bit k x)"
  unfolding unat_drop_bit_eq unsigned_take_bit_eq by (simp_all only: drop_bit_eq_div take_bit_eq_mod)

lemma unat_mask64: "a \<le> 64 \<Longrightarrow> unat (mask a :: 64 word) = 2 ^ a - 1"
proof -
  assume "a \<le> 64"
  then have "uint (mask a :: 64 word) = mask a"
    by (simp add: uint_mask_eq min_absorb2)
  then have "int (unat (mask a :: 64 word)) = int (2 ^ a - 1)"
    by (simp add: mask_eq_exp_minus_1 of_nat_diff)
  then show ?thesis
    by (simp only: of_nat_eq_iff)
qed

lemma unat_or_mask:
  fixes v :: "64 word"
  assumes "a \<le> 64"
  shows "unat (or v (mask a)) = unat v div 2 ^ a * 2 ^ a + (2 ^ a - 1)"
proof -
  have "drop_bit a (or v (mask a)) = drop_bit a v"
    by (rule bit_eqI) (auto simp: bit_simps)
  moreover have "take_bit a (or v (mask a)) = mask a"
    by (rule bit_eqI) (auto simp: bit_simps)
  moreover have "unat (mask a :: 64 word) = 2 ^ a - 1"
    using assms by (rule unat_mask64)
  ultimately show ?thesis
    using div_mult_mod_eq [of "unat (or v (mask a))" "2 ^ a"] by (simp add: unat_div_mod_word)
qed

lemma scan_pos_div:
  assumes "a \<le> 64"
  shows "scan_pos v div 2 ^ (64 - a) = scan_pos w div 2 ^ (64 - a) \<longleftrightarrow> take_bit a v = take_bit a w"
proof -
  have "drop_bit (64 - a) (rev_ul v) = drop_bit (64 - a) (rev_ul w) \<longleftrightarrow> take_bit a v = take_bit a w"
  proof
    assume eq: "drop_bit (64 - a) (rev_ul v) = drop_bit (64 - a) (rev_ul w)"
    show "take_bit a v = take_bit a w"
    proof (rule bit_eqI)
      fix i
      have "bit v i = bit w i" if "i < a"
        using arg_cong [OF eq, of "\<lambda>x. bit x (a - 1 - i)"] that assms by (auto simp: bit_drop_bit_eq bit_rev_ul)
      then show "bit (take_bit a v) i = bit (take_bit a w) i"
        by (auto simp: bit_take_bit_iff)
    qed
  next
    assume eq: "take_bit a v = take_bit a w"
    show "drop_bit (64 - a) (rev_ul v) = drop_bit (64 - a) (rev_ul w)"
    proof (rule bit_eqI)
      fix i
      have "bit v (63 - (64 - a + i)) = bit w (63 - (64 - a + i))" if "64 - a + i < 64"
        using arg_cong [OF eq, of "\<lambda>x. bit x (63 - (64 - a + i))"] that assms by (auto simp: bit_take_bit_iff)
      then show "bit (drop_bit (64 - a) (rev_ul v)) i = bit (drop_bit (64 - a) (rev_ul w)) i"
        by (auto simp: bit_drop_bit_eq bit_rev_ul)
    qed
  qed
  then show ?thesis
    by (simp only: scan_pos_def unat_div_mod_word word_unat_eq_iff [symmetric])
qed

text \<open>The cursor after a call that covers the low \<open>a\<close> bits.\<close>

definition scan_next :: "nat \<Rightarrow> 64 word \<Rightarrow> 64 word" where
  "scan_next a v = rev_ul (rev_ul (or v (not (mask a))) + 1)"

lemma scan_next_pos:
  assumes "a \<le> 63"
  shows "scan_pos (scan_next a v) = (scan_pos v div 2 ^ (64 - a) + 1) * 2 ^ (64 - a) mod 2 ^ 64"
    "take_bit a (scan_next a v) = scan_next a v"
proof -
  let ?k = "64 - a" and ?y = "rev_ul (or v (not (mask a))) + 1"
  have "rev_ul (or v (not (mask a))) = or (rev_ul v) (mask ?k)"
    by (rule bit_eqI) (use assms in \<open>auto simp: bit_rev_ul bit_simps\<close>)
  moreover have "unat (or (rev_ul v) (mask ?k)) + 1 = (unat (rev_ul v) div 2 ^ ?k + 1) * 2 ^ ?k"
    using unat_or_mask [of ?k "rev_ul v"] by (simp add: algebra_simps)
  ultimately have y: "unat ?y = (scan_pos v div 2 ^ ?k + 1) * 2 ^ ?k mod 2 ^ 64"
    by (simp only: unat_word_ariths unat_1 scan_pos_def) simp
  then show "scan_pos (scan_next a v) = (scan_pos v div 2 ^ ?k + 1) * 2 ^ ?k mod 2 ^ 64"
    by (simp add: scan_pos_def scan_next_def)
  have "(2 :: nat) ^ ?k dvd 2 ^ 64"
    by (rule le_imp_power_dvd) simp
  then have "unat ?y mod 2 ^ ?k = 0"
    unfolding y by (metis dvd_mod dvd_triv_right mod_0_imp_dvd dvd_imp_mod_0)
  then have "take_bit ?k ?y = 0"
    by (simp add: unat_div_mod_word unat_eq_zero)
  then have "\<not> bit (take_bit ?k ?y) j" for j
    by simp
  then have low: "\<not> bit ?y j" if "j < ?k" for j
    using that unfolding bit_take_bit_iff by blast
  show "take_bit a (scan_next a v) = scan_next a v"
  proof (rule bit_eqI)
    fix i
    show "bit (take_bit a (scan_next a v)) i = bit (scan_next a v) i"
      using low [of "63 - i"] assms by (cases "i < a") (auto simp: scan_next_def bit_take_bit_iff bit_rev_ul)
  qed
qed

section \<open>One call\<close>

lemma of_nat_sizemask:
  assumes "ht_size t = 2 ^ a" "ht_sizemask t = ht_size t - 1"
  shows "of_nat (ht_sizemask t) = (mask a :: 64 word)"
  using assms by (simp add: mask_eq_exp_minus_1 of_nat_diff)

lemma ht_bucket_word:
  assumes "ht_size t = 2 ^ a" "ht_sizemask t = ht_size t - 1"
  shows "ht_index t h = unat (take_bit a (ucast h :: 64 word))"
proof -
  have "unat (ucast h :: 64 word) = unat h"
  proof -
    have "unat h < 2 ^ LENGTH(32)"
      by (rule unsigned_less)
    then show ?thesis
      by (simp add: unsigned_ucast_eq take_bit_nat_eq_self)
  qed
  then show ?thesis
    using ht_index_mod [of t a h] assms by (simp add: unat_div_mod_word(2) [symmetric])
qed

lemma dictScan_emit_ok:
  assumes "ht_ok H t" "ht_size t = 2 ^ a"
  shows "dictScan_emit t v = Some (ht_table t ! unat (take_bit a v))" "unat (take_bit a v) < ht_size t"
proof -
  have t: "ht_size t > 0"
    using assms(2) by simp
  have "and v (of_nat (ht_sizemask t)) = take_bit a v"
    using of_nat_sizemask [OF assms(2) ht_okD(3) [OF assms(1) t]] by (simp add: take_bit_eq_mask)
  then have "dictScan_emit t v = ht_at t (int (unat (take_bit a v)))"
    by (simp only: dictScan_emit_def)
  moreover show less: "unat (take_bit a v) < ht_size t"
    using assms(2) by (simp add: unat_div_mod_word(2) [symmetric])
  moreover have "ht_at t (int (unat (take_bit a v))) = Some (ht_table t ! unat (take_bit a v))"
    by (rule ht_at_in) (use less ht_ok_length [OF assms(1)] in simp)
  ultimately show "dictScan_emit t v = Some (ht_table t ! unat (take_bit a v))"
    by (simp only:)
qed

text \<open>An entry is in the bucket whose number its hash has in the low bits.\<close>

lemma entry_in_bucket:
  assumes "ht_ok H t" "ht_size t = 2 ^ a" "e \<in> set (concat (ht_table t))"
  shows "e \<in> set (ht_table t ! unat (take_bit a (ucast (H (de_key e)) :: 64 word)))"
  using ht_bucket_of_key [OF assms(1) _ assms(3)] ht_bucket_word [OF assms(2) ht_okD(3) [OF assms(1)]] assms(2) by simp

text \<open>The increment above the low \<open>a\<close> bits.\<close>

definition scan_up :: "nat \<Rightarrow> 64 word \<Rightarrow> 64 word" where
  "scan_up a v = or (and (or v (mask a) + 1) (not (mask a))) (and v (mask a))"

lemma scan_up_ok:
  assumes "a \<le> 31" "unat v < 2 ^ 32"
  shows "unat (scan_up a v) = (unat v div 2 ^ a + 1) * 2 ^ a + unat v mod 2 ^ a" "take_bit a (scan_up a v) = take_bit a v"
proof -
  let ?x = "or v (mask a) + 1"
  have "unat v div 2 ^ a * 2 ^ a \<le> unat v" "(2 :: nat) ^ a \<le> 2 ^ 31"
    using power_increasing [OF assms(1), of "2 :: nat"] by (simp_all add: div_times_less_eq_dividend)
  then have "(unat v div 2 ^ a + 1) * 2 ^ a < 2 ^ 64"
    using assms(2) by (simp del: div_times_less_eq_dividend)
  moreover have "unat (or v (mask a)) + 1 = (unat v div 2 ^ a + 1) * 2 ^ a"
    using unat_or_mask [of a v] assms(1) by (simp add: algebra_simps)
  moreover have "unat ?x = (unat (or v (mask a)) + 1) mod 2 ^ 64"
    by (simp only: unat_word_ariths unat_1) simp
  ultimately have x: "unat ?x = (unat v div 2 ^ a + 1) * 2 ^ a"
    by (simp only: mod_less)
  show "take_bit a (scan_up a v) = take_bit a v"
    by (rule bit_eqI) (auto simp: scan_up_def bit_simps)
  then have low: "unat (scan_up a v) mod 2 ^ a = unat v mod 2 ^ a"
    by (simp add: unat_div_mod_word(2))
  have "drop_bit a (scan_up a v) = drop_bit a ?x"
    by (rule bit_eqI) (auto simp: scan_up_def bit_simps dest: bit_imp_le_length)
  then have "unat (scan_up a v) div 2 ^ a = unat ?x div 2 ^ a"
    by (simp only: unat_div_mod_word(1))
  also have "\<dots> = unat v div 2 ^ a + 1"
    unfolding x by simp
  finally have "unat (scan_up a v) div 2 ^ a = unat v div 2 ^ a + 1" .
  then show "unat (scan_up a v) = (unat v div 2 ^ a + 1) * 2 ^ a + unat v mod 2 ^ a"
    using low by (metis div_mult_mod_eq)
qed

lemma scan_more_iff:
  fixes w :: "64 word"
  assumes "a \<le> b" "b \<le> 64"
  shows "and w (xor (mask a) (mask b)) = 0 \<longleftrightarrow> unat w div 2 ^ a mod 2 ^ (b - a) = 0"
proof -
  have "and w (xor (mask a) (mask b)) = 0 \<longleftrightarrow> take_bit (b - a) (drop_bit a w) = 0"
  proof
    assume z: "and w (xor (mask a) (mask b)) = 0"
    have nb: "\<not> bit (and w (xor (mask a) (mask b))) n" for n
      using z by simp
    have nw: "\<not> bit w n" if "a \<le> n" "n < b" for n
      using nb [of n] that assms(2) by (auto simp: bit_simps)
    show "take_bit (b - a) (drop_bit a w) = 0"
    proof (rule bit_eqI)
      fix n
      show "bit (take_bit (b - a) (drop_bit a w)) n = bit 0 n"
        using nw [of "a + n"] unfolding bit_take_bit_iff bit_drop_bit_eq comp_def by auto
    qed
  next
    assume z: "take_bit (b - a) (drop_bit a w) = 0"
    have nb: "\<not> bit (take_bit (b - a) (drop_bit a w)) (n - a)" for n
      using z by simp
    have nw: "\<not> bit w n" if "a \<le> n" "n < b" for n
      using nb [of n] that unfolding bit_take_bit_iff bit_drop_bit_eq comp_def by auto
    show "and w (xor (mask a) (mask b)) = 0"
    proof (rule bit_eqI)
      fix n
      show "bit (and w (xor (mask a) (mask b))) n = bit 0 n"
        using nw [of n] assms(1) by (cases "a \<le> n") (auto simp: bit_and_iff bit_xor_iff bit_mask_iff)
    qed
  qed
  also have "\<dots> \<longleftrightarrow> unat w div 2 ^ a mod 2 ^ (b - a) = 0"
    by (simp add: unat_div_mod_word unat_eq_zero)
  finally show ?thesis .
qed

lemma dictScan_expand_ok:
  assumes "ht_ok H t1" "ht_size t1 = 2 ^ b" "a \<le> b" "b \<le> 31" "unat v < 2 ^ b"
  shows "\<exists>es v'. dictScan_expand t1 (mask a) (mask b) v = Some (es, v') \<and> take_bit a v' = take_bit a v \<and>
    set es \<subseteq> set (concat (ht_table t1)) \<and>
    (\<forall>x. unat v div 2 ^ a \<le> x \<and> x < 2 ^ (b - a) \<longrightarrow> set (ht_table t1 ! (x * 2 ^ a + unat v mod 2 ^ a)) \<subseteq> set es)"
  using assms(5)
proof (induction "2 ^ b - unat v" arbitrary: v rule: less_induct)
  case less
  let ?q = "unat v div 2 ^ a" and ?r = "unat v mod 2 ^ a" and ?v = "scan_up a v"
  have pow: "(2 :: nat) ^ b = 2 ^ (b - a) * 2 ^ a"
    using assms(3) by (simp flip: power_add)
  have q: "?q < 2 ^ (b - a)"
    using less.prems unfolding pow by (simp add: less_mult_imp_div_less)
  have "(2 :: nat) ^ b \<le> 2 ^ 31"
    using assms(4) by (rule power_increasing) simp
  then have up: "unat ?v = (?q + 1) * 2 ^ a + ?r" "take_bit a ?v = take_bit a v"
    using scan_up_ok [of a v] assms(3,4) less.prems by auto
  have "unat (take_bit b v) = unat v"
    using less.prems by (simp add: unat_div_mod_word(2) [symmetric])
  then have emit: "dictScan_emit t1 v = Some (ht_table t1 ! unat v)" "unat v < length (ht_table t1)"
    using dictScan_emit_ok [OF assms(1,2), of v] ht_ok_length [OF assms(1)] assms(2) less.prems by auto
  then have sub: "set (ht_table t1 ! unat v) \<subseteq> set (concat (ht_table t1))"
    unfolding set_concat_nth by blast
  have g: "(x * m + r) div m = x" "(x * m + r) mod m = r" if "r < m" for x m r :: nat
    using that by simp_all
  have dm: "unat ?v div 2 ^ a = ?q + 1" "unat ?v mod 2 ^ a = ?r"
    unfolding up(1) by (rule g; simp)+
  have more: "and ?v (xor (mask a) (mask b)) = 0 \<longleftrightarrow> ?q + 1 = 2 ^ (b - a)"
  proof -
    have "b \<le> 64"
      using assms(4) by simp
    from scan_more_iff [OF assms(3) this, of ?v] show ?thesis
      unfolding dm using q by (cases "?q + 1 = 2 ^ (b - a)") auto
  qed
  have exp: "dictScan_expand t1 (mask a) (mask b) v =
    (if ?q + 1 = 2 ^ (b - a) then Some (ht_table t1 ! unat v, ?v)
     else do { (es', w) \<leftarrow> dictScan_expand t1 (mask a) (mask b) ?v; Some (ht_table t1 ! unat v @ es', w) })"
    by (subst dictScan_expand.simps) (simp add: emit(1) Let_def more flip: scan_up_def)
  show ?case
  proof (cases "?q + 1 = 2 ^ (b - a)")
    case True
    have "ht_table t1 ! (x * 2 ^ a + ?r) = ht_table t1 ! unat v" if "?q \<le> x" "x < 2 ^ (b - a)" for x
    proof -
      have "x = ?q"
        using that True by linarith
      then show ?thesis
        by (simp only: div_mult_mod_eq)
    qed
    then show ?thesis
      using True exp sub up(2) by (intro exI [of _ "ht_table t1 ! unat v"] exI [of _ ?v]) simp
  next
    case False
    then have "?q + 1 < 2 ^ (b - a)"
      using q by simp
    then have "(?q + 1) * 2 ^ a + 2 ^ a \<le> 2 ^ b"
      unfolding pow by (metis add_mult_distrib mult_1 Suc_leI Suc_eq_plus1 mult_le_mono1)
    moreover have "?r < 2 ^ a"
      by simp
    ultimately have vb: "unat ?v < 2 ^ b"
      unfolding up(1) by linarith
    have lt: "unat v < unat ?v"
    proof -
      have "unat v = ?q * 2 ^ a + ?r"
        by (rule div_mult_mod_eq [symmetric])
      also have "\<dots> < (?q + 1) * 2 ^ a + ?r"
        by (simp add: algebra_simps del: div_mult_mod_eq mult_div_mod_eq mod_mult_div_eq)
      finally show ?thesis
        unfolding up(1) .
    qed
    obtain es v' where IH: "dictScan_expand t1 (mask a) (mask b) ?v = Some (es, v')" "take_bit a v' = take_bit a ?v"
      "set es \<subseteq> set (concat (ht_table t1))"
      "\<forall>x. ?q + 1 \<le> x \<and> x < 2 ^ (b - a) \<longrightarrow> set (ht_table t1 ! (x * 2 ^ a + ?r)) \<subseteq> set es"
      using less.hyps [OF _ vb] less.prems lt unfolding dm by (auto simp: diff_less_mono2)
    have "set (ht_table t1 ! (x * 2 ^ a + ?r)) \<subseteq> set (ht_table t1 ! unat v) \<union> set es" if "?q \<le> x" "x < 2 ^ (b - a)" for x
    proof (cases "x = ?q")
      case True
      then show ?thesis
        by (simp only: div_mult_mod_eq Un_upper1)
    next
      case False
      then show ?thesis
        using that IH(4) [rule_format, of x] by (intro le_supI2) simp
    qed
    then show ?thesis
      using False exp IH sub up(2) by auto
  qed
qed

text \<open>The number of low cursor bits a call covers: those of the smaller table.\<close>

definition scan_size :: "('k, 'v) dict \<Rightarrow> nat" where
  "scan_size d = (if dictIsRehashing d \<and> ht_size (ht1 d) < ht_size (ht0 d) then ht_size (ht1 d) else ht_size (ht0 d))"

lemma take_bit_eq_word_mono:
  fixes v w :: "64 word"
  assumes "take_bit b v = take_bit b w" "a \<le> b"
  shows "take_bit a v = take_bit a w"
  using arg_cong [OF assms(1), of "take_bit a"] assms(2) by (simp add: take_bit_take_bit min_absorb1)

text \<open>Scanning the small table and its expansions in the large one.\<close>

lemma scan_two_tables:
  assumes t0: "ht_ok H t0" "ht_size t0 = 2 ^ a" and t1: "ht_ok H t1" "ht_size t1 = 2 ^ b"
    and ab: "a \<le> b" "b \<le> 31" and v: "unat v < 2 ^ a"
  shows "\<exists>es es' v'. dictScan_emit t0 v = Some es \<and> dictScan_expand t1 (mask a) (mask b) v = Some (es', v') \<and>
    take_bit a v' = take_bit a v \<and> set es \<subseteq> set (concat (ht_table t0)) \<and> set es' \<subseteq> set (concat (ht_table t1)) \<and>
    (\<forall>e \<in> set (concat (ht_table t0)) \<union> set (concat (ht_table t1)).
       take_bit a (ucast (H (de_key e)) :: 64 word) = take_bit a v \<longrightarrow> e \<in> set es \<union> set es')"
proof -
  let ?h = "\<lambda>e. ucast (H (de_key e)) :: 64 word"
  have vb: "unat v < 2 ^ b"
    using v by (rule less_le_trans) (simp add: ab(1))
  obtain es' v' where x: "dictScan_expand t1 (mask a) (mask b) v = Some (es', v')" "take_bit a v' = take_bit a v"
    "set es' \<subseteq> set (concat (ht_table t1))"
    "\<forall>x. unat v div 2 ^ a \<le> x \<and> x < 2 ^ (b - a) \<longrightarrow> set (ht_table t1 ! (x * 2 ^ a + unat v mod 2 ^ a)) \<subseteq> set es'"
    using dictScan_expand_ok [OF t1 ab vb] by (elim exE conjE) (rule that)
  let ?es = "ht_table t0 ! unat (take_bit a v)"
  have e0: "dictScan_emit t0 v = Some ?es" "unat (take_bit a v) < length (ht_table t0)"
    using dictScan_emit_ok [OF t0, of v] ht_ok_length [OF t0(1)] by auto
  then have s0: "set ?es \<subseteq> set (concat (ht_table t0))"
    unfolding set_concat_nth by blast
  have in0: "e \<in> set ?es" if "e \<in> set (concat (ht_table t0))" "take_bit a (?h e) = take_bit a v" for e
    using entry_in_bucket [OF t0 that(1)] that(2) by simp
  have in1: "e \<in> set es'" if "e \<in> set (concat (ht_table t1))" "take_bit a (?h e) = take_bit a v" for e
  proof -
    let ?i = "unat (take_bit b (?h e))"
    have i: "?i < 2 ^ b"
      by (simp add: unat_div_mod_word(2) [symmetric])
    have pow: "(2 :: nat) ^ b = 2 ^ (b - a) * 2 ^ a"
      using ab(1) by (simp flip: power_add)
    have "?i mod 2 ^ a = unat (take_bit a (?h e))"
      using ab(1) by (simp add: unat_div_mod_word(2) take_bit_take_bit min_absorb1)
    then have m: "?i mod 2 ^ a = unat v mod 2 ^ a"
      using that(2) by (simp add: unat_div_mod_word(2))
    have d: "?i div 2 ^ a < 2 ^ (b - a)"
      using i unfolding pow by (simp add: less_mult_imp_div_less)
    have "?i = ?i div 2 ^ a * 2 ^ a + unat v mod 2 ^ a"
      using div_mult_mod_eq [of ?i "2 ^ a"] m by simp
    then have "set (ht_table t1 ! ?i) \<subseteq> set es'"
      using x(4) [rule_format, of "?i div 2 ^ a"] v d by (simp add: div_less)
    then show ?thesis
      using entry_in_bucket [OF t1 that(1)] by blast
  qed
  have all: "\<forall>e \<in> set (concat (ht_table t0)) \<union> set (concat (ht_table t1)).
       take_bit a (?h e) = take_bit a v \<longrightarrow> e \<in> set ?es \<union> set es'"
    using in0 in1 by blast
  show ?thesis
    by (rule exI [of _ ?es], rule exI [of _ es'], rule exI [of _ v']) (intro conjI; fact x e0 s0 all)
qed


lemma scan_next_take_bit:
  assumes "take_bit a v = take_bit a w"
  shows "scan_next a v = scan_next a w"
proof -
  have b: "bit v n = bit w n" if "n < a" for n
    using arg_cong [OF assms, of "\<lambda>x. bit x n"] that by (simp add: bit_take_bit_iff)
  have "or v (not (mask a)) = or w (not (mask a))"
    by (rule bit_eqI) (use b in \<open>auto simp: bit_or_iff bit_not_iff bit_mask_iff\<close>)
  then show ?thesis
    by (simp only: scan_next_def)
qed

lemma scan_size0:
  assumes "dict_ok d" "dictSize d \<noteq> 0"
  shows "ht_size (ht0 d) > 0"
proof (cases "dictIsRehashing d")
  case False
  then have "ht_used (ht0 d) \<noteq> 0"
    using assms(2) dict_okD(5) [OF assms(1)] by (simp add: dictSize_def)
  then show ?thesis
    using dict_okD(2) [OF assms(1)] by (auto simp: ht_ok_def)
qed (rule dict_okD(8) [OF assms(1)])

lemma scan_sizeE:
  assumes "dict_ok d" "dictSize d \<noteq> 0"
  obtains a where "scan_size d = 2 ^ a" "a \<le> 31"
proof (cases "dictIsRehashing d \<and> ht_size (ht1 d) < ht_size (ht0 d)")
  case True
  then show ?thesis
    using that ht_okD(1) [OF dict_okD(3,9) [OF assms(1)]] by (auto simp: scan_size_def)
next
  case False
  then show ?thesis
    using that ht_okD(1) [OF dict_okD(2) [OF assms(1)] scan_size0 [OF assms]] unfolding scan_size_def by auto
qed

lemma dictScan_ok:
  assumes "dict_ok d" "dictSize d \<noteq> 0" "scan_size d = 2 ^ a" "dictIsRehashing d \<Longrightarrow> unat v < 2 ^ a"
  shows "\<exists>es. dictScan d v = Some (es, scan_next a v) \<and> set es \<subseteq> set (dict_entries d) \<and>
    (\<forall>e\<in>set (dict_entries d). take_bit a (ucast (hashFunction (dtype d) (de_key e)) :: 64 word) = take_bit a v
      \<longrightarrow> e \<in> set es)"
proof (cases "dictIsRehashing d")
  case False
  let ?t = "ht0 d" and ?es = "ht_table (ht0 d) ! unat (take_bit a v)"
  note D = dict_okD [OF assms(1)]
  have s: "ht_size ?t = 2 ^ a" "ht_size ?t > 0"
    using False assms(3) by (auto simp: scan_size_def)
  have m: "of_nat (ht_sizemask ?t) = (mask a :: 64 word)"
    using of_nat_sizemask [OF s(1) ht_okD(3) [OF D(2) s(2)]] .
  have e: "dictScan_emit ?t v = Some ?es" "unat (take_bit a v) < length (ht_table ?t)"
    using dictScan_emit_ok [OF D(2) s(1), of v] ht_ok_length [OF D(2)] by auto
  have "dictScan d v = Some (?es, scan_next a v)"
    using False assms(2) e(1) by (simp add: dictScan_def Let_def m scan_next_def)
  moreover have "set ?es \<subseteq> set (concat (ht_table ?t))"
    using e(2) unfolding set_concat_nth by blast
  moreover have c: "dict_entries d = concat (ht_table ?t)"
    using D(5) [OF False] by (simp add: dict_entries_def)
  moreover have "e \<in> set ?es" if "e \<in> set (dict_entries d)"
    "take_bit a (ucast (hashFunction (dtype d) (de_key e)) :: 64 word) = take_bit a v" for e
    using entry_in_bucket [OF D(2) s(1), of e] that c by simp
  ultimately show ?thesis
    by (intro exI [of _ ?es]) (simp only: simp_thms prod.inject option.inject, blast)
next
  case True
  note D = dict_okD [OF assms(1)]
  obtain t0 t1 where t: "(if ht_size (ht0 d) > ht_size (ht1 d) then (ht1 d, ht0 d) else (ht0 d, ht1 d)) = (t0, t1)"
    by (rule prod.exhaust)
  let ?H = "hashFunction (dtype d)"
  have tt: "ht_ok ?H t0" "ht_ok ?H t1" "ht_size t0 = 2 ^ a" "ht_size t0 \<le> ht_size t1" "0 < ht_size t0" "0 < ht_size t1"
    "set (dict_entries d) = set (concat (ht_table t0)) \<union> set (concat (ht_table t1))"
    using t D(2,3) assms(3) True D(8,9) [OF True] by (auto simp: scan_size_def dict_entries_def split: if_splits)
  obtain b where b: "b \<le> 31" "ht_size t1 = 2 ^ b"
    using ht_okD(1) [OF tt(2,6)] by blast
  then have ab: "a \<le> b"
    using tt(3,4) by simp
  have m: "of_nat (ht_sizemask t0) = (mask a :: 64 word)" "of_nat (ht_sizemask t1) = (mask b :: 64 word)"
    using of_nat_sizemask [OF tt(3) ht_okD(3) [OF tt(1,5)]] of_nat_sizemask [OF b(2) ht_okD(3) [OF tt(2,6)]] by auto
  obtain es es' v' where x: "dictScan_emit t0 v = Some es" "dictScan_expand t1 (mask a) (mask b) v = Some (es', v')"
    "take_bit a v' = take_bit a v" "set es \<subseteq> set (concat (ht_table t0))" "set es' \<subseteq> set (concat (ht_table t1))"
    "\<forall>e \<in> set (concat (ht_table t0)) \<union> set (concat (ht_table t1)).
       take_bit a (ucast (?H (de_key e)) :: 64 word) = take_bit a v \<longrightarrow> e \<in> set es \<union> set es'"
    using scan_two_tables [OF tt(1,3) tt(2) b(2) ab b(1) assms(4) [OF True]] by (elim exE conjE) (rule that)
  have "dictScan d v = Some (es @ es', scan_next a v')"
    using True assms(2) x(1,2) by (simp add: dictScan_def Let_def t m scan_next_def)
  then have "dictScan d v = Some (es @ es', scan_next a v)"
    using scan_next_take_bit [OF x(3)] by simp
  then show ?thesis
    using x(4-6) unfolding tt(7) by (intro exI [of _ "es @ es'"]) (simp add: le_supI1 le_supI2)
qed

section \<open>A whole scan\<close>

text \<open>
  The calls a client makes: each one passes the cursor the previous one returned, and finds the
  dictionary in the state given by the list.
\<close>

primrec dictScan_run :: "('k, 'v) dict list \<Rightarrow> 64 word \<Rightarrow> (('k, 'v) dictEntry list \<times> 64 word) option" where
  "dictScan_run [] v = Some ([], v)"
| "dictScan_run (d # ds) v = do {
     (es, v) \<leftarrow> dictScan d v;
     (es', v) \<leftarrow> dictScan_run ds v;
     Some (es @ es', v) }"

text \<open>No state in which a table is being rehashed is covered by fewer bits than its predecessor.\<close>

definition scan_grows :: "('k, 'v) dict \<Rightarrow> ('k, 'v) dict \<Rightarrow> bool" where
  "scan_grows d d' \<longleftrightarrow> (dictIsRehashing d' \<longrightarrow> scan_size d \<le> scan_size d')"

lemma dict_map_key_iff: "k \<in> dom (dict_map d) \<longleftrightarrow> k \<in> de_key ` set (dict_entries d)"
  by (force simp: dict_map_def dom_map_of_conv_image_fst)

lemma scan_pos_next_cases:
  assumes "a \<le> 63" "scan_pos v \<le> scan_pos h"
  obtains (now) "take_bit a h = take_bit a v" | (later) "scan_pos (scan_next a v) \<le> scan_pos h" "scan_next a v \<noteq> 0"
proof (cases "scan_pos h div 2 ^ (64 - a) = scan_pos v div 2 ^ (64 - a)")
  case True
  then show ?thesis
    using now scan_pos_div [of a h v] assms(1) by simp
next
  case False
  let ?K = "2 ^ (64 - a) :: nat"
  have "scan_pos v div ?K + 1 \<le> scan_pos h div ?K"
    using False div_le_mono [OF assms(2), of ?K] by simp
  then have "(scan_pos v div ?K + 1) * ?K \<le> scan_pos h div ?K * ?K"
    by (rule mult_le_mono1)
  also have "\<dots> \<le> scan_pos h"
    by (rule div_times_less_eq_dividend)
  finally have le: "(scan_pos v div ?K + 1) * ?K \<le> scan_pos h" .
  moreover have "scan_pos h < 2 ^ 64"
    using unsigned_less [of "rev_ul h", where 'a = nat] by (simp add: scan_pos_def)
  ultimately have eq: "scan_pos (scan_next a v) = (scan_pos v div ?K + 1) * ?K"
    using scan_next_pos(1) [OF assms(1), of v] by simp
  then have "scan_pos (scan_next a v) \<noteq> 0"
    by simp
  moreover have "scan_pos 0 = 0"
    by (simp add: scan_pos_def)
  ultimately show ?thesis
    using later eq le by (metis eq_refl)
qed

lemma dictScan_run_ok:
  assumes "\<forall>d\<in>set ds. dict_ok d \<and> dtype d = ty \<and> k \<in> dom (dict_map d)" "successively scan_grows ds"
    "ds \<noteq> [] \<Longrightarrow> dictIsRehashing (hd ds) \<Longrightarrow> unat v < scan_size (hd ds)"
  shows "\<exists>es c. dictScan_run ds v = Some (es, c) \<and> set es \<subseteq> (\<Union>d\<in>set ds. set (dict_entries d)) \<and>
    (ds \<noteq> [] \<and> c = 0 \<and> scan_pos v \<le> scan_pos (ucast (hashFunction ty k)) \<longrightarrow> k \<in> de_key ` set es)"
  using assms
proof (induction ds arbitrary: v)
  case (Cons d ds)
  let ?h = "ucast (hashFunction ty k) :: 64 word"
  have ok: "dict_ok d" "dtype d = ty" and k: "k \<in> de_key ` set (dict_entries d)"
    using Cons.prems(1) by (auto simp: dict_map_key_iff)
  have ne: "dictSize d \<noteq> 0"
  proof -
    have "dom (dict_map d) \<noteq> {}" "finite (dom (dict_map d))"
      using Cons.prems(1) dictSize_card(2) [OF ok(1)] by auto
    then show ?thesis
      using dictSize_card(1) [OF ok(1)] by (simp add: card_eq_0_iff)
  qed
  obtain a where a: "scan_size d = 2 ^ a" "a \<le> 31"
    using scan_sizeE [OF ok(1) ne] .
  obtain es where es: "dictScan d v = Some (es, scan_next a v)" "set es \<subseteq> set (dict_entries d)"
    "\<forall>e\<in>set (dict_entries d). take_bit a (ucast (hashFunction (dtype d) (de_key e)) :: 64 word) = take_bit a v \<longrightarrow> e \<in> set es"
    using dictScan_ok [OF ok(1) ne a(1), of v] Cons.prems(3) a(1) by auto
  have fits: "unat (scan_next a v) < scan_size (hd ds)" if "ds \<noteq> []" "dictIsRehashing (hd ds)"
  proof -
    have "unat (scan_next a v) mod 2 ^ a = unat (scan_next a v)"
      using a(2) by (simp add: unat_div_mod_word(2) scan_next_pos(2))
    then have "unat (scan_next a v) < 2 ^ a"
      by (metis mod_less_divisor zero_less_power zero_less_numeral)
    then show ?thesis
      using that Cons.prems(2) a(1) by (cases ds) (auto simp: scan_grows_def)
  qed
  have "\<forall>d\<in>set ds. dict_ok d \<and> dtype d = ty \<and> k \<in> dom (dict_map d)" "successively scan_grows ds"
    using Cons.prems(1,2) by (auto simp: successively_Cons)
  from Cons.IH [OF this fits] obtain es' c where IH: "dictScan_run ds (scan_next a v) = Some (es', c)"
    "set es' \<subseteq> (\<Union>d\<in>set ds. set (dict_entries d))"
    "ds \<noteq> [] \<and> c = 0 \<and> scan_pos (scan_next a v) \<le> scan_pos ?h \<longrightarrow> k \<in> de_key ` set es'"
    by blast
  have a63: "a \<le> 63"
    using a(2) by simp
  have "k \<in> de_key ` set (es @ es')" if "c = 0" "scan_pos v \<le> scan_pos ?h"
    using a63 that(2)
  proof (cases rule: scan_pos_next_cases)
    case now
    then have "k \<in> de_key ` set es"
      using k es(3) ok(2) by force
    then show ?thesis
      by auto
  next
    case later
    then have "ds \<noteq> []"
      using IH(1) that(1) by auto
    then show ?thesis
      using IH(3) later that(1) by auto
  qed
  then show ?case
    using es(1,2) IH(1,2) by (intro exI [of _ "es @ es'"] exI [of _ c]) auto
qed simp

text \<open>
  C2: the guarantee documented for \<open>dictScan\<close>: over any sequence of calls, started at cursor 0
  and each passing on the cursor it got, no bucket access is out of range, only stored entries
  are emitted, and when the cursor has come back to 0 every key that was in the dictionary at
  all of the calls has been emitted, though the tables may have been resized in between. The
  condition is that no call in the middle of a rehashing sees a smaller table that is smaller
  than what the previous call covered.
\<close>

theorem dictScan_complete:
  assumes "ds \<noteq> []" "\<forall>d\<in>set ds. dict_ok d \<and> dtype d = ty \<and> k \<in> dom (dict_map d)" "successively scan_grows ds"
  shows "\<exists>es c. dictScan_run ds 0 = Some (es, c) \<and> set es \<subseteq> (\<Union>d\<in>set ds. set (dict_entries d)) \<and>
    (c = 0 \<longrightarrow> k \<in> de_key ` set es)"
proof -
  have "unat (0 :: 64 word) < scan_size (hd ds)" if "dictIsRehashing (hd ds)"
    using assms(1,2) that dict_okD(8,9) [of "hd ds"] by (auto simp: scan_size_def)
  then show ?thesis
    using dictScan_run_ok [OF assms(2,3), of 0] assms(1) by (auto simp: scan_pos_def)
qed

text \<open>A table of 16 buckets holding one key, and the same dictionary after \<open>dictResize\<close>.\<close>

definition scan_d16 :: "(nat, nat) dict" where
  "scan_d16 = \<lparr>dtype = plainDictType,
     ht0 = \<lparr>ht_table = (replicate 16 [])[4 := [\<lparr>de_key = 4, de_val = 40\<rparr>]], ht_size = 16, ht_sizemask = 15, ht_used = 1\<rparr>,
     ht1 = dictReset, rehashidx = -1, iterators = 0\<rparr>"

definition scan_d16_4 :: "(nat, nat) dict" where
  "scan_d16_4 = scan_d16\<lparr>ht1 := \<lparr>ht_table = replicate 4 [], ht_size = 4, ht_sizemask = 3, ht_used = 0\<rparr>, rehashidx := 0\<rparr>"

lemma scan_d16_resize: "dictResize True scan_d16 = (DICT_OK, scan_d16_4)"
proof -
  have "dictNextPower 4 = 4"
    by (simp add: dictNextPower_def DICT_HT_INITIAL_SIZE_def LONG_MAX_def) (subst dictNextPower_loop.simps, simp)
  then show ?thesis
    by (simp add: dictResize_def scan_d16_def scan_d16_4_def dictIsRehashing_def dictExpand_def Let_def DICT_HT_INITIAL_SIZE_def to_signed_def)
qed

lemma dictScan_expand_unfold:
  "dictScan_expand t1 m0 m1 v =
     (case dictScan_emit t1 v of None \<Rightarrow> None
      | Some es \<Rightarrow>
          if and (or (and (or v m0 + 1) (not m0)) (and v m0)) (xor m0 m1) \<noteq> 0 then
            map_option (apfst (\<lambda>es'. es @ es')) (dictScan_expand t1 m0 m1 (or (and (or v m0 + 1) (not m0)) (and v m0)))
          else Some (es, or (and (or v m0 + 1) (not m0)) (and v m0)))"
proof -
  have "Option.bind r (\<lambda>(es', v). Some (es @ es', v)) = map_option (apfst (\<lambda>es'. es @ es')) r"
    for r :: "(('a, 'b) dictEntry list \<times> 64 word) option" and es
    by (cases r) auto
  then show ?thesis
    by (subst dictScan_expand.simps) (simp add: Let_def split: option.split)
qed

lemma dictScan_still:
  assumes "\<not> dictIsRehashing d" "dictSize d \<noteq> 0" "dictScan_emit (ht0 d) v = Some es" "ht_sizemask (ht0 d) = 2 ^ a - 1"
  shows "dictScan d v = Some (es, scan_next a v)"
  using assms by (simp add: dictScan_def scan_next_def mask_eq_exp_minus_1 of_nat_diff Let_def)

lemma dictScan_shrinking:
  assumes "dictIsRehashing d" "dictSize d \<noteq> 0" "ht_size (ht1 d) < ht_size (ht0 d)" "dictScan_emit (ht1 d) v = Some es"
    "ht_sizemask (ht1 d) = 2 ^ a - 1" "ht_sizemask (ht0 d) = 2 ^ b - 1" "dictScan_expand (ht0 d) (mask a) (mask b) v = Some (es', v')"
  shows "dictScan d v = Some (es @ es', scan_next a v')"
proof -
  have "of_nat (ht_sizemask (ht1 d)) = (mask a :: 64 word)" "of_nat (ht_sizemask (ht0 d)) = (mask b :: 64 word)"
    unfolding assms(5,6) by (simp_all add: mask_eq_exp_minus_1 of_nat_diff)
  then show ?thesis
    using assms(1-4,7) by (simp add: dictScan_def scan_next_def Let_def)
qed

lemma scan_next_eval:
  "scan_next 4 0 = 8" "scan_next 2 0x10 = 2" "scan_next 2 0x12 = 1" "scan_next 2 0x11 = 3" "scan_next 2 0x13 = 0"
  by (simp_all add: scan_next_def rev_ul_stages rev_stage_def mask_eq_exp_minus_1)

lemmas scan_d16_defs = scan_d16_def scan_d16_4_def dictScan_emit_def ht_at_def dictSize_def dictIsRehashing_def

lemma scan_d16_concat: "concat ((replicate 16 [])[4 := es]) = es"
  by (simp add: numeral_eq_Suc)

lemma scan_d16_expand:
  "dictScan_expand (ht0 scan_d16_4) (mask 2) (mask 4) 8 = Some ([], 0x10)"
  "dictScan_expand (ht0 scan_d16_4) (mask 2) (mask 4) 2 = Some ([], 0x12)"
  "dictScan_expand (ht0 scan_d16_4) (mask 2) (mask 4) 1 = Some ([], 0x11)"
  "dictScan_expand (ht0 scan_d16_4) (mask 2) (mask 4) 3 = Some ([], 0x13)"
  by (simp_all add: dictScan_expand_unfold [where v = "numeral _"] dictScan_expand_unfold [where v = 1]
    scan_d16_defs mask_eq_exp_minus_1)

lemma scan_d16_scan:
  "dictScan scan_d16 0 = Some ([], 8)" "dictScan scan_d16_4 8 = Some ([], 2)" "dictScan scan_d16_4 2 = Some ([], 1)"
  "dictScan scan_d16_4 1 = Some ([], 3)" "dictScan scan_d16_4 3 = Some ([], 0)"
proof -
  show "dictScan scan_d16 0 = Some ([], 8)"
    using dictScan_still [of scan_d16 0 "[]" 4] by (simp add: scan_d16_defs scan_next_eval)
  have "dictScan scan_d16_4 v = Some ([], scan_next 2 v')"
    if "dictScan_expand (ht0 scan_d16_4) (mask 2) (mask 4) v = Some ([], v')" "dictScan_emit (ht1 scan_d16_4) v = Some []" for v v'
    using dictScan_shrinking [OF _ _ _ that(2) _ _ that(1)] by (simp add: scan_d16_defs)
  from this [OF scan_d16_expand(1)] this [OF scan_d16_expand(2)] this [OF scan_d16_expand(3)] this [OF scan_d16_expand(4)]
  show "dictScan scan_d16_4 8 = Some ([], 2)" "dictScan scan_d16_4 2 = Some ([], 1)"
    "dictScan scan_d16_4 1 = Some ([], 3)" "dictScan scan_d16_4 3 = Some ([], 0)"
    by (simp_all add: scan_d16_defs scan_next_eval)
qed

text \<open>C3:
  The condition on shrinking cannot be dropped, so the guarantee that the comment over
  \<open>dictScan\<close> gives fails: with a table of 16 buckets resized to 4 after the first call, the scan
  visits the cursors 8, 2, 1, 3 and ends, having accessed no entry, although key 4 was stored
  all the time. The loop over the larger table increments the bits above the small mask
  upwards, from the value they have in the cursor, and stops when they wrap, so the buckets
  with smaller values are skipped.
\<close>

theorem dictScan_misses_when_shrinking:
  "dict_ok scan_d16 \<and> dictResize True scan_d16 = (DICT_OK, scan_d16_4) \<and> dict_ok scan_d16_4 \<and>
   dict_map scan_d16 4 = Some 40 \<and> dict_map scan_d16_4 4 = Some 40 \<and>
   dictScan_run [scan_d16, scan_d16_4, scan_d16_4, scan_d16_4, scan_d16_4] 0 = Some ([], 0)"
proof -
  have ok: "dict_ok scan_d16"
    unfolding dict_ok_def ht_ok_def
    by (auto simp: scan_d16_defs plainDictType_ok [unfolded plainDictType_def] dict_entries_def plainDictType_def ht_index_def
      nth_list_update scan_d16_concat intro!: exI [of _ 4])
  have m: "dict_map scan_d16 4 = Some 40"
    by (simp add: dict_map_def dict_entries_def scan_d16_def scan_d16_concat)
  have "dict_moved scan_d16 scan_d16_4"
    using dictResize_ok [OF ok, of True] by (simp add: scan_d16_resize)
  from dict_movedD [OF this ok] show ?thesis
    using ok m by (simp add: scan_d16_resize scan_d16_scan)
qed

lemma scan_pos_run:
  assumes "a \<le> 31"
  shows "scan_pos ((scan_next a ^^ n) 0) = n mod 2 ^ a * 2 ^ (64 - a)"
proof (induction n)
  case (Suc n)
  have p: "(2 :: nat) ^ 64 = 2 ^ a * 2 ^ (64 - a)"
    using assms by (simp flip: power_add)
  have "scan_pos ((scan_next a ^^ Suc n) 0) = (n mod 2 ^ a + 1) * 2 ^ (64 - a) mod 2 ^ 64"
    using scan_next_pos(1) [of a "(scan_next a ^^ n) 0"] assms Suc by simp
  also have "\<dots> = (n mod 2 ^ a + 1) mod 2 ^ a * 2 ^ (64 - a)"
    unfolding p by (rule mult_mod_left [symmetric])
  finally show ?case
    by (simp add: mod_simps)
qed (simp add: scan_pos_def)

lemma scan_pos_0_iff: "scan_pos v = 0 \<longleftrightarrow> v = 0"
  unfolding scan_pos_def unat_eq_zero by (metis rev_ul_0 rev_ul_rev_ul)

lemma dictScan_run_cursor:
  assumes "dict_ok d" "dictSize d \<noteq> 0" "scan_size d = 2 ^ a" "a \<le> 31" "take_bit a v = v"
  shows "\<exists>es. dictScan_run (replicate n d) v = Some (es, (scan_next a ^^ n) v)"
  using assms(5)
proof (induction n arbitrary: v)
  case (Suc n)
  have "unat v mod 2 ^ a = unat v"
    using Suc.prems by (simp add: unat_div_mod_word(2))
  then have "unat v < 2 ^ a"
    by (metis mod_less_divisor zero_less_power zero_less_numeral)
  then obtain es where "dictScan d v = Some (es, scan_next a v)"
    using dictScan_ok [OF assms(1-3), of v] by blast
  moreover obtain es' where "dictScan_run (replicate n d) (scan_next a v) = Some (es', (scan_next a ^^ n) (scan_next a v))"
    using Suc.IH [of "scan_next a v"] scan_next_pos(2) [of a v] assms(4) by auto
  ultimately show ?case
    by (simp add: funpow_swap1)
qed simp

lemma dictScan_terminates_nonempty:
  assumes "dict_ok d" "dictSize d \<noteq> 0"
  shows "(\<exists>es. dictScan_run (replicate (scan_size d) d) 0 = Some (es, 0) \<and> set es = set (dict_entries d)) \<and>
    (\<forall>n es c. 0 < n \<and> n < scan_size d \<and> dictScan_run (replicate n d) 0 = Some (es, c) \<longrightarrow> c \<noteq> 0)"
proof -
  obtain a where a: "scan_size d = 2 ^ a" "a \<le> 31"
    using scan_sizeE [OF assms] .
  have c0: "(scan_next a ^^ n) 0 = 0 \<longleftrightarrow> n mod 2 ^ a = 0" for n
    using scan_pos_run [OF a(2), of n] scan_pos_0_iff [of "(scan_next a ^^ n) 0"] by simp
  have run: "\<exists>es. dictScan_run (replicate n d) 0 = Some (es, (scan_next a ^^ n) 0)" for n
    using dictScan_run_cursor [OF assms a, of 0 n] by simp
  obtain es where es: "dictScan_run (replicate (2 ^ a) d) 0 = Some (es, 0)"
    using run [of "2 ^ a"] c0 [of "2 ^ a"] by auto
  have sub: "set es \<subseteq> set (dict_entries d) \<and> k \<in> de_key ` set es" if "k \<in> dom (dict_map d)" for k
  proof -
    have "\<exists>es c. dictScan_run (replicate (2 ^ a) d) 0 = Some (es, c) \<and>
      set es \<subseteq> (\<Union>d\<in>set (replicate (2 ^ a) d). set (dict_entries d)) \<and>
      (replicate (2 ^ a) d \<noteq> [] \<and> c = 0 \<and> scan_pos 0 \<le> scan_pos (ucast (hashFunction (dtype d) k)) \<longrightarrow> k \<in> de_key ` set es)"
      by (rule dictScan_run_ok) (use that assms(1) a(1) in \<open>auto simp: successively_conv_nth scan_grows_def\<close>)
    then show ?thesis
      using es by (auto simp: scan_pos_def)
  qed
  have "dom (dict_map d) \<noteq> {}"
    using dictSize_card(1) [OF assms(1)] assms(2) by auto
  then have le: "set es \<subseteq> set (dict_entries d)"
    using sub by blast
  have "e \<in> set es" if "e \<in> set (dict_entries d)" for e
  proof -
    have "de_key e \<in> de_key ` set es"
      using sub [of "de_key e"] that by (auto simp: dict_map_key_iff)
    then obtain e' where "e' \<in> set es" "de_key e' = de_key e"
      by force
    moreover have "inj_on de_key (set (dict_entries d))"
      using dict_okD(4) [OF assms(1)] by (simp add: distinct_map)
    ultimately show ?thesis
      using that le by (metis inj_onD subsetD)
  qed
  then have "set es = set (dict_entries d)"
    using le by blast
  moreover have "c \<noteq> 0" if "0 < n" "n < 2 ^ a" "dictScan_run (replicate n d) 0 = Some (es, c)" for n es c
    using run [of n] c0 [of n] that by auto
  ultimately show ?thesis
    using es a(1) by auto
qed

definition scan_calls :: "('k, 'v) dict \<Rightarrow> nat" where
  "scan_calls d = (if dictSize d = 0 then 1 else scan_size d)"

text \<open>C4:
  A scan ends: on a well-formed dictionary that does not change, rehashing or not, the cursor comes back
  to 0 after exactly as many calls as the smaller table has buckets (on an empty dictionary after
  the first call), never earlier, and by then precisely the entries of the dictionary have been emitted.
\<close>

theorem dictScan_terminates:
  assumes "dict_ok d"
  shows "(\<exists>es. dictScan_run (replicate (scan_calls d) d) 0 = Some (es, 0) \<and> set es = set (dict_entries d)) \<and>
    (\<forall>n es c. 0 < n \<and> n < scan_calls d \<and> dictScan_run (replicate n d) 0 = Some (es, c) \<longrightarrow> c \<noteq> 0)"
proof (cases "dictSize d = 0")
  case True
  then have "dict_entries d = []"
    using ht_ok_used [OF dict_okD(2) [OF assms(1)]] ht_ok_used [OF dict_okD(3) [OF assms(1)]]
    by (simp add: dictSize_def dict_entries_def)
  then show ?thesis
    using True by (simp add: scan_calls_def dictScan_def)
next
  case False
  then show ?thesis
    using dictScan_terminates_nonempty [OF assms(1) False] by (simp add: scan_calls_def)
qed

text \<open>A table of 4 buckets holding key 5.\<close>

definition scan_d4 :: "(nat, nat) dict" where
  "scan_d4 = \<lparr>dtype = plainDictType,
     ht0 = \<lparr>ht_table = (replicate 4 [])[1 := [\<lparr>de_key = 5, de_val = 50\<rparr>]], ht_size = 4, ht_sizemask = 3, ht_used = 1\<rparr>,
     ht1 = dictReset, rehashidx = -1, iterators = 0\<rparr>"

lemma scan_d4_ok: "dict_ok scan_d4" "dictSize scan_d4 \<noteq> 0" "scan_size scan_d4 = 4" "dict_map scan_d4 5 = Some 50"
  "dtype scan_d4 = plainDictType" "scan_grows scan_d4 scan_d4"
proof -
  have c: "concat ((replicate 4 [])[1 := es]) = es" "concat ((replicate 4 [])[Suc 0 := es]) = es" for es
    by (simp_all add: numeral_eq_Suc)
  show "dict_ok scan_d4"
    unfolding dict_ok_def ht_ok_def
    by (auto simp: scan_d4_def dictIsRehashing_def plainDictType_ok [unfolded plainDictType_def] dict_entries_def plainDictType_def
      ht_index_def nth_list_update c intro!: exI [of _ 2])
  show "dictSize scan_d4 \<noteq> 0" "scan_size scan_d4 = 4" "dict_map scan_d4 5 = Some 50" "dtype scan_d4 = plainDictType"
    "scan_grows scan_d4 scan_d4"
    by (simp_all add: scan_d4_def dictSize_def scan_size_def dict_map_def scan_grows_def dict_entries_def dictIsRehashing_def c)
qed

lemma scan_d4_scan:
  "dictScan scan_d4 0 = Some ([], 2)" "dictScan scan_d4 2 = Some ([], 1)"
  "dictScan scan_d4 1 = Some ([\<lparr>de_key = 5, de_val = 50\<rparr>], 3)" "dictScan scan_d4 3 = Some ([], 0)"
proof -
  have next_eval: "scan_next 2 0 = 2" "scan_next 2 2 = 1" "scan_next 2 1 = 3" "scan_next 2 3 = 0"
    by (simp_all add: scan_next_def rev_ul_stages rev_stage_def mask_eq_exp_minus_1)
  show "dictScan scan_d4 0 = Some ([], 2)" "dictScan scan_d4 2 = Some ([], 1)"
    "dictScan scan_d4 1 = Some ([\<lparr>de_key = 5, de_val = 50\<rparr>], 3)" "dictScan scan_d4 3 = Some ([], 0)"
    using dictScan_still [of scan_d4 0 "[]" 2] dictScan_still [of scan_d4 2 "[]" 2]
      dictScan_still [of scan_d4 1 "[\<lparr>de_key = 5, de_val = 50\<rparr>]" 2] dictScan_still [of scan_d4 3 "[]" 2]
    by (simp_all add: scan_d4_def dictScan_emit_def ht_at_def dictSize_def dictIsRehashing_def next_eval)
qed

theorem dictScan_complete_witness:
  "\<exists>es. dictScan_run [scan_d4, scan_d4, scan_d4, scan_d4] 0 = Some (es, 0) \<and> 5 \<in> de_key ` set es"
  using dictScan_complete [of "[scan_d4, scan_d4, scan_d4, scan_d4]" plainDictType 5]
  by (simp add: scan_d4_ok domI scan_d4_scan)

theorem dictScan_terminates_witness:
  "dict_ok scan_d4 \<and> (\<exists>es. dictScan_run (replicate 4 scan_d4) 0 = Some (es, 0) \<and> set es = set (dict_entries scan_d4)) \<and>
   (\<exists>es. dictScan_run [dictCreate plainDictType] 0 = Some (es, 0))"
proof (intro conjI)
  show "\<exists>es. dictScan_run (replicate 4 scan_d4) 0 = Some (es, 0) \<and> set es = set (dict_entries scan_d4)"
    using conjunct1 [OF dictScan_terminates [OF scan_d4_ok(1)]] by (simp only: scan_calls_def scan_d4_ok(2,3) if_False)
  show "\<exists>es. dictScan_run [dictCreate plainDictType] 0 = Some (es, 0)"
    using dictScan_terminates [OF dict_ok_create(1) [OF plainDictType_ok]] by (auto simp: scan_calls_def)
qed (rule scan_d4_ok(1))

end
