(* ===== verification/Dict_Iter.thy ===== *)
theory Dict_Iter
  imports Dict_Refinement
begin

text \<open>
  The iterators of \<^verbatim>\<open>redis-3.0.0/src/dict.c\<close>: \<open>dictGetIterator\<close>, \<open>dictGetSafeIterator\<close>, \<open>dictNext\<close>,
  \<open>dictReleaseIterator\<close> with the fingerprint of unsafe iterators, and \<open>dictGetRandomKey\<close>. A pointer to an
  entry is the chain from that entry on, empty for \<open>NULL\<close>. The addresses of the two bucket arrays, which
  the fingerprint mixes in, are the argument \<open>addr\<close>; the results of \<open>random\<close> are a sequence.
\<close>

section \<open>Definitions\<close>

record ('k, 'v) dictIterator =
  it_index :: int
  it_table :: nat
  it_safe :: bool
  it_entry :: "('k, 'v) chain"
  it_nextEntry :: "('k, 'v) chain"
  it_fingerprint :: "64 word"

text \<open>The shifts to the right act on a signed number.\<close>

definition fingerprint_mix :: "64 word \<Rightarrow> 64 word" where
  "fingerprint_mix hash = (
     let hash = not hash + push_bit 21 hash;
         hash = xor hash (signed_drop_bit 24 hash);
         hash = (hash + push_bit 3 hash) + push_bit 8 hash;
         hash = xor hash (signed_drop_bit 14 hash);
         hash = (hash + push_bit 2 hash) + push_bit 4 hash;
         hash = xor hash (signed_drop_bit 28 hash)
     in hash + push_bit 31 hash)"

definition dictFingerprint :: "(nat \<Rightarrow> 64 word) \<Rightarrow> ('k, 'v) dict \<Rightarrow> 64 word" where
  "dictFingerprint addr d =
     foldl (\<lambda>hash i. fingerprint_mix (hash + i)) 0
       [addr 0, of_nat (ht_size (ht0 d)), of_nat (ht_used (ht0 d)),
        addr 1, of_nat (ht_size (ht1 d)), of_nat (ht_used (ht1 d))]"

definition dictGetIterator :: "('k, 'v) dictIterator" where
  "dictGetIterator =
     \<lparr>it_index = -1, it_table = 0, it_safe = False, it_entry = [], it_nextEntry = [], it_fingerprint = 0\<rparr>"

definition dictGetSafeIterator :: "('k, 'v) dictIterator" where
  "dictGetSafeIterator = dictGetIterator\<lparr>it_safe := True\<rparr>"

text \<open>What the first call does: a safe iterator is counted, an unsafe one takes the fingerprint.\<close>

definition dictNext_start ::
  "(nat \<Rightarrow> 64 word) \<Rightarrow> ('k, 'v) dict \<Rightarrow> ('k, 'v) dictIterator \<Rightarrow> ('k, 'v) dict \<times> ('k, 'v) dictIterator" where
  "dictNext_start addr d it =
     (if it_index it = -1 \<and> it_table it = 0 then
        if it_safe it then (d\<lparr>iterators := iterators d + 1\<rparr>, it)
        else (d, it\<lparr>it_fingerprint := dictFingerprint addr d\<rparr>)
      else (d, it))"

text \<open>The next bucket, or \<open>None\<close> behind the last one.\<close>

definition dictNext_bucket :: "('k, 'v) dict \<Rightarrow> ('k, 'v) dictIterator \<Rightarrow> bool \<times> ('k, 'v) dictIterator" where
  "dictNext_bucket d it =
     (let it = it\<lparr>it_index := it_index it + 1\<rparr> in
      if it_index it \<ge> to_signed 64 (int (ht_size (ht_of d (it_table it)))) then
        if dictIsRehashing d \<and> it_table it = 0 then (True, it\<lparr>it_table := 1, it_index := 0\<rparr>)
        else (False, it)
      else (True, it))"

partial_function (option) dictNext ::
  "(nat \<Rightarrow> 64 word) \<Rightarrow> ('k, 'v) dict \<Rightarrow> ('k, 'v) dictIterator \<Rightarrow>
     (('k, 'v) dictEntry option \<times> ('k, 'v) dictIterator \<times> ('k, 'v) dict) option" where
  "dictNext addr d it = do {
     (more, it, d) \<leftarrow>
       (if it_entry it = [] then do {
          let (d, it) = dictNext_start addr d it;
          let (more, it) = dictNext_bucket d it;
          if \<not> more then Some (False, it, d)
          else do { c \<leftarrow> ht_at (ht_of d (it_table it)) (it_index it); Some (True, it\<lparr>it_entry := c\<rparr>, d) } }
        else Some (True, it\<lparr>it_entry := it_nextEntry it\<rparr>, d));
     if \<not> more then Some (None, it, d)
     else case it_entry it of
       e # rest \<Rightarrow> Some (Some e, it\<lparr>it_nextEntry := rest\<rparr>, d)
     | [] \<Rightarrow> dictNext addr d it }"

text \<open>The assertion on the fingerprint failing is a fault.\<close>

definition dictReleaseIterator ::
  "(nat \<Rightarrow> 64 word) \<Rightarrow> ('k, 'v) dict \<Rightarrow> ('k, 'v) dictIterator \<Rightarrow> ('k, 'v) dict option" where
  "dictReleaseIterator addr d it =
     (if \<not> (it_index it = -1 \<and> it_table it = 0) then
        if it_safe it then Some (d\<lparr>iterators := iterators d - 1\<rparr>)
        else if it_fingerprint it = dictFingerprint addr d then Some d
        else None
      else Some d)"

text \<open>
  \<open>dictGetRandomKey\<close>: the loop that draws buckets, with the number of draws so far, and the choice
  inside the chain. \<open>h\<close> is an unsigned int.
\<close>

partial_function (option) random_bucket ::
  "(nat \<Rightarrow> nat) \<Rightarrow> ('k, 'v) dict \<Rightarrow> nat \<Rightarrow> (('k, 'v) chain \<times> nat) option" where
  "random_bucket random d n = do {
     he \<leftarrow> (if dictIsRehashing d then do {
              let h = u32 (nat (rehashidx d) + random n mod (ht_size (ht0 d) + ht_size (ht1 d) - nat (rehashidx d)));
              if h \<ge> ht_size (ht0 d) then ht_at (ht1 d) (int (h - ht_size (ht0 d))) else ht_at (ht0 d) (int h) }
            else do {
              let h = u32 (and (random n) (ht_sizemask (ht0 d)));
              ht_at (ht0 d) (int h) });
     if he = [] then random_bucket random d (Suc n) else Some (he, Suc n) }"

definition dictGetRandomKey ::
  "(nat \<Rightarrow> nat) \<Rightarrow> ('k, 'v) dict \<Rightarrow> (('k, 'v) dictEntry option \<times> ('k, 'v) dict) option" where
  "dictGetRandomKey random d =
     (if dictSize d = 0 then Some (None, d)
      else do {
        d \<leftarrow> (if dictIsRehashing d then dictRehashStep d else Some d);
        (he, n) \<leftarrow> random_bucket random d 0;
        let listele = random n mod length he;
        Some (Some (he ! listele), d) })"

section \<open>What an iterator has given and has still to give\<close>

text \<open>
  The entries before bucket \<open>i\<close> of table \<open>j\<close>, and the entries an iterator will still return. \<open>it_at d it kept\<close>
  says where the iterator stands: the entries before it are \<open>kept\<close>.
\<close>

definition entries_before :: "('k, 'v) dict \<Rightarrow> nat \<Rightarrow> nat \<Rightarrow> ('k, 'v) dictEntry list" where
  "entries_before d j i =
     (if j = 0 then concat (take i (ht_table (ht0 d)))
      else concat (ht_table (ht0 d)) @ concat (take i (ht_table (ht1 d))))"

definition entries_from :: "('k, 'v) dict \<Rightarrow> nat \<Rightarrow> nat \<Rightarrow> ('k, 'v) dictEntry list" where
  "entries_from d j i =
     (if j = 0 then concat (drop i (ht_table (ht0 d))) @ concat (ht_table (ht1 d))
      else concat (drop i (ht_table (ht1 d))))"

definition it_pending :: "('k, 'v) dict \<Rightarrow> ('k, 'v) dictIterator \<Rightarrow> ('k, 'v) dictEntry list" where
  "it_pending d it =
     (if it_entry it = [] then [] else it_nextEntry it) @ entries_from d (it_table it) (nat (it_index it + 1))"

definition it_at :: "('k, 'v) dict \<Rightarrow> ('k, 'v) dictIterator \<Rightarrow> ('k, 'v) dictEntry list \<Rightarrow> bool" where
  "it_at d it kept \<longleftrightarrow>
     it_table it \<le> 1 \<and> (it_table it = 1 \<longrightarrow> dictIsRehashing d) \<and> -1 \<le> it_index it \<and>
     it_index it < int (ht_size (ht_of d (it_table it))) \<and>
     (if it_entry it = [] then kept = entries_before d (it_table it) (nat (it_index it + 1))
      else 0 \<le> it_index it \<and>
        (\<exists>pre. ht_table (ht_of d (it_table it)) ! nat (it_index it) = pre @ it_nextEntry it \<and>
               kept = entries_before d (it_table it) (nat (it_index it)) @ pre))"

lemma entries_before_Suc:
  "i < length (ht_table (ht_of d j)) \<Longrightarrow> j \<le> 1 \<Longrightarrow>
     entries_before d j (Suc i) = entries_before d j i @ ht_table (ht_of d j) ! i"
  by (auto simp: entries_before_def ht_of_def take_Suc_conv_app_nth)

lemma entries_from_Suc:
  "i < length (ht_table (ht_of d j)) \<Longrightarrow> j \<le> 1 \<Longrightarrow>
     entries_from d j i = ht_table (ht_of d j) ! i @ entries_from d j (Suc i)"
  by (auto simp: entries_from_def ht_of_def Cons_nth_drop_Suc [symmetric])

lemma entries_split: "j \<le> 1 \<Longrightarrow> dict_entries d = entries_before d j i @ entries_from d j i"
  by (auto simp: entries_before_def entries_from_def dict_entries_def
      simp flip: concat_append append.assoc)

lemma it_at_entries:
  assumes ok: "dict_ok d" and at: "it_at d it kept"
  shows "dict_entries d = kept @ it_pending d it"
proof (cases "it_entry it = []")
  case True
  then show ?thesis
    using at entries_split [of "it_table it" d "nat (it_index it + 1)"] by (simp add: it_at_def it_pending_def)
next
  case False
  let ?i = "nat (it_index it)"
  obtain pre where pre: "ht_table (ht_of d (it_table it)) ! ?i = pre @ it_nextEntry it"
    "kept = entries_before d (it_table it) ?i @ pre"
    using at False by (auto simp: it_at_def)
  have len: "?i < length (ht_table (ht_of d (it_table it)))" and j: "it_table it \<le> 1" and s: "nat (it_index it + 1) = Suc ?i"
    using at False ht_ok_length [OF ht_of_ok [OF ok]] by (auto simp: it_at_def nat_add_distrib)
  show ?thesis
    using entries_split [OF j, of d ?i] entries_from_Suc [OF len j] pre False by (simp add: it_pending_def s)
qed

lemma ht_size_signed:
  assumes "ht_ok H t"
  shows "to_signed 64 (int (ht_size t)) = int (ht_size t)"
proof -
  have "ht_size t \<le> 2 ^ 31"
    using assms power_increasing [of _ 31 "2 :: nat"] by (auto simp: ht_ok_def)
  then show ?thesis
    by (intro to_signed_id) auto
qed

text \<open>
  A call of \<open>dictNext\<close>: it returns the first pending entry and then stands behind it, or \<open>NULL\<close> when
  nothing is pending.
\<close>

definition next_result ::
  "('k, 'v) dict \<Rightarrow> ('k, 'v) dictIterator \<Rightarrow> ('k, 'v) dictEntry list \<Rightarrow>
     (('k, 'v) dictEntry option \<times> ('k, 'v) dictIterator \<times> ('k, 'v) dict) option \<Rightarrow> bool" where
  "next_result d it kept r \<longleftrightarrow> (\<exists>it'. it_safe it' = it_safe it \<and> it_fingerprint it' = it_fingerprint it \<and> it_index it' \<ge> 0 \<and>
     (case it_pending d it of
        [] \<Rightarrow> r = Some (None, it', d)
      | e # es \<Rightarrow> r = Some (Some e, it', d) \<and> it_entry it' = e # it_nextEntry it' \<and> it_pending d it' = es \<and>
          it_table it' \<le> 1 \<and> (it_table it' = 1 \<longrightarrow> dictIsRehashing d) \<and>
          it_index it' < int (ht_size (ht_of d (it_table it'))) \<and>
          (\<exists>pre. ht_table (ht_of d (it_table it')) ! nat (it_index it') = pre @ e # it_nextEntry it' \<and>
                 kept = entries_before d (it_table it') (nat (it_index it')) @ pre)))"

text \<open>The bucket \<open>dictNext_bucket\<close> moves to.\<close>

lemma dictNext_bucket_ok:
  assumes ok: "dict_ok d" and at: "it_at d it kept" and null: "it_entry it = []"
  obtains (more) j i where "dictNext_bucket d it = (True, it\<lparr>it_table := j, it_index := int i\<rparr>)" "j \<le> 1"
      "j = 1 \<longrightarrow> dictIsRehashing d" "i < ht_size (ht_of d j)" "kept = entries_before d j i"
      "it_pending d it = entries_from d j i" "it_table it \<le> j" "it_table it = j \<longrightarrow> int i = it_index it + 1"
  | (stop) it' where "dictNext_bucket d it = (False, it')" "it_pending d it = []" "it_index it' \<ge> 0"
      "it_safe it' = it_safe it" "it_fingerprint it' = it_fingerprint it"
proof -
  let ?j = "it_table it" and ?i = "nat (it_index it + 1)"
  have A: "?j \<le> 1" "?j = 1 \<longrightarrow> dictIsRehashing d" "-1 \<le> it_index it" "it_index it < int (ht_size (ht_of d ?j))"
    "kept = entries_before d ?j ?i" "it_pending d it = entries_from d ?j ?i"
    using at null by (simp_all add: it_at_def it_pending_def)
  have size: "to_signed 64 (int (ht_size (ht_of d ?j))) = int (ht_size (ht_of d ?j))"
    by (rule ht_size_signed [OF ht_of_ok [OF ok]])
  have len: "length (ht_table (ht_of d j)) = ht_size (ht_of d j)" for j
    by (rule ht_ok_length [OF ht_of_ok [OF ok]])
  show thesis
  proof (cases "?i < ht_size (ht_of d ?j)")
    case True
    then have "\<not> int (ht_size (ht_of d ?j)) \<le> it_index it + 1"
      using A(3) by linarith
    then have "dictNext_bucket d it = (True, it\<lparr>it_table := ?j, it_index := int ?i\<rparr>)"
      using size A(3) by (simp add: dictNext_bucket_def Let_def)
    then show thesis
      using True A by (intro more [of ?i ?j]) simp_all
  next
    case False
    then have eq: "?i = ht_size (ht_of d ?j)" and out: "int (ht_size (ht_of d ?j)) \<le> it_index it + 1"
      using A(3,4) by linarith+
    show thesis
    proof (cases "dictIsRehashing d \<and> ?j = 0")
      case True
      have "dictNext_bucket d it = (True, it\<lparr>it_table := 1, it_index := int 0\<rparr>)"
        using True size out by (simp add: dictNext_bucket_def Let_def)
      moreover have "0 < ht_size (ht1 d)"
        using ok True by (simp add: dict_ok_def)
      ultimately show thesis
        using True A(5,6) eq len [of 0]
        by (intro more [of 0 1]) (simp_all add: entries_before_def entries_from_def)
    next
      case no: False
      have "dictNext_bucket d it = (False, it\<lparr>it_index := it_index it + 1\<rparr>)"
        using no size out by (auto simp: dictNext_bucket_def Let_def)
      moreover have "entries_from d ?j ?i = []"
      proof (cases "?j = 0")
        case True
        then have "ht1 d = dictReset"
          using ok no by (simp add: dict_ok_def)
        then show ?thesis
          using True eq len [of 0] by (simp add: entries_from_def)
      next
        case False
        then show ?thesis
          using A(1) eq len [of 1] by (simp add: entries_from_def ht_of_def)
      qed
      ultimately show thesis
        using A(3,6) by (intro stop [of "it\<lparr>it_index := it_index it + 1\<rparr>"]) simp_all
    qed
  qed
qed

lemma dictNext_null:
  assumes "it_entry it = []" "dictNext_start addr d it = (d0, it0)"
  shows "dictNext addr d it = (let (more, it) = dictNext_bucket d0 it0 in
     if \<not> more then Some (None, it, d0)
     else do {
       c \<leftarrow> ht_at (ht_of d0 (it_table it)) (it_index it);
       case c of
         e # rest \<Rightarrow> Some (Some e, it\<lparr>it_entry := c, it_nextEntry := rest\<rparr>, d0)
       | [] \<Rightarrow> dictNext addr d0 (it\<lparr>it_entry := c\<rparr>) })"
  using assms by (subst dictNext.simps) (auto simp: Let_def split: prod.splits option.splits list.splits)

lemma dictNext_start_later: "it_index it \<ge> 0 \<Longrightarrow> dictNext_start addr d it = (d, it)"
  by (simp add: dictNext_start_def)

lemma dictNext_from_null:
  assumes "dict_ok d0" "it_at d0 it0 kept" "it_entry it0 = []" "it_entry it = []" "dictNext_start addr d it = (d0, it0)"
  shows "next_result d0 it0 kept (dictNext addr d it)"
  using assms(2-)
proof (induction "ht_size (ht0 d0) + ht_size (ht1 d0) - (if it_table it0 = 0 then 0 else ht_size (ht0 d0)) - nat (it_index it0 + 1)"
    arbitrary: it it0 d rule: less_induct)
  case less
  note ok = assms(1)
  show ?case
  proof (cases rule: dictNext_bucket_ok [OF ok less.prems(1,2), case_names more stop])
    case (more j i)
    let ?it = "it0\<lparr>it_table := j, it_index := int i\<rparr>"
    let ?c = "ht_table (ht_of d0 j) ! i"
    have len: "i < length (ht_table (ht_of d0 j))"
      using more(4) ht_ok_length [OF ht_of_ok [OF ok]] by simp
    show ?thesis
    proof (cases ?c)
      case Nil
      have at: "it_at d0 ?it kept"
        using more(2,3,4,5) entries_before_Suc [OF len more(2)] Nil less.prems(2) by (simp add: it_at_def nat_add_distrib)
      have pend: "it_pending d0 ?it = it_pending d0 it0"
        using more(2,6) entries_from_Suc [OF len more(2)] Nil less.prems(2) by (simp add: it_pending_def nat_add_distrib)
      have "it_index it0 < int (ht_size (ht_of d0 (it_table it0)))" "it_table it0 \<le> 1"
        using less.prems(1) by (simp_all add: it_at_def)
      then have "ht_size (ht0 d0) + ht_size (ht1 d0) - (if it_table ?it = 0 then 0 else ht_size (ht0 d0)) - nat (it_index ?it + 1)
          < ht_size (ht0 d0) + ht_size (ht1 d0) - (if it_table it0 = 0 then 0 else ht_size (ht0 d0)) - nat (it_index it0 + 1)"
        using more(2,4,7,8) by (cases "it_table it0 = 0"; cases "j = 0") (auto simp: ht_of_def)
      then have "next_result d0 ?it kept (dictNext addr d0 ?it)"
        using at less.prems(2) dictNext_start_later [of ?it addr d0] by (intro less.hyps) simp_all
      moreover have "dictNext addr d it = dictNext addr d0 (?it\<lparr>it_entry := []\<rparr>)"
        using more(1) Nil len by (subst dictNext_null [OF less.prems(3,4)]) simp
      moreover have "?it\<lparr>it_entry := []\<rparr> = ?it"
        using less.prems(2) by simp
      ultimately show ?thesis
        using pend by (simp add: next_result_def)
    next
      case (Cons e rest)
      let ?r = "?it\<lparr>it_entry := ?c, it_nextEntry := rest\<rparr>"
      have "dictNext addr d it = Some (Some e, ?r, d0)"
        using more(1) Cons len by (subst dictNext_null [OF less.prems(3,4)]) simp
      moreover have "it_pending d0 it0 = e # it_pending d0 ?r"
        using more(2,6) entries_from_Suc [OF len more(2)] Cons by (simp add: it_pending_def nat_add_distrib)
      ultimately show ?thesis
        using more(2-5) Cons unfolding next_result_def by (intro exI [of _ ?r]) simp
    qed
  next
    case (stop it')
    have "dictNext addr d it = Some (None, it', d0)"
      using stop(1) by (subst dictNext_null [OF less.prems(3,4)]) simp
    then show ?thesis
      using stop unfolding next_result_def by (intro exI [of _ it']) simp
  qed
qed

lemma dictNext_later:
  assumes ok: "dict_ok d" and at: "it_at d it kept" and i: "it_index it \<ge> 0"
  shows "next_result d it kept (dictNext addr d it)"
proof (cases "it_entry it = []")
  case True
  then show ?thesis
    using dictNext_from_null [OF ok at True True dictNext_start_later [OF i]] by simp
next
  case False
  let ?j = "it_table it" and ?i = "nat (it_index it)"
  obtain pre where pre: "ht_table (ht_of d ?j) ! ?i = pre @ it_nextEntry it" "kept = entries_before d ?j ?i @ pre"
    and j: "?j \<le> 1" "?j = 1 \<longrightarrow> dictIsRehashing d" "it_index it < int (ht_size (ht_of d ?j))"
    using at False by (auto simp: it_at_def)
  have len: "?i < length (ht_table (ht_of d ?j))" and s: "nat (it_index it + 1) = Suc ?i"
    using i j(3) ht_ok_length [OF ht_of_ok [OF ok]] by (auto simp: nat_add_distrib)
  show ?thesis
  proof (cases "it_nextEntry it")
    case Nil
    let ?it = "it\<lparr>it_entry := []\<rparr>"
    have at': "it_at d ?it kept"
      using at pre Nil j entries_before_Suc [OF len j(1)] i by (simp add: it_at_def s)
    have "next_result d ?it kept (dictNext addr d ?it)"
      using i by (intro dictNext_from_null [OF ok at']) (simp_all add: dictNext_start_later)
    moreover have "dictNext addr d it = dictNext addr d ?it"
      using False Nil by (subst dictNext.simps) simp
    moreover have "it_pending d ?it = it_pending d it"
      using False Nil by (simp add: it_pending_def)
    ultimately show ?thesis
      by (simp add: next_result_def)
  next
    case (Cons e rest)
    let ?r = "it\<lparr>it_entry := it_nextEntry it, it_nextEntry := rest\<rparr>"
    have "dictNext addr d it = Some (Some e, ?r, d)"
      using False Cons by (subst dictNext.simps) simp
    moreover have "it_pending d it = e # it_pending d ?r"
      using False Cons by (simp add: it_pending_def)
    ultimately show ?thesis
      using pre Cons j i unfolding next_result_def by (intro exI [of _ ?r]) simp
  qed
qed

section \<open>Deleting the entry an iterator returned\<close>

lemma chain_find_split:
  "dictType_ok (dtype d) \<Longrightarrow> de_key e \<notin> de_key ` set pre \<Longrightarrow> chain_find d (de_key e) (pre @ e # suf) = Some (length pre)"
  by (induction pre) (auto simp: dictType_ok_simps)

lemma chain_unlink_split: "chain_unlink (pre @ e # suf) (length pre) = pre @ suf"
  by (simp add: chain_unlink_def)

lemma dictDelete_current:
  assumes ok: "dict_ok d" and it: "iterators d \<noteq> 0" and j: "j \<le> 1" "j = 1 \<longrightarrow> dictIsRehashing d" and i: "i < ht_size (ht_of d j)"
    and b: "ht_table (ht_of d j) ! i = pre @ e # suf"
  shows "\<exists>d'. dictDelete d (de_key e) = Some (DICT_OK, [e], d') \<and> dict_ok d' \<and>
    d' = set_ht d j ((ht_of d j)\<lparr>ht_table := (ht_table (ht_of d j))[i := pre @ suf], ht_used := ht_used (ht_of d j) - 1\<rparr>)"
proof -
  let ?k = "de_key e"
  have ty: "dictType_ok (dtype d)" and hok: "ht_ok (hashFunction (dtype d)) (ht_of d j)" for j
    using ok ht_of_ok [OF ok] by (simp_all add: dict_ok_def)
  have len: "length (ht_table (ht_of d j)) = ht_size (ht_of d j)" for j
    by (rule ht_ok_length [OF hok])
  have idx: "key_bucket d j ?k = i"
    using ht_okD(5) [OF hok _ i, of e] i b by simp
  have dist: "distinct (map de_key (entries_before d j i @ (pre @ e # suf) @ entries_from d j (Suc i)))"
    using ok entries_split [OF j(1), of d i] entries_from_Suc [of i d j] len i j(1) b by (simp add: dict_ok_def)
  then have pre: "?k \<notin> de_key ` set pre"
    by auto
  have size0: "ht_size (ht0 d) > 0"
    using j i ok by (cases "j = 0") (auto simp: dict_ok_def ht_of_def)
  have step: "(if dictIsRehashing d then dictRehashStep d else Some d) = Some d"
    using it by (simp add: dictRehashStep_def)
  have loc: "dict_locates d ?k (Some (j, int i, length pre))"
    using j idx i b by (simp add: dict_locates_def)
  have find: "dictFind d ?k = Some (Some (j, int i, length pre), d)"
  proof (cases "j = 0")
    case True
    then show ?thesis
      using size0 step bucket_at(1) [OF ok size0, of ?k] idx b chain_find_split [OF ty pre, of suf]
      by (simp add: dictFind_def Let_def dictHashKey_def)
  next
    case False
    then have j1: "j = 1" and re: "dictIsRehashing d"
      using j by auto
    have "set (ht_table (ht0 d) ! key_bucket d 0 ?k) \<subseteq> set (entries_before d j i)"
      using ht_index_less(1) [OF hok [of 0]] size0 len [of 0] j1 by (auto simp: entries_before_def)
    then have "?k \<notin> de_key ` set (ht_table (ht0 d) ! key_bucket d 0 ?k)"
      using dist by auto
    then have "chain_find d ?k (ht_table (ht0 d) ! key_bucket d 0 ?k) = None"
      using chain_find_None [OF ty] by blast
    then show ?thesis
      using size0 step bucket_at [OF ok size0, of ?k] idx b chain_find_split [OF ty pre, of suf] j1 re
      by (simp add: dictFind_def Let_def dictHashKey_def)
  qed
  obtain d' where d': "dictUnlinkAt d j (int i) (pre @ e # suf) (length pre) = Some d'" "dict_ok d'"
    using dictUnlinkAt_ok [OF ok loc] idx b by auto
  have "d' = set_ht d j ((ht_of d j)\<lparr>ht_table := (ht_table (ht_of d j))[i := pre @ suf], ht_used := ht_used (ht_of d j) - 1\<rparr>)"
    using d'(1) len i by (simp add: dictUnlinkAt_def chain_unlink_split)
  then show ?thesis
    using find d' len i b by (simp add: dictDelete_def dictGenericDelete_find)
qed

lemma it_at_unlink:
  assumes j: "j \<le> 1" "i < length (ht_table (ht_of d j))"
    and d': "d' = set_ht d j ((ht_of d j)\<lparr>ht_table := (ht_table (ht_of d j))[i := c], ht_used := u\<rparr>)"
  shows "entries_before d' j i = entries_before d j i" "entries_from d' j (Suc i) = entries_from d j (Suc i)"
    "ht_table (ht_of d' j) ! i = c" "ht_size (ht_of d' k) = ht_size (ht_of d k)" "dictIsRehashing d' = dictIsRehashing d"
    "iterators d' = iterators d" "rehashidx d' = rehashidx d" "dtype d' = dtype d"
  using assms by (auto simp: entries_before_def entries_from_def ht_of_def set_ht_def dictIsRehashing_def)

text \<open>
  The use of an iterator that the comment of \<open>dictNext\<close> allows: every returned entry may be deleted. The
  entries returned are collected.
\<close>

partial_function (option) dict_purge ::
  "(nat \<Rightarrow> 64 word) \<Rightarrow> (('k, 'v) dictEntry \<Rightarrow> bool) \<Rightarrow> ('k, 'v) dict \<Rightarrow> ('k, 'v) dictIterator \<Rightarrow>
     (('k, 'v) dictEntry list \<times> ('k, 'v) dictIterator \<times> ('k, 'v) dict) option" where
  "dict_purge addr P d it = do {
     (r, it, d) \<leftarrow> dictNext addr d it;
     case r of
       None \<Rightarrow> Some ([], it, d)
     | Some e \<Rightarrow> do {
         d \<leftarrow> (if P e then do { (rc, freed, d) \<leftarrow> dictDelete d (de_key e); Some d } else Some d);
         (es, it, d) \<leftarrow> dict_purge addr P d it;
         Some (e # es, it, d) } }"

definition purge_result ::
  "(('k, 'v) dictEntry \<Rightarrow> bool) \<Rightarrow> ('k, 'v) dict \<Rightarrow> ('k, 'v) dictIterator \<Rightarrow> ('k, 'v) dictEntry list \<Rightarrow>
     (('k, 'v) dictEntry list \<times> ('k, 'v) dictIterator \<times> ('k, 'v) dict) option \<Rightarrow> bool" where
  "purge_result P d it kept r \<longleftrightarrow> (\<exists>it' d'. r = Some (it_pending d it, it', d') \<and> dict_ok d' \<and>
     dict_entries d' = kept @ filter (\<lambda>e. \<not> P e) (it_pending d it) \<and>
     it_safe it' = it_safe it \<and> it_fingerprint it' = it_fingerprint it \<and> it_index it' \<ge> 0 \<and>
     iterators d' = iterators d \<and> rehashidx d' = rehashidx d \<and> dtype d' = dtype d \<and>
     ((\<forall>e \<in> set (it_pending d it). \<not> P e) \<longrightarrow> d' = d))"

text \<open>What follows a call of \<open>dictNext\<close>.\<close>

lemma dict_purge_step:
  assumes ok: "dict_ok d" and it: "iterators d \<noteq> 0 \<or> (\<forall>e. \<not> P e)"
    and nr: "next_result d it kept (dictNext addr d1 it1)" and ent: "dict_entries d = kept @ it_pending d it"
    and IH: "\<And>d' it' kept'. dict_ok d' \<Longrightarrow> iterators d' \<noteq> 0 \<or> (\<forall>e. \<not> P e) \<Longrightarrow> it_at d' it' kept' \<Longrightarrow> it_index it' \<ge> 0 \<Longrightarrow>
      it_pending d' it' = tl (it_pending d it) \<Longrightarrow> it_pending d it \<noteq> [] \<Longrightarrow> purge_result P d' it' kept' (dict_purge addr P d' it')"
  shows "purge_result P d it kept (dict_purge addr P d1 it1)"
proof (cases "it_pending d it")
  case Nil
  then obtain it' where "dictNext addr d1 it1 = Some (None, it', d)" "it_safe it' = it_safe it"
    "it_fingerprint it' = it_fingerprint it" "it_index it' \<ge> 0"
    using nr unfolding next_result_def by auto
  then show ?thesis
    using Nil ok ent unfolding purge_result_def by (subst dict_purge.simps) simp
next
  case (Cons e es)
  then obtain it' pre where n: "dictNext addr d1 it1 = Some (Some e, it', d)" "it_safe it' = it_safe it"
    "it_fingerprint it' = it_fingerprint it" "it_index it' \<ge> 0" "it_entry it' = e # it_nextEntry it'" "it_pending d it' = es"
    "it_table it' \<le> 1" "it_table it' = 1 \<longrightarrow> dictIsRehashing d" "it_index it' < int (ht_size (ht_of d (it_table it')))"
    "ht_table (ht_of d (it_table it')) ! nat (it_index it') = pre @ e # it_nextEntry it'"
    "kept = entries_before d (it_table it') (nat (it_index it')) @ pre"
    using nr unfolding next_result_def by auto
  let ?j = "it_table it'" and ?i = "nat (it_index it')"
  have s: "nat (it_index it' + 1) = Suc ?i" and i: "?i < ht_size (ht_of d ?j)"
    using n(4,9) by (simp_all add: nat_add_distrib)
  have len: "?i < length (ht_table (ht_of d ?j))"
    using i ht_ok_length [OF ht_of_ok [OF ok]] by simp
  show ?thesis
  proof (cases "P e")
    case False
    have "it_at d it' (kept @ [e])"
      using n by (simp add: it_at_def)
    then have r: "purge_result P d it' (kept @ [e]) (dict_purge addr P d it')"
      using Cons n(4,6) by (intro IH [OF ok it]) simp_all
    then obtain it2 d2 where "dict_purge addr P d it' = Some (es, it2, d2)"
      unfolding purge_result_def n(6) by blast
    then have "dict_purge addr P d1 it1 = Some (e # es, it2, d2)"
      using n(1) False by (subst dict_purge.simps) simp
    then show ?thesis
      using r \<open>dict_purge addr P d it' = Some (es, it2, d2)\<close> False Cons n(2,3,6) unfolding purge_result_def by simp
  next
    case True
    then have it0: "iterators d \<noteq> 0"
      using it by blast
    obtain d' where del: "dictDelete d (de_key e) = Some (DICT_OK, [e], d')" "dict_ok d'"
      "d' = set_ht d ?j ((ht_of d ?j)\<lparr>ht_table := (ht_table (ht_of d ?j))[?i := pre @ it_nextEntry it'], ht_used := ht_used (ht_of d ?j) - 1\<rparr>)"
      using dictDelete_current [OF ok it0 n(7,8) i n(10)] by blast
    note U = it_at_unlink [OF n(7) len del(3)]
    have at: "it_at d' it' kept"
      using n(4,5,7,8,9,11) U(1,3,4,5) by (simp add: it_at_def)
    have pend: "it_pending d' it' = es"
      using n(5,6) U(2) by (simp add: it_pending_def s)
    have r: "purge_result P d' it' kept (dict_purge addr P d' it')"
      using at pend Cons n(4) it0 U(6) by (intro IH [OF del(2)]) simp_all
    then obtain it2 d2 where run: "dict_purge addr P d' it' = Some (es, it2, d2)"
      unfolding purge_result_def pend by blast
    then have "dict_purge addr P d1 it1 = Some (e # es, it2, d2)"
      using n(1) True del(1) by (subst dict_purge.simps) simp
    then show ?thesis
      using r run True Cons n(2,3) U(6,7,8) unfolding purge_result_def pend by simp
  qed
qed

lemma dict_purge_later:
  "dict_ok d \<Longrightarrow> iterators d \<noteq> 0 \<or> (\<forall>e. \<not> P e) \<Longrightarrow> it_at d it kept \<Longrightarrow> it_index it \<ge> 0 \<Longrightarrow>
     purge_result P d it kept (dict_purge addr P d it)"
proof (induction "length (it_pending d it)" arbitrary: d it kept rule: less_induct)
  case less
  show ?case
  proof (rule dict_purge_step [OF less.prems(1,2)])
    show "next_result d it kept (dictNext addr d it)"
      by (rule dictNext_later [OF less.prems(1,3,4)])
    show "dict_entries d = kept @ it_pending d it"
      by (rule it_at_entries [OF less.prems(1,3)])
  next
    fix d' :: "('a, 'b) dict" and it' kept'
    assume "dict_ok d'" "iterators d' \<noteq> 0 \<or> (\<forall>e. \<not> P e)" "it_at d' it' kept'" "it_index it' \<ge> 0"
      "it_pending d' it' = tl (it_pending d it)" "it_pending d it \<noteq> []"
    then show "purge_result P d' it' kept' (dict_purge addr P d' it')"
      by (intro less.hyps) simp_all
  qed
qed

lemma dict_ok_iterators [simp]: "dict_ok (d\<lparr>iterators := n\<rparr>) = dict_ok d"
  by (simp add: dict_ok_def dict_entries_def dictIsRehashing_def)

lemma dict_entries_iterators [simp]: "dict_entries (d\<lparr>iterators := n\<rparr>) = dict_entries d"
  by (simp add: dict_entries_def)

lemma dict_purge_first:
  assumes ok: "dict_ok d" and start: "dictNext_start addr d it = (d0, it0)" and d0: "d0 = d\<lparr>iterators := n\<rparr>"
    and it: "it_entry it = []" and it0: "it_entry it0 = []" "it_index it0 = -1" "it_table it0 = 0"
    and del: "n \<noteq> 0 \<or> (\<forall>e. \<not> P e)"
  shows "purge_result P d0 it0 [] (dict_purge addr P d it)" "it_pending d0 it0 = dict_entries d"
proof -
  have ok0: "dict_ok d0" and n: "iterators d0 = n"
    using ok d0 by simp_all
  have at: "it_at d0 it0 []"
    using it0 by (simp add: it_at_def entries_before_def)
  have ent: "dict_entries d0 = [] @ it_pending d0 it0"
    by (rule it_at_entries [OF ok0 at])
  then show "it_pending d0 it0 = dict_entries d"
    using d0 by simp
  show "purge_result P d0 it0 [] (dict_purge addr P d it)"
    using del n
    by (intro dict_purge_step [OF ok0 _ dictNext_from_null [OF ok0 at it0(1) it start] ent] dict_purge_later) simp_all
qed

section \<open>Random entries\<close>

definition random_draw :: "(nat \<Rightarrow> nat) \<Rightarrow> ('k, 'v) dict \<Rightarrow> nat \<Rightarrow> ('k, 'v) chain option" where
  "random_draw random d n =
     (if dictIsRehashing d then do {
        let h = u32 (nat (rehashidx d) + random n mod (ht_size (ht0 d) + ht_size (ht1 d) - nat (rehashidx d)));
        if h \<ge> ht_size (ht0 d) then ht_at (ht1 d) (int (h - ht_size (ht0 d))) else ht_at (ht0 d) (int h) }
      else do {
        let h = u32 (and (random n) (ht_sizemask (ht0 d)));
        ht_at (ht0 d) (int h) })"

lemma random_bucket_draw:
  "random_bucket random d n = do {
     he \<leftarrow> random_draw random d n;
     if he = [] then random_bucket random d (Suc n) else Some (he, Suc n) }"
  by (subst random_bucket.simps) (simp add: random_draw_def)

lemma random_bucket_returns:
  assumes draws: "\<And>n. \<exists>c. random_draw random d n = Some c" and hit: "random_draw random d (n + k) = Some c" "c \<noteq> []"
  shows "\<exists>c m. random_bucket random d n = Some (c, m) \<and> c \<noteq> [] \<and> (\<exists>i. random_draw random d i = Some c)"
  using hit(1)
proof (induction k arbitrary: n)
  case 0
  then show ?case
    using hit(2) by (subst random_bucket_draw) auto
next
  case (Suc k)
  obtain c' where c': "random_draw random d n = Some c'"
    using draws by blast
  have "\<exists>c m. random_bucket random d (Suc n) = Some (c, m) \<and> c \<noteq> [] \<and> (\<exists>i. random_draw random d i = Some c)"
    using Suc.prems by (intro Suc.IH) simp
  then show ?case
    using c' by (cases "c' = []") (subst random_bucket_draw; auto)+
qed

lemma ht_size_le:
  assumes "ht_ok H t"
  shows "ht_size t \<le> 2 ^ 31"
  using assms power_increasing [of _ 31 "2 :: nat"] by (auto simp: ht_ok_def)

lemma random_draw_plain:
  assumes ok: "dict_ok d" and re: "\<not> dictIsRehashing d" and size: "ht_size (ht0 d) > 0"
  shows "random_draw random d n = Some (ht_table (ht0 d) ! (random n mod ht_size (ht0 d)))"
proof -
  note D = dict_okD [OF ok]
  obtain k where k: "ht_size (ht0 d) = 2 ^ k" "ht_sizemask (ht0 d) = 2 ^ k - 1"
    using ht_okD(1,3) [OF D(2) size] by auto
  have h: "and (random n) (ht_sizemask (ht0 d)) = random n mod ht_size (ht0 d)"
    unfolding k mask_eq_exp_minus_1 [symmetric] take_bit_eq_mask [symmetric] by (rule take_bit_eq_mod)
  have less: "random n mod ht_size (ht0 d) < ht_size (ht0 d)"
    using size by simp
  then have "u32 (random n mod ht_size (ht0 d)) = random n mod ht_size (ht0 d)"
    using ht_size_le [OF D(2)] by (simp add: u32_def)
  then show ?thesis
    using re less h ht_ok_length [OF D(2)] by (simp add: random_draw_def Let_def)
qed

lemma random_draw_rehashing:
  assumes ok: "dict_ok d" and re: "dictIsRehashing d"
    and h: "h = nat (rehashidx d) + random n mod (ht_size (ht0 d) + ht_size (ht1 d) - nat (rehashidx d))"
  shows "random_draw random d n =
      Some (if h \<ge> ht_size (ht0 d) then ht_table (ht1 d) ! (h - ht_size (ht0 d)) else ht_table (ht0 d) ! h)"
    "h < ht_size (ht0 d) + ht_size (ht1 d)"
proof -
  note D = dict_okD [OF ok]
  have "nat (rehashidx d) < ht_size (ht0 d) + ht_size (ht1 d)"
    using D(7,9) [OF re] by linarith
  then have "random n mod (ht_size (ht0 d) + ht_size (ht1 d) - nat (rehashidx d))
      < ht_size (ht0 d) + ht_size (ht1 d) - nat (rehashidx d)"
    by simp
  then show less: "h < ht_size (ht0 d) + ht_size (ht1 d)"
    using h by linarith
  then have "u32 h = h"
    using ht_size_le [OF D(2)] ht_size_le [OF D(3)] by (simp add: u32_def)
  then show "random_draw random d n =
      Some (if h \<ge> ht_size (ht0 d) then ht_table (ht1 d) ! (h - ht_size (ht0 d)) else ht_table (ht0 d) ! h)"
    using re less ht_ok_length [OF D(2)] ht_ok_length [OF D(3)] h [symmetric]
    by (simp add: random_draw_def Let_def del: of_nat_diff)
qed

text \<open>Every draw is inside a table, and every bucket that holds an entry can be drawn.\<close>

lemma random_draw_range:
  assumes ok: "dict_ok d" and size: "ht_size (ht0 d) > 0"
  shows "\<exists>c. random_draw random d n = Some c \<and> set c \<subseteq> set (dict_entries d)"
proof (cases "dictIsRehashing d")
  case True
  note D = dict_okD [OF ok] and R = random_draw_rehashing [OF ok True refl, of random n]
  let ?h = "nat (rehashidx d) + random n mod (ht_size (ht0 d) + ht_size (ht1 d) - nat (rehashidx d))"
  show ?thesis
  proof (cases "?h \<ge> ht_size (ht0 d)")
    case True
    then have "?h - ht_size (ht0 d) < length (ht_table (ht1 d))"
      using R(2) ht_ok_length [OF D(3)] by linarith
    then have "set (ht_table (ht1 d) ! (?h - ht_size (ht0 d))) \<subseteq> set (dict_entries d)"
      using nth_mem [of "?h - ht_size (ht0 d)" "ht_table (ht1 d)"] unfolding dict_entries_def by auto
    then show ?thesis
      using R(1) True by simp
  next
    case False
    then have "set (ht_table (ht0 d) ! ?h) \<subseteq> set (dict_entries d)"
      using nth_mem [of ?h "ht_table (ht0 d)"] ht_ok_length [OF D(2)] unfolding dict_entries_def by auto
    then show ?thesis
      using R(1) False by simp
  qed
next
  case False
  have "random n mod ht_size (ht0 d) < length (ht_table (ht0 d))"
    using size ht_ok_length [OF dict_okD(2) [OF ok]] by simp
  then show ?thesis
    using random_draw_plain [OF ok False size, of random n] nth_mem unfolding dict_entries_def by fastforce
qed

text \<open>
  The assumption on \<open>random\<close>, as the C library documents it: the results are numbers from 0 to \<open>RAND_MAX\<close>,
  2^31 - 1, and every one of them is a result sometime.
\<close>

definition fair :: "(nat \<Rightarrow> nat) \<Rightarrow> bool" where
  "fair random \<longleftrightarrow> (\<forall>n. random n < 2 ^ 31) \<and> (\<forall>v<2 ^ 31. \<exists>n. random n = v)"

lemma fair_mod:
  assumes "fair random" "r < m" "m \<le> 2 ^ 31"
  obtains n where "random n mod m = r"
proof -
  obtain n where "random n = r"
    using assms unfolding fair_def by (meson order_less_le_trans)
  then show thesis
    using that [of n] assms(2) by simp
qed

lemma random_draw_hits:
  assumes ok: "dict_ok d" and fair: "fair random" and slots: "dictSlots d \<le> 2 ^ 31" and e: "e \<in> set (dict_entries d)"
  shows "\<exists>n c. random_draw random d n = Some c \<and> e \<in> set c"
proof -
  note D = dict_okD [OF ok]
  have len: "length (ht_table (ht0 d)) = ht_size (ht0 d)" "length (ht_table (ht1 d)) = ht_size (ht1 d)"
    using ht_ok_length [OF D(2)] ht_ok_length [OF D(3)] by simp_all
  consider i where "i < ht_size (ht0 d)" "e \<in> set (ht_table (ht0 d) ! i)"
    | i where "i < ht_size (ht1 d)" "e \<in> set (ht_table (ht1 d) ! i)"
    using e len unfolding dict_entries_def set_append Un_iff set_concat_nth by auto
  then show ?thesis
  proof cases
    case (1 i)
    show ?thesis
    proof (cases "dictIsRehashing d")
      case True
      have idx: "nat (rehashidx d) \<le> i"
        using D(10) [OF True, of i] 1(2) by (cases "i < nat (rehashidx d)") auto
      then have "i - nat (rehashidx d) < ht_size (ht0 d) + ht_size (ht1 d) - nat (rehashidx d)"
        using 1(1) by linarith
      then obtain n where n: "random n mod (ht_size (ht0 d) + ht_size (ht1 d) - nat (rehashidx d)) = i - nat (rehashidx d)"
        by (rule fair_mod [OF fair]) (use slots in \<open>simp add: dictSlots_def\<close>)
      then have "i = nat (rehashidx d) + random n mod (ht_size (ht0 d) + ht_size (ht1 d) - nat (rehashidx d))"
        using idx by simp
      from random_draw_rehashing(1) [OF ok True, of _ random n, OF this] show ?thesis
        using 1 by auto
    next
      case False
      obtain n where "random n mod ht_size (ht0 d) = i"
        by (rule fair_mod [OF fair 1(1)]) (use slots in \<open>simp add: dictSlots_def\<close>)
      then show ?thesis
        using random_draw_plain [OF ok False, of random n] 1 by auto
    qed
  next
    case (2 i)
    then have True: "dictIsRehashing d"
      using D(5) ht_reset_simps(2) not_less_zero by metis
    have idx: "nat (rehashidx d) \<le> ht_size (ht0 d)"
      using D(7) [OF True] by linarith
    then have "ht_size (ht0 d) + i - nat (rehashidx d) < ht_size (ht0 d) + ht_size (ht1 d) - nat (rehashidx d)"
      using 2(1) by linarith
    then obtain n where n: "random n mod (ht_size (ht0 d) + ht_size (ht1 d) - nat (rehashidx d)) = ht_size (ht0 d) + i - nat (rehashidx d)"
      by (rule fair_mod [OF fair]) (use slots in \<open>simp add: dictSlots_def\<close>)
    then have "ht_size (ht0 d) + i = nat (rehashidx d) + random n mod (ht_size (ht0 d) + ht_size (ht1 d) - nat (rehashidx d))"
      using idx by simp
    from random_draw_rehashing(1) [OF ok True, of _ random n, OF this] show ?thesis
      using 2 by auto
  qed
qed

lemma dictEntry_eta: "\<lparr>de_key = de_key e, de_val = de_val e\<rparr> = e"
  by (cases e) simp

text \<open>A dictionary of one bucket array with a chain of two entries, for the examples below.\<close>

definition sample_dict :: "(nat, nat) dict" where
  "sample_dict =
     \<lparr>dtype = plainDictType,
      ht0 = \<lparr>ht_table = [[], [\<lparr>de_key = 1, de_val = 10\<rparr>, \<lparr>de_key = 5, de_val = 50\<rparr>], [], []],
             ht_size = 4, ht_sizemask = 3, ht_used = 2\<rparr>,
      ht1 = dictReset, rehashidx = -1, iterators = 0\<rparr>"

lemma sample_dict_entries: "dict_entries sample_dict = [\<lparr>de_key = 1, de_val = 10\<rparr>, \<lparr>de_key = 5, de_val = 50\<rparr>]"
  by (simp add: sample_dict_def dict_entries_def)

lemma sample_dict_ok: "dict_ok sample_dict"
proof -
  have "\<forall>i \<in> set [0..<4]. \<forall>e \<in> set (ht_table (ht0 sample_dict) ! i). ht_index (ht0 sample_dict) (of_nat (de_key e)) = i"
    by code_simp
  then have idx: "\<forall>i<4. \<forall>e \<in> set (ht_table (ht0 sample_dict) ! i). ht_index (ht0 sample_dict) (hashFunction plainDictType (de_key e)) = i"
    by (simp add: plainDictType_def)
  have "ht_ok (hashFunction plainDictType) (ht0 sample_dict)"
    unfolding ht_ok_def by (rule disjI2) (use idx in \<open>auto simp: sample_dict_def intro: exI [of _ 2]\<close>)
  then show ?thesis
    using plainDictType_ok sample_dict_entries
    by (simp add: dict_ok_def sample_dict_def dictIsRehashing_def)
qed

section \<open>Properties\<close>

text \<open>C5: A safe iterator returns every entry exactly once, in the order of the tables, while the client
  deletes any of the entries it was given, also in the middle of a rehashing, which stands still
  meanwhile; what remains is what the client did not delete, and the release of the iterator restores
  the count of iterators. An unsafe iterator over an unchanged dictionary returns every entry exactly
  once, leaves the dictionary as it was and passes the check of its fingerprint.\<close>

theorem dictIterator_visits_all:
  assumes ok: "dict_ok d" and n: "iterators d \<ge> 0"
  shows "(\<exists>it d1 d'. dict_purge addr P d dictGetSafeIterator = Some (dict_entries d, it, d1) \<and>
      dictReleaseIterator addr d1 it = Some d' \<and> dict_ok d' \<and>
      dict_entries d' = filter (\<lambda>e. \<not> P e) (dict_entries d) \<and>
      iterators d' = iterators d \<and> rehashidx d' = rehashidx d) \<and>
    (\<exists>it. dict_purge addr (\<lambda>_. False) d dictGetIterator = Some (dict_entries d, it, d) \<and>
      dictReleaseIterator addr d it = Some d)"
proof
  let ?d = "d\<lparr>iterators := iterators d + 1\<rparr>" and ?it = "dictGetSafeIterator :: ('a, 'b) dictIterator"
  have s: "dictNext_start addr d ?it = (?d, ?it)"
    by (simp add: dictNext_start_def dictGetSafeIterator_def dictGetIterator_def)
  have f: "it_entry ?it = []" "it_index ?it = -1" "it_table ?it = 0" "it_safe ?it"
    by (simp_all add: dictGetSafeIterator_def dictGetIterator_def)
  have n': "iterators d + 1 \<noteq> 0 \<or> (\<forall>e. \<not> P e)"
    using n by simp
  note F = dict_purge_first [OF ok s refl f(1) f(1,2,3) n']
  obtain it' d1 where r: "dict_purge addr P d ?it = Some (dict_entries d, it', d1)" "dict_ok d1"
    "dict_entries d1 = filter (\<lambda>e. \<not> P e) (dict_entries d)" "it_safe it'" "it_index it' \<ge> 0"
    "iterators d1 = iterators d + 1" "rehashidx d1 = rehashidx d"
    using F(1) f(4) unfolding purge_result_def F(2) by auto
  then show "\<exists>it d1 d'. dict_purge addr P d ?it = Some (dict_entries d, it, d1) \<and>
      dictReleaseIterator addr d1 it = Some d' \<and> dict_ok d' \<and>
      dict_entries d' = filter (\<lambda>e. \<not> P e) (dict_entries d) \<and>
      iterators d' = iterators d \<and> rehashidx d' = rehashidx d"
    by (auto simp: dictReleaseIterator_def)
next
  let ?it = "dictGetIterator :: ('a, 'b) dictIterator" and ?fp = "dictFingerprint addr d"
  have s: "dictNext_start addr d ?it = (d, ?it\<lparr>it_fingerprint := ?fp\<rparr>)"
    by (simp add: dictNext_start_def dictGetIterator_def)
  have f: "it_entry ?it = []" "it_entry (?it\<lparr>it_fingerprint := ?fp\<rparr>) = []" "it_index (?it\<lparr>it_fingerprint := ?fp\<rparr>) = -1"
    "it_table (?it\<lparr>it_fingerprint := ?fp\<rparr>) = 0" "\<not> it_safe ?it" "d = d\<lparr>iterators := iterators d\<rparr>"
    by (simp_all add: dictGetIterator_def)
  note F = dict_purge_first [OF ok s f(6) f(1) f(2,3,4), of "\<lambda>_. False"]
  obtain it' where "dict_purge addr (\<lambda>_. False) d ?it = Some (dict_entries d, it', d)" "\<not> it_safe it'"
    "it_fingerprint it' = ?fp" "it_index it' \<ge> 0"
    using F(1) f(5) F(2) unfolding purge_result_def by auto
  then show "\<exists>it. dict_purge addr (\<lambda>_. False) d ?it = Some (dict_entries d, it, d) \<and> dictReleaseIterator addr d it = Some d"
    by (auto simp: dictReleaseIterator_def)
qed

theorem dictIterator_visits_all_witness:
  "\<exists>it d1 d'. dict_purge (\<lambda>_. 0) (\<lambda>e. de_key e = 1) sample_dict dictGetSafeIterator =
      Some ([\<lparr>de_key = 1, de_val = 10\<rparr>, \<lparr>de_key = 5, de_val = 50\<rparr>], it, d1) \<and>
    dictReleaseIterator (\<lambda>_. 0) d1 it = Some d' \<and> dict_entries d' = [\<lparr>de_key = 5, de_val = 50\<rparr>]"
proof -
  have n: "iterators sample_dict \<ge> 0"
    by (simp add: sample_dict_def)
  show ?thesis
    using conjunct1 [OF dictIterator_visits_all [OF sample_dict_ok n, of "\<lambda>_. 0" "\<lambda>e. de_key e = 1"]]
    unfolding sample_dict_entries by auto
qed

text \<open>The step of rehashing does not make the tables larger than what a draw can reach.\<close>

lemma rehash_first_slots:
  assumes ok: "dict_ok d" and slots: "dictSlots d \<le> 2 ^ 31"
    and d1: "(if dictIsRehashing d then dictRehashStep d else Some d) = Some d1"
  shows "dictSlots d1 \<le> 2 ^ 31"
proof (cases "dictIsRehashing d \<and> iterators d = 0")
  case True
  then obtain rc where rc: "dictRehash d 1 = Some (rc, d1)"
    using d1 by (auto simp: dictRehashStep_def)
  obtain rc' d' where d': "dictRehash d 1 = Some (rc', d')" "dict_moved d d'"
    "dictIsRehashing d' \<longrightarrow> ht_size (ht0 d') = ht_size (ht0 d) \<and> ht_size (ht1 d') = ht_size (ht1 d)"
    using dictRehash_ok [OF ok, of 1] by blast
  show ?thesis
  proof (cases "dictIsRehashing d1")
    case True
    then show ?thesis
      using d' rc slots by (simp add: dictSlots_def)
  next
    case False
    have ok1: "dict_ok d1"
      using d' rc dict_movedD(1) [OF d'(2) ok] by simp
    show ?thesis
      using ht_size_le [OF dict_okD(2) [OF ok1]] dict_okD(5) [OF ok1 False] by (simp add: dictSlots_def)
  qed
next
  case False
  then show ?thesis
    using d1 slots by (auto simp: dictRehashStep_def split: if_splits)
qed

text \<open>C10: Let the source of random numbers give the numbers from 0 to 2^31 - 1 and every one of them sometime,
  and let the two tables have at most 2^31 buckets together, so that a draw can reach every bucket. Then
  \<open>dictGetRandomKey\<close> returns, without an access outside a table, an entry that is stored; the dictionary
  stores the same as before. On an empty dictionary it returns \<open>NULL\<close>.\<close>

theorem dictGetRandomKey_returns:
  assumes ok: "dict_ok d" and fair: "fair random" and slots: "dictSlots d \<le> 2 ^ 31"
  shows "if dict_map d = (\<lambda>_. None) then dictGetRandomKey random d = Some (None, d)
    else \<exists>e d'. dictGetRandomKey random d = Some (Some e, d') \<and> dict_map d (de_key e) = Some (de_val e) \<and>
      dict_ok d' \<and> dict_map d' = dict_map d"
proof (cases "dict_map d = (\<lambda>_. None)")
  case True
  then have "dictSize d = 0"
    using dictSize_card [OF ok] by (simp add: dom_def)
  then show ?thesis
    using True by (simp add: dictGetRandomKey_def)
next
  case False
  then obtain k v where "dict_map d k = Some v"
    by fastforce
  then have size: "dictSize d \<noteq> 0"
    using dictSize_card [OF ok] by (auto simp: dom_def)
  obtain d1 where d1: "(if dictIsRehashing d then dictRehashStep d else Some d) = Some d1" "dict_moved d d1"
    using rehash_first_ok [OF ok] by blast
  note M = dict_movedD [OF d1(2) ok]
  obtain x where x: "x \<in> set (dict_entries d1)"
    using \<open>dict_map d k = Some v\<close> M(3) dict_map_Some [OF dict_okD(4) [OF M(1)], of k v] by auto
  have size1: "ht_size (ht0 d1) > 0"
  proof (rule ccontr)
    assume "\<not> ht_size (ht0 d1) > 0"
    then have "\<not> dictIsRehashing d1" "ht_table (ht0 d1) = []"
      using dict_okD(8) [OF M(1)] ht_ok_length [OF dict_okD(2) [OF M(1)]] by auto
    then show False
      using x dict_okD(5) [OF M(1)] by (simp add: dict_entries_def)
  qed
  have draws: "\<exists>c. random_draw random d1 n = Some c" for n
    using random_draw_range [OF M(1) size1] by blast
  obtain k c where "random_draw random d1 (0 + k) = Some c" "c \<noteq> []"
    using random_draw_hits [OF M(1) fair rehash_first_slots [OF ok slots d1(1)] x] by fastforce
  then obtain he m i where he: "random_bucket random d1 0 = Some (he, m)" "he \<noteq> []" "random_draw random d1 i = Some he"
    using random_bucket_returns [OF draws] by blast
  let ?e = "he ! (random m mod length he)"
  have "?e \<in> set he"
    using he(2) by simp
  then have "?e \<in> set (dict_entries d1)"
    using random_draw_range [OF M(1) size1, of random i] he(3) by auto
  then have "dict_map d (de_key ?e) = Some (de_val ?e)"
    using dict_map_Some [OF dict_okD(4) [OF M(1)], of "de_key ?e" "de_val ?e"] M(3) dictEntry_eta [of ?e] by simp
  then show ?thesis
    using False size d1(1) he(1) M(1,3) by (simp add: dictGetRandomKey_def)
qed

text \<open>The dictionary is in the middle of a rehashing, and the source counts.\<close>

theorem dictGetRandomKey_returns_witness:
  "fair (\<lambda>n. n mod 2 ^ 31) \<and> (\<exists>e d'. dictGetRandomKey (\<lambda>n. n mod 2 ^ 31) rehashing_sample = Some (Some e, d') \<and>
     dict_map rehashing_sample (de_key e) = Some (de_val e))"
proof -
  have ne: "dict_map rehashing_sample \<noteq> (\<lambda>_. None)"
    using rehashing_sample_ok(4) by auto
  have slots: "dictSlots rehashing_sample \<le> 2 ^ 31"
    by (simp add: dictSlots_def rehashing_sample_def)
  have fair: "fair (\<lambda>n. n mod 2 ^ 31)"
    unfolding fair_def by (metis mod_less mod_less_divisor zero_less_numeral zero_less_power)
  show ?thesis
    using dictGetRandomKey_returns [OF rehashing_sample_ok(1) fair slots] ne fair by auto
qed

end
