(* ===== verification/Dict_Hash.thy ===== *)
theory Dict_Hash
  imports Redis_Prelude Util_Numbers "HOL-Library.Monad_Syntax"
begin

text \<open>
  The hash functions of \<^verbatim>\<open>redis-3.0.0/src/dict.c\<close>: Thomas Wang's integer mix, MurmurHash2 and the
  case-insensitive hash. \<open>unsigned int\<close> is a \<open>32 word\<close>, the global seed an argument, a string
  its bytes; a read behind the last byte is a fault (\<open>None\<close>). Words are read in the byte order
  of a little-endian host.
\<close>

unbundle bit_operations_syntax

section \<open>The functions\<close>

definition dictIntHashFunction :: "32 word \<Rightarrow> 32 word" where
  "dictIntHashFunction key =
     (let key = key + NOT (push_bit 15 key);
          key = key XOR drop_bit 10 key;
          key = key + push_bit 3 key;
          key = key XOR drop_bit 6 key;
          key = key + NOT (push_bit 11 key)
      in key XOR drop_bit 16 key)"

definition dict_hash_function_seed :: "32 word" where
  "dict_hash_function_seed = 5381"

definition murmur_m :: "32 word" where "murmur_m = 0x5bd1e995"

text \<open>The mixing of a word, and the loop over the whole words of the key.\<close>

definition murmur_word :: "32 word \<Rightarrow> 32 word" where
  "murmur_word k = (let k = k * murmur_m; k = k XOR drop_bit 24 k in k * murmur_m)"

definition load32 :: "byte list \<Rightarrow> 32 word option" where
  "load32 data = (if length data < 4 then None else Some (word_of_int (le_uint (take 4 data))))"

function murmur_loop :: "32 word \<Rightarrow> byte list \<Rightarrow> int \<Rightarrow> (32 word \<times> byte list \<times> int) option" where
  "murmur_loop h data len =
     (if len \<ge> 4 then do {
        k \<leftarrow> load32 data;
        murmur_loop (h * murmur_m XOR murmur_word k) (drop 4 data) (len - 4) }
      else Some (h, data, len))"
  by pat_completeness auto
termination
  by (relation "measure (\<lambda>(h, data, len). nat len)") auto

declare murmur_loop.simps [simp del]

definition byte_at :: "byte list \<Rightarrow> nat \<Rightarrow> 32 word option" where
  "byte_at data i = (if i < length data then Some (ucast (data ! i)) else None)"

text \<open>The \<open>switch\<close>, whose cases fall through.\<close>

definition murmur_case1 :: "32 word \<Rightarrow> byte list \<Rightarrow> 32 word option" where
  "murmur_case1 h data = do { b \<leftarrow> byte_at data 0; Some ((h XOR b) * murmur_m) }"

definition murmur_case2 :: "32 word \<Rightarrow> byte list \<Rightarrow> 32 word option" where
  "murmur_case2 h data = do { b \<leftarrow> byte_at data 1; murmur_case1 (h XOR push_bit 8 b) data }"

definition murmur_case3 :: "32 word \<Rightarrow> byte list \<Rightarrow> 32 word option" where
  "murmur_case3 h data = do { b \<leftarrow> byte_at data 2; murmur_case2 (h XOR push_bit 16 b) data }"

definition murmur_tail :: "32 word \<Rightarrow> byte list \<Rightarrow> int \<Rightarrow> 32 word option" where
  "murmur_tail h data len =
     (if len = 3 then murmur_case3 h data
      else if len = 2 then murmur_case2 h data
      else if len = 1 then murmur_case1 h data
      else Some h)"

definition murmur_final :: "32 word \<Rightarrow> 32 word" where
  "murmur_final h =
     (let h = h XOR drop_bit 13 h;
          h = h * murmur_m
      in h XOR drop_bit 15 h)"

definition dictGenHashFunction :: "32 word \<Rightarrow> byte list \<Rightarrow> int \<Rightarrow> 32 word option" where
  "dictGenHashFunction seed key len = do {
     (h, data, len) \<leftarrow> murmur_loop (seed XOR word_of_int len) key len;
     h \<leftarrow> murmur_tail h data len;
     Some (murmur_final h) }"

fun case_hash_loop :: "32 word \<Rightarrow> byte list \<Rightarrow> nat \<Rightarrow> 32 word option" where
  "case_hash_loop h buf 0 = Some h"
| "case_hash_loop h [] (Suc len) = None"
| "case_hash_loop h (c # buf) (Suc len) = case_hash_loop (push_bit 5 h + h + ucast (c_tolower c)) buf len"

definition dictGenCaseHashFunction :: "32 word \<Rightarrow> byte list \<Rightarrow> nat \<Rightarrow> 32 word option" where
  "dictGenCaseHashFunction seed buf len = case_hash_loop seed buf len"

section \<open>Invertible steps\<close>

text \<open>
  All the mixing steps are injective: adding a shifted copy and multiplying by an odd number
  are multiplications by a unit, and a right shift xored in is undone from the top bit down.
\<close>

lemma xor_shift_inject:
  fixes x y :: "'a::len word"
  assumes "x XOR drop_bit n x = y XOR drop_bit n y" "0 < n"
  shows "x = y"
proof (rule bit_eqI)
  fix i
  show "bit x i = bit y i"
  proof (induction "LENGTH('a) - i" arbitrary: i rule: less_induct)
    case less
    have "bit (x XOR drop_bit n x) i = bit (y XOR drop_bit n y) i"
      by (simp only: assms(1))
    then have "(bit x i \<noteq> bit x (n + i)) = (bit y i \<noteq> bit y (n + i))"
      by (simp add: bit_xor_iff bit_drop_bit_eq)
    moreover have "bit x (n + i) = bit y (n + i)"
    proof (cases "i < LENGTH('a)")
      case True
      then show ?thesis
        using assms(2) by (intro less) simp
    next
      case False
      then show ?thesis
        using bit_imp_le_length [of x "n + i"] bit_imp_le_length [of y "n + i"] by auto
    qed
    ultimately show ?case
      by blast
  qed
qed

lemma mult_unit_inject:
  fixes x y c :: "'a::len word"
  assumes "c * x = c * y" "d * c = 1"
  shows "x = y"
proof -
  have "x = d * (c * x)" "y = d * (c * y)"
    using assms(2) by (simp_all flip: mult.assoc)
  then show ?thesis
    using assms(1) by simp
qed

lemma murmur_m_inject: "x * murmur_m = y * murmur_m \<Longrightarrow> x = y"
  by (rule mult_unit_inject [of murmur_m x y "0xe59b19bd"]) (simp_all add: murmur_m_def mult.commute)

lemma add_shift_inject:
  fixes x y :: "32 word"
  assumes "x + push_bit 3 x = y + push_bit 3 y"
  shows "x = y"
proof (rule mult_unit_inject)
  show "9 * x = 9 * y"
    using assms by (simp add: push_bit_eq_mult)
  show "0x38e38e39 * 9 = (1 :: 32 word)"
    by simp
qed

lemma add_not_shift_eq: "x + NOT (push_bit n x) = y + NOT (push_bit n y) \<longleftrightarrow> (2 ^ n - 1) * x = (2 ^ n - 1) * (y :: 32 word)"
  by (auto simp: push_bit_eq_mult not_eq_complement algebra_simps)

lemma add_not_shift_inject:
  fixes x y :: "32 word"
  shows "x + NOT (push_bit 15 x) = y + NOT (push_bit 15 y) \<Longrightarrow> x = y"
    "x + NOT (push_bit 11 x) = y + NOT (push_bit 11 y) \<Longrightarrow> x = y"
  unfolding add_not_shift_eq
  by (erule mult_unit_inject [of _ _ _ "0xbfff7fff"], simp) (erule mult_unit_inject [of _ _ _ "0xffbff7ff"], simp)

lemma murmur_word_inject: "murmur_word j = murmur_word k \<Longrightarrow> j = k"
  unfolding murmur_word_def Let_def by (metis murmur_m_inject xor_shift_inject zero_less_numeral)

lemma murmur_final_inject: "murmur_final g = murmur_final h \<Longrightarrow> g = h"
  unfolding murmur_final_def Let_def by (metis murmur_m_inject xor_shift_inject zero_less_numeral)


lemma dictIntHashFunction_inject: "dictIntHashFunction x = dictIntHashFunction y \<Longrightarrow> x = y"
  unfolding dictIntHashFunction_def Let_def
  by (drule xor_shift_inject, simp, drule add_not_shift_inject(2), drule xor_shift_inject, simp, drule add_shift_inject,
      drule xor_shift_inject, simp, erule add_not_shift_inject(1))

section \<open>Properties\<close>

text \<open>The loop over whole words.\<close>

lemma load32_append: "length b = 4 \<Longrightarrow> load32 (b @ data) = Some (word_of_int (le_uint b))"
  by (simp add: load32_def)

lemma load32_inject:
  assumes "length b = 4" "length b' = 4" "(word_of_int (le_uint b) :: 32 word) = word_of_int (le_uint b')"
  shows "b = b'"
proof -
  have "le_uint b = le_uint b'"
    using arg_cong [OF assms(3), of uint] le_uint_range [of b] le_uint_range [of b'] assms(1,2)
    by (simp add: uint_word_of_int)
  then have "le_bytes (length b) (le_uint b) = le_bytes (length b') (le_uint b')"
    using assms(1,2) by simp
  then show ?thesis
    by (simp only: le_bytes_le_uint)
qed

lemma murmur_loop_append:
  assumes "length pre mod 4 = 0" "length pre \<le> len"
  shows "\<exists>g. murmur_loop h (pre @ data) (int len) = murmur_loop g data (int (len - length pre)) \<and>
    (\<forall>data'. murmur_loop h (pre @ data') (int len) = murmur_loop g data' (int (len - length pre)))"
  using assms
proof (induction "length pre" arbitrary: pre h len rule: less_induct)
  case less
  show ?case
  proof (cases "pre = []")
    case False
    then have l: "4 \<le> length pre"
      using less.prems(1) by (cases "length pre < 4") auto
    define b where "b = take 4 pre"
    define rest where "rest = drop 4 pre"
    have pre: "pre = b @ rest" "length b = 4" "length rest = length pre - 4"
      using l by (simp_all add: b_def rest_def)
    have step: "murmur_loop h (pre @ data) (int len) =
        murmur_loop (h * murmur_m XOR murmur_word (word_of_int (le_uint b))) (rest @ data) (int (len - 4))" for data
    proof -
      have "4 \<le> len"
        using l less.prems(2) by simp
      moreover have "load32 (pre @ data) = Some (word_of_int (le_uint b))" "drop 4 (pre @ data) = rest @ data"
        using pre(2) by (simp_all add: pre(1) load32_append)
      ultimately show ?thesis
        by (subst murmur_loop.simps) simp
    qed
    have "length pre = length rest + 4"
      using l pre(3) by simp
    then have "length rest mod 4 = 0"
      using less.prems(1) by (simp only: mod_add_self2)
    then show ?thesis
      using less.hyps [of rest "len - 4" "h * murmur_m XOR murmur_word (word_of_int (le_uint b))"] l less.prems(2) pre(3)
      unfolding step by simp
  qed auto
qed

lemma murmur_loop_total:
  assumes "len \<le> length data"
  shows "\<exists>h' data' len'. murmur_loop h data (int len) = Some (h', data', int len') \<and> len' < 4 \<and> len' \<le> length data'"
  using assms
proof (induction len arbitrary: h data rule: less_induct)
  case (less len)
  show ?case
  proof (cases "4 \<le> len")
    case True
    then have "load32 data = Some (word_of_int (le_uint (take 4 data)))"
      using less.prems by (simp add: load32_def)
    then have "murmur_loop h data (int len) =
        murmur_loop (h * murmur_m XOR murmur_word (word_of_int (le_uint (take 4 data)))) (drop 4 data) (int (len - 4))"
      using True by (subst murmur_loop.simps) simp
    then show ?thesis
      using True less.prems less.IH [of "len - 4" "drop 4 data" "h * murmur_m XOR murmur_word (word_of_int (le_uint (take 4 data)))"]
      by simp
  qed (use less.prems in \<open>simp add: murmur_loop.simps\<close>)
qed

lemma murmur_loop_inject:
  assumes "murmur_loop g data len = Some (h', data', len')" "murmur_loop h data len = Some (h', data'', len'')"
  shows "g = h"
  using assms
proof (induction g data len arbitrary: h rule: murmur_loop.induct)
  case (1 g data len)
  show ?case
  proof (cases "len \<ge> 4")
    case True
    then obtain k where k: "load32 data = Some k"
      using "1.prems"(1) by (subst (asm) murmur_loop.simps) (auto split: bind_splits)
    then have "g * murmur_m XOR murmur_word k = h * murmur_m XOR murmur_word k"
      using "1.prems" True by (intro "1.IH" [OF True k]) (subst (asm) murmur_loop.simps, simp)+
    then show ?thesis
      by (simp add: murmur_m_inject)
  next
    case False
    then show ?thesis
      using "1.prems" by (simp add: murmur_loop.simps)
  qed
qed

lemma murmur_loop_rest:
  assumes "murmur_loop g data len = Some (x, data', len')" "murmur_loop h data len = Some (y, data'', len'')"
  shows "data'' = data' \<and> len'' = len'"
  using assms
proof (induction g data len arbitrary: h rule: murmur_loop.induct)
  case (1 g data len)
  show ?case
  proof (cases "len \<ge> 4")
    case True
    then obtain k where k: "load32 data = Some k"
      using "1.prems"(1) by (subst (asm) murmur_loop.simps) (auto split: bind_splits)
    show ?thesis
      using "1.prems" "1.IH" [OF True k, of "h * murmur_m XOR murmur_word k"] True k
        murmur_loop.simps [of g data len] murmur_loop.simps [of h data len] by simp
  next
    case False
    then show ?thesis
      using "1.prems" by (simp add: murmur_loop.simps)
  qed
qed

lemmas murmur_tail_defs = murmur_tail_def murmur_case1_def murmur_case2_def murmur_case3_def byte_at_def

lemma murmur_tail_inject:
  assumes "murmur_tail g data len = Some r" "murmur_tail h data len = Some r"
  shows "g = h"
  using assms by (auto simp: murmur_tail_defs split: if_splits dest: murmur_m_inject)

lemma murmur_tail_total:
  assumes "len \<le> length data" "len < 4"
  shows "\<exists>r. murmur_tail h data (int len) = Some r"
  using assms by (auto simp: murmur_tail_defs)

lemma packed_bytes_inject:
  fixes a b c a' b' c' :: byte
  assumes "push_bit 16 (ucast c) XOR push_bit 8 (ucast b) XOR ucast a =
    (push_bit 16 (ucast c') XOR push_bit 8 (ucast b') XOR ucast a' :: 32 word)"
  shows "a = a'" "b = b'" "c = c'"
proof -
  have eq: "bit (push_bit 16 (ucast c) XOR push_bit 8 (ucast b) XOR ucast a :: 32 word) n =
      bit (push_bit 16 (ucast c') XOR push_bit 8 (ucast b') XOR ucast a' :: 32 word) n" for n
    by (simp only: assms)
  have bits: "bit (push_bit 16 (ucast z) XOR push_bit 8 (ucast y) XOR ucast x :: 32 word) n =
    (if n < 8 then bit x n else if n < 16 then bit y (n - 8) else bit z (n - 16))" if "n < 24" for n and x y z :: byte
    using that bit_imp_le_length [of x n] bit_imp_le_length [of y "n - 8"]
    by (auto simp: bit_xor_iff bit_push_bit_iff bit_ucast_iff)
  show "a = a'"
  proof (rule bit_word_eqI)
    fix n
    assume "n < LENGTH(8)"
    then show "bit a n = bit a' n"
      using eq [of n] by (simp add: bits)
  qed
  show "b = b'"
  proof (rule bit_word_eqI)
    fix n
    assume "n < LENGTH(8)"
    then show "bit b n = bit b' n"
      using eq [of "n + 8"] by (simp add: bits)
  qed
  show "c = c'"
  proof (rule bit_word_eqI)
    fix n
    assume "n < LENGTH(8)"
    then show "bit c n = bit c' n"
      using eq [of "n + 16"] by (simp add: bits)
  qed
qed

lemma murmur_tail_eqs:
  "murmur_tail h [a] 1 = Some ((h XOR (push_bit 16 (ucast (0 :: byte)) XOR push_bit 8 (ucast (0 :: byte)) XOR ucast a)) * murmur_m)"
  "murmur_tail h [a, b] 2 = Some ((h XOR (push_bit 16 (ucast (0 :: byte)) XOR push_bit 8 (ucast b) XOR ucast a)) * murmur_m)"
  "murmur_tail h [a, b, c] 3 = Some ((h XOR (push_bit 16 (ucast c) XOR push_bit 8 (ucast b) XOR ucast a)) * murmur_m)"
  by (simp_all add: murmur_tail_defs xor.assoc)

lemma murmur_tail_cancel:
  assumes "Some ((h XOR x) * murmur_m) = Some r" "Some ((h XOR y) * murmur_m) = Some r"
  shows "x = y"
proof -
  have "(h XOR x) * murmur_m = (h XOR y) * murmur_m"
    using assms by simp
  then have "h XOR x = h XOR y"
    by (rule murmur_m_inject)
  then show ?thesis
    by (simp only: xor_left_cancel)
qed

lemma murmur_tail_bytes:
  assumes "murmur_tail h data (int (length data)) = Some r" "murmur_tail h data' (int (length data)) = Some r"
    "length data' = length data" "length data < 4"
  shows "data = data'"
proof -
  have one: "\<exists>a. xs = [a]" if "length xs = 1" for xs :: "byte list"
    using that by (simp add: length_Suc_conv)
  have two: "\<exists>a b. xs = [a, b]" if "length xs = 2" for xs :: "byte list"
    using that by (simp add: numeral_2_eq_2 length_Suc_conv) blast
  have three: "\<exists>a b c. xs = [a, b, c]" if "length xs = 3" for xs :: "byte list"
    using that by (simp add: numeral_3_eq_3 length_Suc_conv) blast
  have "length data = 0 \<or> length data = 1 \<or> length data = 2 \<or> length data = 3"
    using assms(4) by linarith
  then consider "length data = 0" | "length data = 1" | "length data = 2" | "length data = 3"
    by blast
  then show ?thesis
  proof cases
    case 1
    then show ?thesis
      using assms(3) by simp
  next
    case 2
    obtain a a' where ab: "data = [a]" "data' = [a']"
      using one [of data] one [of data'] 2 assms(3) by auto
    have "murmur_tail h [a] 1 = Some r" "murmur_tail h [a'] 1 = Some r"
      using assms(1,2) 2 unfolding ab by simp_all
    from packed_bytes_inject [OF murmur_tail_cancel [OF this [unfolded murmur_tail_eqs]]] show ?thesis
      unfolding ab by simp
  next
    case 3
    obtain a b a' b' where ab: "data = [a, b]" "data' = [a', b']"
      using two [of data] two [of data'] 3 assms(3) by auto
    have "murmur_tail h [a, b] 2 = Some r" "murmur_tail h [a', b'] 2 = Some r"
      using assms(1,2) 3 unfolding ab by simp_all
    from packed_bytes_inject [OF murmur_tail_cancel [OF this [unfolded murmur_tail_eqs]]] show ?thesis
      unfolding ab by simp
  next
    case 4
    obtain a b c a' b' c' where ab: "data = [a, b, c]" "data' = [a', b', c']"
      using three [of data] three [of data'] 4 assms(3) by auto
    have "murmur_tail h [a, b, c] 3 = Some r" "murmur_tail h [a', b', c'] 3 = Some r"
      using assms(1,2) 4 unfolding ab by simp_all
    from packed_bytes_inject [OF murmur_tail_cancel [OF this [unfolded murmur_tail_eqs]]] show ?thesis
      unfolding ab by simp
  qed
qed

text \<open>C9:
  The hash functions never read outside the key, and no mixing step loses information.
  The integer hash is a permutation of the 32-bit integers. Two keys of equal length that differ
  only inside one aligned 4-byte word, or only in the bytes after the last whole word, get
  different values from the generic hash, whatever the seed.
\<close>

theorem dict_hash_mixing:
  assumes "length pre mod 4 = 0" "b \<noteq> b'" "length b' = length b"
    "length b = 4 \<or> length b < 4 \<and> post = []"
  shows "bij dictIntHashFunction \<and>
    (\<exists>g h. dictGenHashFunction seed (pre @ b @ post) (int (length (pre @ b @ post))) = Some g \<and>
       dictGenHashFunction seed (pre @ b' @ post) (int (length (pre @ b' @ post))) = Some h \<and> g \<noteq> h)"
proof
  show "bij dictIntHashFunction"
    by (simp add: bij_def inj_def dictIntHashFunction_inject finite_UNIV_inj_surj)
  let ?n = "length (pre @ b @ post)" and ?s = "seed XOR word_of_int (int (length (pre @ b @ post)))"
  obtain r where r: "murmur_loop ?s (pre @ data) (int ?n) = murmur_loop r data (int (?n - length pre))" for data
    using murmur_loop_append [OF assms(1), of ?n ?s] by auto
  have run: "\<exists>h. dictGenHashFunction seed key (int (length key)) = Some h" for key
  proof -
    obtain h data len where "murmur_loop (seed XOR word_of_int (int (length key))) key (int (length key)) = Some (h, data, int len)"
      "len < 4" "len \<le> length data"
      using murmur_loop_total [OF order_refl, of "seed XOR word_of_int (int (length key))" key] by blast
    moreover obtain g where "murmur_tail h data (int len) = Some g"
      using murmur_tail_total [OF calculation(3,2)] by blast
    ultimately show ?thesis
      by (simp add: dictGenHashFunction_def)
  qed
  obtain g h where gh: "dictGenHashFunction seed (pre @ b @ post) (int (length (pre @ b @ post))) = Some g"
    "dictGenHashFunction seed (pre @ b' @ post) (int (length (pre @ b' @ post))) = Some h"
    using run by blast
  have "g \<noteq> h"
  proof
    assume "g = h"
    then obtain x data len x' data' len' y where
      x: "murmur_loop r (b @ post) (int (length b + length post)) = Some (x, data, len)" "murmur_tail x data len = Some y"
        "murmur_loop r (b' @ post) (int (length b + length post)) = Some (x', data', len')" "murmur_tail x' data' len' = Some y"
      using gh r [of "b @ post"] r [of "b' @ post"] assms(3)
      by (auto simp: dictGenHashFunction_def dest!: murmur_final_inject split: bind_splits)
    show False
      using assms(4)
    proof
      assume b4: "length b = 4"
      let ?r = "\<lambda>b. r * murmur_m XOR murmur_word (word_of_int (le_uint b))"
      have step: "murmur_loop r (b @ post) (int (length b + length post)) = murmur_loop (?r b) post (int (length post))"
        if "length b = 4" for b
        using that by (subst murmur_loop.simps) (simp add: load32_append)
      have l: "murmur_loop (?r b) post (int (length post)) = Some (x, data, len)"
        "murmur_loop (?r b') post (int (length post)) = Some (x', data', len')"
        using x(1,3) step [of b] step [of b'] b4 assms(3) by simp_all
      then have "x = x'"
        using x(2,4) murmur_loop_rest [OF l] by (simp add: murmur_tail_inject)
      then have "?r b = ?r b'"
        using murmur_loop_inject [of "?r b" post _ x] l by blast
      then show False
        using load32_inject [of b b'] b4 assms(2,3) by (auto dest: murmur_word_inject)
    next
      assume "length b < 4 \<and> post = []"
      then have "x = r" "data = b" "x' = r" "data' = b'" "len = int (length b)" "len' = int (length b)"
        using x(1,3) by (auto simp: murmur_loop.simps)
      then show False
        using x(2,4) murmur_tail_bytes [of r b y b'] assms(2,3) \<open>length b < 4 \<and> post = []\<close> by simp
    qed
  qed
  then show "\<exists>g h. dictGenHashFunction seed (pre @ b @ post) (int (length (pre @ b @ post))) = Some g \<and>
       dictGenHashFunction seed (pre @ b' @ post) (int (length (pre @ b' @ post))) = Some h \<and> g \<noteq> h"
    using gh by blast
qed

theorem dict_hash_mixing_witness:
  "\<exists>g h. dictGenHashFunction 5381 [1, 2, 3, 4, 9] 5 = Some g \<and> dictGenHashFunction 5381 [1, 2, 3, 4, 8] 5 = Some h \<and> g \<noteq> h"
  using dict_hash_mixing [of "[1, 2, 3, 4]" "[9]" "[8]" "[]" 5381] by simp

lemma case_hash_loop_fold:
  "len \<le> length buf \<Longrightarrow>
    case_hash_loop h buf len = Some (foldl (\<lambda>h c. 33 * h + ucast (c_tolower c)) h (take len buf))"
  by (induction h buf len rule: case_hash_loop.induct) (simp_all add: push_bit_eq_mult)

text \<open>C11:
  The case-insensitive hash reads exactly the bytes it is given, is the polynomial in 33 of the
  lowered bytes that its comment announces, and so maps strings that compare equal without
  regard to case to the same value, as the table lookup requires.
\<close>

theorem dictGenCaseHashFunction_case:
  "dictGenCaseHashFunction seed buf (length buf) = Some (foldl (\<lambda>h c. 33 * h + ucast (c_tolower c)) seed buf) \<and>
   (strcaseeq buf buf' \<longrightarrow>
     dictGenCaseHashFunction seed buf' (length buf') = dictGenCaseHashFunction seed buf (length buf))"
proof -
  have run: "dictGenCaseHashFunction seed xs (length xs) = Some (foldl (\<lambda>h c. 33 * h + ucast (c_tolower c)) seed xs)" for xs
    using case_hash_loop_fold [of "length xs" xs seed] by (simp add: dictGenCaseHashFunction_def)
  have "foldl (\<lambda>h c. 33 * h + ucast (c_tolower c)) seed xs = foldl (\<lambda>h c. 33 * h + ucast c) seed (map c_tolower xs)" for xs
    by (simp add: foldl_map)
  then show ?thesis
    by (auto simp: run strcaseeq_def)
qed

theorem dictGenCaseHashFunction_case_witness:
  "strcaseeq [0x61, 0x42] [0x41, 0x62] \<and>
   dictGenCaseHashFunction 5381 [0x41, 0x62] (length [0x41, 0x62 :: byte]) =
   dictGenCaseHashFunction 5381 [0x61, 0x42] (length [0x61, 0x42 :: byte])"
proof -
  have "strcaseeq [0x61, 0x42] [0x41, 0x62]"
    by (simp add: strcaseeq_def c_tolower_def)
  then show ?thesis
    using dictGenCaseHashFunction_case [of 5381 "[0x61, 0x42]" "[0x41, 0x62]"] by blast
qed

end
