(* ===== verification/String_Buffer.thy ===== *)
theory String_Buffer
  imports Main "HOL-Library.Monad_Syntax"
begin

text \<open>
  What the printers rely on: a buffer that starts empty and to which strings can be appended as
  long as the total stays below a limit. \<open>cat_all\<close> appends several pieces, as a printer does that
  emits its output piece by piece; the dynamic strings of \<open>Sds\<close> interpret the locale.
\<close>

primrec cat_all :: "('s \<Rightarrow> 'a list \<Rightarrow> 's option) \<Rightarrow> 's \<Rightarrow> 'a list list \<Rightarrow> 's option" where
  "cat_all cat s [] = Some s"
| "cat_all cat s (t # ts) = do { s \<leftarrow> cat s t; cat_all cat s ts }"

locale string_buffer =
  fixes cat :: "'s \<Rightarrow> 'a list \<Rightarrow> 's option"
    and str :: "'s \<Rightarrow> 'a list"
    and invar :: "'s \<Rightarrow> bool"
    and limit :: nat
  assumes cat_law: "invar s \<Longrightarrow> length (str s) + length t < limit \<Longrightarrow>
    \<exists>s'. cat s t = Some s' \<and> invar s' \<and> str s' = str s @ t"
begin

lemma catE:
  assumes "invar s" "length (str s) + length t < limit"
  obtains s' where "cat s t = Some s'" "invar s'" "str s' = str s @ t"
  using cat_law [OF assms] by blast

lemma cat_all_law:
  assumes "invar s" "length (str s) + length (concat ts) < limit"
  shows "\<exists>s'. cat_all cat s ts = Some s' \<and> invar s' \<and> str s' = str s @ concat ts"
  using assms
proof (induction ts arbitrary: s)
  case (Cons t ts)
  have "length (str s) + length t < limit"
    using Cons.prems(2) by simp
  with Cons.prems(1) obtain s' where "cat s t = Some s'" "invar s'" "str s' = str s @ t"
    by (rule catE)
  then show ?case
    using Cons.IH [of s'] Cons.prems(2) by auto
qed simp

lemma cat_all_append: "cat_all cat s (ts @ us) = do { s \<leftarrow> cat_all cat s ts; cat_all cat s us }"
  by (induction ts arbitrary: s) (auto split: bind_splits)

end

end
