(* ===== verification/Sds.thy ===== *)
theory Sds
  imports Memory String_Buffer Util_Numbers
begin

text \<open>
  \<^verbatim>\<open>redis-3.0.0/src/sds.c\<close> (and \<^verbatim>\<open>sds.h\<close>): the dynamic strings. An sds is its header with the bytes
  allocated behind it; \<open>len\<close> and \<open>free\<close> are 32-bit fields, so what is stored in them is
  truncated (\<open>u32\<close>). \<open>fill\<close> gives the contents of memory that \<open>malloc\<close> or \<open>realloc\<close> adds. A pointer
  argument is the block of memory it points to. An access outside a block and a failed
  \<open>assert\<close> are faults (\<open>None\<close>). Allocation does not fail: \<open>zmalloc\<close> aborts instead.
\<close>

record sdshdr =
  sds_len :: nat
  sds_free :: nat
  sds_buf :: "byte list"

definition SDS_MAX_PREALLOC :: nat where "SDS_MAX_PREALLOC = 1024 * 1024"

definition sdslen :: "sdshdr \<Rightarrow> nat" where "sdslen s = sds_len s"

definition sdsavail :: "sdshdr \<Rightarrow> nat" where "sdsavail s = sds_free s"

section \<open>Creation\<close>

text \<open>\<open>init\<close> is \<open>None\<close> for \<open>NULL\<close>.\<close>

definition sdsnewlen :: "(nat \<Rightarrow> byte) \<Rightarrow> byte list option \<Rightarrow> nat \<Rightarrow> sdshdr option" where
  "sdsnewlen fill ini initlen = do {
     let buf = (if ini \<noteq> None then map fill [0..<initlen + 1] else replicate (initlen + 1) 0);
     buf \<leftarrow> (case ini of
        Some t \<Rightarrow> if initlen \<noteq> 0 then do { xs \<leftarrow> load_n t 0 initlen; store_n buf 0 xs } else Some buf
      | None \<Rightarrow> Some buf);
     buf \<leftarrow> store buf initlen 0;
     Some \<lparr>sds_len = u32 initlen, sds_free = 0, sds_buf = buf\<rparr> }"

definition sdsempty :: "(nat \<Rightarrow> byte) \<Rightarrow> sdshdr option" where
  "sdsempty fill = sdsnewlen fill (Some [0]) 0"

definition sdsnew :: "(nat \<Rightarrow> byte) \<Rightarrow> byte list option \<Rightarrow> sdshdr option" where
  "sdsnew fill ini = do {
     initlen \<leftarrow> (case ini of None \<Rightarrow> Some 0 | Some t \<Rightarrow> c_strlen t);
     sdsnewlen fill ini initlen }"

definition sdsdup :: "(nat \<Rightarrow> byte) \<Rightarrow> sdshdr \<Rightarrow> sdshdr option" where
  "sdsdup fill s = sdsnewlen fill (Some (sds_buf s)) (sdslen s)"

section \<open>Length and space\<close>

definition sdsupdatelen :: "sdshdr \<Rightarrow> sdshdr option" where
  "sdsupdatelen s = do {
     reallen \<leftarrow> c_strlen (sds_buf s);
     Some (s\<lparr>sds_free := u32 (sds_free s + usub32 (sds_len s) (u32 reallen)), sds_len := u32 reallen\<rparr>) }"

definition sdsclear :: "sdshdr \<Rightarrow> sdshdr option" where
  "sdsclear s = do {
     buf \<leftarrow> store (sds_buf s) 0 0;
     Some (s\<lparr>sds_free := u32 (sds_free s + sds_len s), sds_len := 0, sds_buf := buf\<rparr>) }"

definition sdsMakeRoomFor :: "(nat \<Rightarrow> byte) \<Rightarrow> sdshdr \<Rightarrow> nat \<Rightarrow> sdshdr" where
  "sdsMakeRoomFor fill s addlen =
     (let free = sdsavail s in
      if free \<ge> addlen then s
      else
        let len = sdslen s;
            newlen = len + addlen;
            newlen = (if newlen < SDS_MAX_PREALLOC then newlen * 2 else newlen + SDS_MAX_PREALLOC)
        in s\<lparr>sds_buf := zrealloc fill (sds_buf s) (newlen + 1), sds_free := u32 (newlen - len)\<rparr>)"

definition sdsRemoveFreeSpace :: "(nat \<Rightarrow> byte) \<Rightarrow> sdshdr \<Rightarrow> sdshdr" where
  "sdsRemoveFreeSpace fill s = s\<lparr>sds_buf := zrealloc fill (sds_buf s) (sds_len s + 1), sds_free := 0\<rparr>"

text \<open>The header has 8 bytes.\<close>

definition sdsAllocSize :: "sdshdr \<Rightarrow> nat" where
  "sdsAllocSize s = 8 + sds_len s + sds_free s + 1"

definition sdsIncrLen :: "sdshdr \<Rightarrow> int \<Rightarrow> sdshdr option" where
  "sdsIncrLen s incr =
     (if (if incr \<ge> 0 then int (sds_free s) \<ge> incr else int (sds_len s) \<ge> - incr) then do {
        let len = nat (int (sds_len s) + incr);
        let free = nat (int (sds_free s) - incr);
        buf \<leftarrow> store (sds_buf s) (u32 len) 0;
        Some (s\<lparr>sds_len := u32 len, sds_free := u32 free, sds_buf := buf\<rparr>) }
      else None)"

definition sdsgrowzero :: "(nat \<Rightarrow> byte) \<Rightarrow> sdshdr \<Rightarrow> nat \<Rightarrow> sdshdr option" where
  "sdsgrowzero fill s len =
     (let curlen = sds_len s in
      if len \<le> curlen then Some s
      else do {
        let s = sdsMakeRoomFor fill s (len - curlen);
        buf \<leftarrow> store_n (sds_buf s) curlen (replicate (len - curlen + 1) 0);
        let totlen = u32 (sds_len s + sds_free s);
        Some (s\<lparr>sds_len := u32 len, sds_free := usub32 totlen (u32 len), sds_buf := buf\<rparr>) })"

section \<open>Copying in\<close>

definition sdscatlen :: "(nat \<Rightarrow> byte) \<Rightarrow> sdshdr \<Rightarrow> byte list \<Rightarrow> nat \<Rightarrow> sdshdr option" where
  "sdscatlen fill s t len = do {
     let curlen = sdslen s;
     let s = sdsMakeRoomFor fill s len;
     xs \<leftarrow> load_n t 0 len;
     buf \<leftarrow> store_n (sds_buf s) curlen xs;
     buf \<leftarrow> store buf (curlen + len) 0;
     Some (s\<lparr>sds_len := u32 (curlen + len), sds_free := usub32 (sds_free s) (u32 len), sds_buf := buf\<rparr>) }"

definition sdscat :: "(nat \<Rightarrow> byte) \<Rightarrow> sdshdr \<Rightarrow> byte list \<Rightarrow> sdshdr option" where
  "sdscat fill s t = do { n \<leftarrow> c_strlen t; sdscatlen fill s t n }"

definition sdscatsds :: "(nat \<Rightarrow> byte) \<Rightarrow> sdshdr \<Rightarrow> sdshdr \<Rightarrow> sdshdr option" where
  "sdscatsds fill s t = sdscatlen fill s (sds_buf t) (sdslen t)"

definition sdscpylen :: "(nat \<Rightarrow> byte) \<Rightarrow> sdshdr \<Rightarrow> byte list \<Rightarrow> nat \<Rightarrow> sdshdr option" where
  "sdscpylen fill s t len = do {
     let totlen = u32 (sds_free s + sds_len s);
     let (s, totlen) =
       (if totlen < len then
          let s = sdsMakeRoomFor fill s (len - sds_len s) in (s, u32 (sds_free s + sds_len s))
        else (s, totlen));
     xs \<leftarrow> load_n t 0 len;
     buf \<leftarrow> store_n (sds_buf s) 0 xs;
     buf \<leftarrow> store buf len 0;
     Some (s\<lparr>sds_len := u32 len, sds_free := u32 (totlen - len), sds_buf := buf\<rparr>) }"

definition sdscpy :: "(nat \<Rightarrow> byte) \<Rightarrow> sdshdr \<Rightarrow> byte list \<Rightarrow> sdshdr option" where
  "sdscpy fill s t = do { n \<leftarrow> c_strlen t; sdscpylen fill s t n }"

section \<open>Editing in place\<close>

text \<open>The two loops of \<open>sdstrim\<close>; positions are offsets from the start of the string.\<close>

function trim_left :: "byte list \<Rightarrow> byte list \<Rightarrow> int \<Rightarrow> nat \<Rightarrow> nat option" where
  "trim_left buf cset e sp =
     (if int sp \<le> e then do {
        c \<leftarrow> load buf sp;
        found \<leftarrow> c_strchr cset c;
        if found then trim_left buf cset e (sp + 1) else Some sp }
      else Some sp)"
  by pat_completeness auto
termination
  by (relation "measure (\<lambda>(buf, cset, e, sp). nat (e + 1 - int sp))") auto

fun trim_right :: "byte list \<Rightarrow> byte list \<Rightarrow> nat \<Rightarrow> nat option" where
  "trim_right buf cset 0 = Some 0"
| "trim_right buf cset (Suc ep) = do {
     c \<leftarrow> load buf (Suc ep);
     found \<leftarrow> c_strchr cset c;
     if found then trim_right buf cset ep else Some (Suc ep) }"

definition sdstrim :: "sdshdr \<Rightarrow> byte list \<Rightarrow> sdshdr option" where
  "sdstrim s cset = do {
     let e = int (sdslen s) - 1;
     sp \<leftarrow> trim_left (sds_buf s) cset e 0;
     ep \<leftarrow> (if e > 0 then map_option int (trim_right (sds_buf s) cset (nat e)) else Some e);
     let len = (if int sp > ep then 0 else nat (ep - int sp + 1));
     buf \<leftarrow> (if sp \<noteq> 0 then move_n (sds_buf s) 0 sp len else Some (sds_buf s));
     buf \<leftarrow> store buf len 0;
     Some (s\<lparr>sds_free := u32 (sds_free s + (sds_len s - len)), sds_len := u32 len, sds_buf := buf\<rparr>) }"

definition sdsrange :: "sdshdr \<Rightarrow> int \<Rightarrow> int \<Rightarrow> sdshdr option" where
  "sdsrange s start e =
     (let len = sdslen s in
      if len = 0 then Some s
      else do {
        let start = (if start < 0 then let start = to_signed 32 (int len + start) in if start < 0 then 0 else start else start);
        let e = (if e < 0 then let e = to_signed 32 (int len + e) in if e < 0 then 0 else e else e);
        let newlen = (if start > e then 0 else nat (e - start + 1));
        let (start, newlen) =
          (if newlen \<noteq> 0 then
             if start \<ge> to_signed 32 (int len) then (start, 0)
             else if e \<ge> to_signed 32 (int len) then
               let e = to_signed 32 (int len - 1) in (start, if start > e then 0 else nat (e - start + 1))
             else (start, newlen)
           else (0, newlen));
        buf \<leftarrow> (if start \<noteq> 0 \<and> newlen \<noteq> 0 then move_n (sds_buf s) 0 (nat start) newlen else Some (sds_buf s));
        buf \<leftarrow> store buf newlen 0;
        Some (s\<lparr>sds_free := u32 (sds_free s + (sds_len s - newlen)), sds_len := u32 newlen, sds_buf := buf\<rparr>) })"

text \<open>The loops over the characters: \<open>n\<close> characters from position \<open>j\<close> on.\<close>

fun map_loop :: "(byte \<Rightarrow> byte) \<Rightarrow> byte list \<Rightarrow> nat \<Rightarrow> nat \<Rightarrow> byte list option" where
  "map_loop f buf j 0 = Some buf"
| "map_loop f buf j (Suc n) = do {
     c \<leftarrow> load buf j;
     buf \<leftarrow> store buf j (f c);
     map_loop f buf (j + 1) n }"

definition c_toupper :: "byte \<Rightarrow> byte" where
  "c_toupper c = (if 97 \<le> c \<and> c \<le> 122 then c - 32 else c)"

definition sdstolower :: "sdshdr \<Rightarrow> sdshdr option" where
  "sdstolower s = do { buf \<leftarrow> map_loop c_tolower (sds_buf s) 0 (sdslen s); Some (s\<lparr>sds_buf := buf\<rparr>) }"

definition sdstoupper :: "sdshdr \<Rightarrow> sdshdr option" where
  "sdstoupper s = do { buf \<leftarrow> map_loop c_toupper (sds_buf s) 0 (sdslen s); Some (s\<lparr>sds_buf := buf\<rparr>) }"

text \<open>The inner loop of \<open>sdsmapchars\<close>: the first position of \<open>from\<close> that holds the character.\<close>

fun mapchars_find :: "byte list \<Rightarrow> byte list \<Rightarrow> nat \<Rightarrow> byte \<Rightarrow> byte option" where
  "mapchars_find xs ys 0 c = Some c"
| "mapchars_find xs ys (Suc n) c = do {
     x \<leftarrow> load xs 0;
     if c = x then load ys 0 else mapchars_find (tl xs) (tl ys) n c }"

fun mapchars_loop :: "byte list \<Rightarrow> byte list \<Rightarrow> nat \<Rightarrow> byte list \<Rightarrow> nat \<Rightarrow> nat \<Rightarrow> byte list option" where
  "mapchars_loop xs ys setlen buf j 0 = Some buf"
| "mapchars_loop xs ys setlen buf j (Suc n) = do {
     c \<leftarrow> load buf j;
     c \<leftarrow> mapchars_find xs ys setlen c;
     buf \<leftarrow> store buf j c;
     mapchars_loop xs ys setlen buf (j + 1) n }"

definition sdsmapchars :: "sdshdr \<Rightarrow> byte list \<Rightarrow> byte list \<Rightarrow> nat \<Rightarrow> sdshdr option" where
  "sdsmapchars s xs ys setlen = do {
     buf \<leftarrow> mapchars_loop xs ys setlen (sds_buf s) 0 (sdslen s);
     Some (s\<lparr>sds_buf := buf\<rparr>) }"

section \<open>Comparing, splitting, joining\<close>

text \<open>Of \<open>memcmp\<close> only the sign of the result is specified; here it is the sign itself.\<close>

fun c_memcmp :: "byte list \<Rightarrow> byte list \<Rightarrow> int" where
  "c_memcmp (x # xs) (y # ys) = (if x < y then -1 else if y < x then 1 else c_memcmp xs ys)"
| "c_memcmp _ _ = 0"

definition sdscmp :: "sdshdr \<Rightarrow> sdshdr \<Rightarrow> int option" where
  "sdscmp s1 s2 = do {
     let l1 = sdslen s1;
     let l2 = sdslen s2;
     let minlen = (if l1 < l2 then l1 else l2);
     xs \<leftarrow> load_n (sds_buf s1) 0 minlen;
     ys \<leftarrow> load_n (sds_buf s2) 0 minlen;
     let cmp = c_memcmp xs ys;
     if cmp = 0 then Some (to_signed 32 (int l1 - int l2)) else Some cmp }"

text \<open>
  The loop of \<open>sdssplitlen\<close>, entered with \<open>seplen > 0\<close>. The array \<open>tokens\<close> is the list of the tokens stored so far; it has
  room for \<open>slots\<close> pointers, and storing one more is a fault.
\<close>

definition push_token :: "(nat \<Rightarrow> byte) \<Rightarrow> byte list \<Rightarrow> nat \<Rightarrow> nat \<Rightarrow> sdshdr list \<Rightarrow> nat \<Rightarrow> sdshdr list option" where
  "push_token fill s start n tokens slots = do {
     tok \<leftarrow> (if start \<le> length s then sdsnewlen fill (Some (drop start s)) n else None);
     if length tokens < slots then Some (tokens @ [tok]) else None }"

function split_loop :: "(nat \<Rightarrow> byte) \<Rightarrow> byte list \<Rightarrow> int \<Rightarrow> byte list \<Rightarrow> nat \<Rightarrow> nat \<Rightarrow> nat \<Rightarrow> sdshdr list \<Rightarrow> nat \<Rightarrow>
    (nat \<times> sdshdr list \<times> nat) option" where
  "split_loop fill s len sep seplen j start tokens slots =
     (if seplen > 0 \<and> int j < len - (int seplen - 1) then do {
        let slots = (if slots < length tokens + 2 then slots * 2 else slots);
        match1 \<leftarrow> (if seplen = 1 then do { c \<leftarrow> load s j; c0 \<leftarrow> load sep 0; Some (c = c0) } else Some False);
        match \<leftarrow> (if match1 then Some True
           else do {
             xs \<leftarrow> load_n s j seplen;
             ys \<leftarrow> load_n sep 0 seplen;
             Some (c_memcmp xs ys = 0) });
        if match then do {
          tokens \<leftarrow> push_token fill s start (j - start) tokens slots;
          split_loop fill s len sep seplen (j + seplen) (j + seplen) tokens slots }
        else split_loop fill s len sep seplen (j + 1) start tokens slots }
      else Some (start, tokens, slots))"
  by pat_completeness auto
termination
  by (relation "measure (\<lambda>(fill, s, len, sep, seplen, j, start, tokens, slots). nat (len + 1 - int j))")
    (auto split: if_splits)

text \<open>\<open>Some None\<close> is the result \<open>NULL\<close>.\<close>

definition sdssplitlen :: "(nat \<Rightarrow> byte) \<Rightarrow> byte list \<Rightarrow> int \<Rightarrow> byte list \<Rightarrow> int \<Rightarrow> sdshdr list option option" where
  "sdssplitlen fill s len sep seplen =
     (if seplen < 1 \<or> len < 0 then Some None
      else if len = 0 then Some (Some [])
      else do {
        (start, tokens, slots) \<leftarrow> split_loop fill s len sep (nat seplen) 0 0 [] 5;
        tokens \<leftarrow> push_token fill s start (nat len - start) tokens slots;
        Some (Some tokens) })"

fun join_loop :: "(nat \<Rightarrow> byte) \<Rightarrow> sdshdr \<Rightarrow> byte list list \<Rightarrow> byte list \<Rightarrow> sdshdr option" where
  "join_loop fill join [] sep = Some join"
| "join_loop fill join (a # argv) sep = do {
     join \<leftarrow> sdscat fill join a;
     join \<leftarrow> (if argv \<noteq> [] then sdscat fill join sep else Some join);
     join_loop fill join argv sep }"

definition sdsjoin :: "(nat \<Rightarrow> byte) \<Rightarrow> byte list list \<Rightarrow> byte list \<Rightarrow> sdshdr option" where
  "sdsjoin fill argv sep = do { join \<leftarrow> sdsempty fill; join_loop fill join argv sep }"

declare trim_left.simps [simp del] split_loop.simps [simp del]

section \<open>Invariant\<close>

text \<open>
  The header describes the block: \<open>len\<close> bytes of string, a terminator, \<open>free\<close> bytes of room; and the
  fields are below \<open>2 ^ 32\<close>.
\<close>

definition sds_ok :: "sdshdr \<Rightarrow> bool" where
  "sds_ok s \<longleftrightarrow> length (sds_buf s) = sds_len s + sds_free s + 1 \<and> sds_buf s ! sds_len s = 0 \<and>
     sds_len s + sds_free s < 2 ^ 32"

definition sds_str :: "sdshdr \<Rightarrow> byte list" where
  "sds_str s = take (sds_len s) (sds_buf s)"

lemma length_sds_str [simp]: "sds_ok s \<Longrightarrow> length (sds_str s) = sds_len s"
  by (simp add: sds_ok_def sds_str_def)

lemma sdslen_str: "sds_ok s \<Longrightarrow> sdslen s = length (sds_str s)"
  by (simp add: sdslen_def)

text \<open>A header whose block starts with \<open>t\<close> and a terminator.\<close>

lemma sds_okI:
  assumes "take (length t) buf = t" "length t < length buf" "buf ! length t = 0"
    "length buf = length t + free + 1" "length t + free < 2 ^ 32"
  shows "sds_ok \<lparr>sds_len = length t, sds_free = free, sds_buf = buf\<rparr>"
    "sds_str \<lparr>sds_len = length t, sds_free = free, sds_buf = buf\<rparr> = t"
  using assms by (simp_all add: sds_ok_def sds_str_def)

lemma sds_write:
  assumes "store (splice_at buf i xs) (i + length xs) 0 = Some buf'" "i + length xs < length buf" "take i buf = t"
  shows "take (i + length xs) buf' = t @ xs" "buf' ! (i + length xs) = 0" "length buf' = length buf"
  using assms by (auto simp: store_def take_splice_at split: if_splits)

lemma u32_small: "n < 2 ^ 32 \<Longrightarrow> u32 n = n"
  by (rule u32_id)

lemma sdsMakeRoomFor_ok:
  assumes "sds_ok s" "sds_len s + addlen < 2 ^ 31"
  shows "sds_ok (sdsMakeRoomFor fill s addlen)" "sds_str (sdsMakeRoomFor fill s addlen) = sds_str s"
    "addlen \<le> sds_free (sdsMakeRoomFor fill s addlen)" "sds_len (sdsMakeRoomFor fill s addlen) = sds_len s"
proof -
  let ?n = "sds_len s + addlen"
  let ?m = "if ?n < SDS_MAX_PREALLOC then ?n * 2 else ?n + SDS_MAX_PREALLOC"
  show len: "sds_len (sdsMakeRoomFor fill s addlen) = sds_len s"
    by (simp add: sdsMakeRoomFor_def Let_def)
  have m: "?n \<le> ?m" "?m < 2 ^ 32"
    using assms(2) by (auto simp: SDS_MAX_PREALLOC_def)
  have "sds_ok (sdsMakeRoomFor fill s addlen) \<and> sds_str (sdsMakeRoomFor fill s addlen) = sds_str s \<and>
    addlen \<le> sds_free (sdsMakeRoomFor fill s addlen)"
  proof (cases "sds_free s \<ge> addlen")
    case False
    have eq: "sdsMakeRoomFor fill s addlen =
        s\<lparr>sds_buf := zrealloc fill (sds_buf s) (?m + 1), sds_free := ?m - sds_len s\<rparr>"
      using False m(2) by (simp add: sdsMakeRoomFor_def sdsavail_def sdslen_def Let_def u32_small)
    have ok: "length (sds_buf s) = sds_len s + sds_free s + 1" "sds_buf s ! sds_len s = 0"
      using assms(1) by (auto simp: sds_ok_def)
    have "zrealloc fill (sds_buf s) (?m + 1) ! sds_len s = 0"
      using ok m(1) by (simp add: zrealloc_def nth_append)
    moreover have "take (sds_len s) (zrealloc fill (sds_buf s) (?m + 1)) = take (sds_len s) (sds_buf s)"
      using ok m(1) by (intro take_zrealloc) auto
    ultimately show ?thesis
      using m unfolding eq sds_ok_def sds_str_def by auto
  qed (use assms(1) in \<open>simp add: sdsMakeRoomFor_def sdsavail_def\<close>)
  then show "sds_ok (sdsMakeRoomFor fill s addlen)" "sds_str (sdsMakeRoomFor fill s addlen) = sds_str s"
    "addlen \<le> sds_free (sdsMakeRoomFor fill s addlen)"
    by blast+
qed

lemma sdsnewlen_ok:
  assumes "n < 2 ^ 32" "n \<le> length t"
  shows "\<exists>s. sdsnewlen fill (Some t) n = Some s \<and> sds_ok s \<and> sds_str s = take n t"
proof -
  let ?m = "map fill [0..<n + 1]"
  let ?b = "if n \<noteq> 0 then splice_at ?m 0 (take n t) else ?m"
  have l: "length (take n t) = n"
    using assms(2) by simp
  have b: "length ?b = n + 1" "take n ?b = take n t"
    using l take_splice_at_0 [of "take n t" ?m] by auto
  have "sdsnewlen fill (Some t) n = Some \<lparr>sds_len = n, sds_free = 0, sds_buf = ?b[n := 0]\<rparr>"
    using assms b(1) l by (simp add: sdsnewlen_def mem_simps u32_small slice_def)
  then show ?thesis
    using sds_okI [of "take n t" "?b[n := 0]" 0] b l assms(1) by simp
qed

lemma sdscatlen_ok:
  assumes "sds_ok s" "n \<le> length t" "sds_len s + n < 2 ^ 31"
  shows "\<exists>s'. sdscatlen fill s t n = Some s' \<and> sds_ok s' \<and> sds_str s' = sds_str s @ take n t"
proof -
  let ?s = "sdsMakeRoomFor fill s n" and ?x = "take n t"
  note R = sdsMakeRoomFor_ok [OF assms(1,3), of fill]
  have b: "length (sds_buf ?s) = sds_len s + sds_free ?s + 1" "sds_len s + sds_free ?s < 2 ^ 32"
    using R(1,4) by (auto simp: sds_ok_def)
  have l: "length ?x = n"
    using assms(2) by simp
  let ?b = "splice_at (sds_buf ?s) (sds_len s) ?x"
  have in_range: "sds_len s + length ?x \<le> length (sds_buf ?s)"
    using b(1) R(3) l by simp
  have lb: "length ?b = length (sds_buf ?s)"
    using in_range by simp
  have tb: "take (sds_len s + n) ?b = take (sds_len s) (sds_buf ?s) @ ?x"
    using take_splice_at [OF in_range] l by simp
  have tk: "take (sds_len s) (sds_buf ?s) = sds_str s"
    using R(2,4) by (simp add: sds_str_def)
  have "sdscatlen fill s t n =
      Some \<lparr>sds_len = sds_len s + n, sds_free = sds_free ?s - n, sds_buf = ?b[sds_len s + n := 0]\<rparr>"
    using assms(2,3) in_range lb l b R(3)
    by (simp add: sdscatlen_def sdslen_def Let_def mem_simps u32_small usub32_id slice_def)
  moreover have "length (sds_str s @ ?x) = sds_len s + n"
    using assms(1) l by simp
  ultimately show ?thesis
    using sds_okI [of "sds_str s @ ?x" "?b[sds_len s + n := 0]" "sds_free ?s - n"] tb tk lb b R(3) by simp
qed

section \<open>Appending, as a string buffer\<close>

interpretation sds: string_buffer "\<lambda>s t. sdscatlen fill s t (length t)" sds_str sds_ok "2 ^ 31" for fill
proof
  fix s and t :: "byte list"
  assume "sds_ok s" "length (sds_str s) + length t < 2 ^ 31"
  then show "\<exists>s'. sdscatlen fill s t (length t) = Some s' \<and> sds_ok s' \<and> sds_str s' = sds_str s @ t"
    using sdscatlen_ok [of s "length t" t fill] by simp
qed

lemma sdsempty_ok: "\<exists>s. sdsempty fill = Some s \<and> sds_ok s \<and> sds_str s = []"
  using sdsnewlen_ok [of 0 "[0]" fill] by (simp add: sdsempty_def)

lemma sdscatlen_prefix: "sdscatlen fill s (t @ rest) (length t) = sdscatlen fill s t (length t)"
  by (simp add: sdscatlen_def mem_simps)

lemma sdscat_ok:
  assumes "0 \<notin> set t"
  shows "sdscat fill s (t @ 0 # rest) = sdscatlen fill s t (length t)"
  using assms sdscatlen_prefix [of fill s t "0 # rest"] by (simp add: sdscat_def)

lemma sdsdup_ok:
  assumes "sds_ok s"
  shows "\<exists>s'. sdsdup fill s = Some s' \<and> sds_ok s' \<and> sds_str s' = sds_str s"
  using sdsnewlen_ok [of "sds_len s" "sds_buf s" fill] assms by (auto simp: sdsdup_def sdslen_def sds_ok_def sds_str_def)

section \<open>The other operations\<close>

lemma sdscpylen_ok:
  assumes "sds_ok s" "n \<le> length t" "n < 2 ^ 31"
  shows "\<exists>s'. sdscpylen fill s t n = Some s' \<and> sds_ok s' \<and> sds_str s' = take n t"
proof -
  define r where "r = (if sds_free s + sds_len s < n then sdsMakeRoomFor fill s (n - sds_len s) else s)"
  have s: "sds_ok r" "n \<le> sds_free r + sds_len r"
    using sdsMakeRoomFor_ok [of s "n - sds_len s" fill] assms(1,3) by (auto simp: r_def)
  then have b: "length (sds_buf r) = sds_free r + sds_len r + 1" "sds_free r + sds_len r < 2 ^ 32"
    by (auto simp: sds_ok_def)
  let ?x = "take n t" and ?b = "splice_at (sds_buf r) 0 (take n t)"
  have l: "length ?x = n" "length ?b = length (sds_buf r)"
    using assms(2) b(1) s(2) by auto
  have tot: "u32 (sds_free s + sds_len s) = sds_free s + sds_len s" "u32 (sds_free r + sds_len r) = sds_free r + sds_len r"
    using assms(1) b(2) by (auto intro!: u32_small simp: sds_ok_def)
  have eq: "(if sds_free s + sds_len s < n then (sdsMakeRoomFor fill s (n - sds_len s),
        u32 (sds_free (sdsMakeRoomFor fill s (n - sds_len s)) + sds_len (sdsMakeRoomFor fill s (n - sds_len s))))
      else (s, sds_free s + sds_len s)) = (r, sds_free r + sds_len r)"
    using tot(2) by (simp add: r_def split: if_splits)
  have "sdscpylen fill s t n = Some \<lparr>sds_len = n, sds_free = sds_free r + sds_len r - n, sds_buf = ?b[n := 0]\<rparr>"
    using assms(2,3) b s(2) l unfolding sdscpylen_def Let_def tot(1) eq
    by (simp add: mem_simps u32_small slice_def)
  moreover have "take n ?b = ?x"
    using take_splice_at_0 [of ?x "sds_buf r"] b(1) s(2) l(1) by simp
  ultimately show ?thesis
    using sds_okI [of ?x "?b[n := 0]" "sds_free r + sds_len r - n"] l b s(2) by simp
qed

lemma sdsgrowzero_ok:
  assumes "sds_ok s" "n < 2 ^ 31"
  shows "\<exists>s'. sdsgrowzero fill s n = Some s' \<and> sds_ok s' \<and> sds_str s' = sds_str s @ replicate (n - sds_len s) 0"
proof (cases "n \<le> sds_len s")
  case False
  let ?d = "n - sds_len s"
  let ?s = "sdsMakeRoomFor fill s ?d"
  note R = sdsMakeRoomFor_ok [OF assms(1), of ?d fill]
  have R: "sds_ok ?s" "sds_str ?s = sds_str s" "?d \<le> sds_free ?s" "sds_len ?s = sds_len s"
    using R False assms(2) by simp_all
  then have b: "length (sds_buf ?s) = sds_len s + sds_free ?s + 1" "sds_len s + sds_free ?s < 2 ^ 32"
    by (auto simp: sds_ok_def)
  let ?z = "replicate (?d + 1) (0 :: byte)" and ?b = "splice_at (sds_buf ?s) (sds_len s) (replicate (?d + 1) 0)"
  have in_range: "sds_len s + length ?z \<le> length (sds_buf ?s)"
    using b(1) R(3) by simp
  have str: "take (sds_len s) (sds_buf ?s) = sds_str s"
    using R(2,4) by (simp add: sds_str_def)
  have all: "take (n + 1) ?b = sds_str s @ ?z"
    using take_splice_at [OF in_range] False str by simp
  have tb: "take n ?b = sds_str s @ replicate ?d 0"
  proof -
    have "take n ?b = take n (take (n + 1) ?b)"
      by simp
    also have "\<dots> = sds_str s @ replicate ?d 0"
      unfolding all using False assms(1) by (simp add: take_replicate del: replicate_Suc)
    finally show ?thesis .
  qed
  have nb: "?b ! n = 0"
  proof -
    have "?b ! n = take (n + 1) ?b ! n"
      by simp
    also have "\<dots> = 0"
      unfolding all using False assms(1) by (simp add: nth_append)
    finally show ?thesis .
  qed
  have "sdsgrowzero fill s n = Some \<lparr>sds_len = n, sds_free = sds_len s + sds_free ?s - n, sds_buf = ?b\<rparr>"
    using False assms(2) in_range b R(3,4)
    by (simp add: sdsgrowzero_def Let_def mem_simps u32_small usub32_id)
  then show ?thesis
    using sds_okI [of "sds_str s @ replicate ?d 0" ?b "sds_len s + sds_free ?s - n"] tb nb b in_range R(3) False assms(1)
    by simp
qed (use assms in \<open>simp add: sdsgrowzero_def\<close>)

lemma sdsclear_ok:
  assumes "sds_ok s"
  shows "\<exists>s'. sdsclear s = Some s' \<and> sds_ok s' \<and> sds_str s' = []"
  using assms by (simp add: sdsclear_def mem_simps sds_ok_def sds_str_def u32_small add.commute)

lemma sdsRemoveFreeSpace_ok:
  assumes "sds_ok s"
  shows "sds_ok (sdsRemoveFreeSpace fill s)" "sds_str (sdsRemoveFreeSpace fill s) = sds_str s"
    "sdsavail (sdsRemoveFreeSpace fill s) = 0"
  using assms by (auto simp: sdsRemoveFreeSpace_def sds_ok_def sds_str_def sdsavail_def zrealloc_def)

text \<open>A string cut to its first \<open>n\<close> characters, which is what the shrinking operations end with.\<close>

lemma sds_cut:
  assumes "sds_ok s" "length buf = length (sds_buf s)" "n \<le> sds_len s" "take n buf = t" 
  shows "sds_ok (s\<lparr>sds_free := u32 (sds_free s + (sds_len s - n)), sds_len := u32 n, sds_buf := buf[n := 0]\<rparr>)"
    "sds_str (s\<lparr>sds_free := u32 (sds_free s + (sds_len s - n)), sds_len := u32 n, sds_buf := buf[n := 0]\<rparr>) = t"
  using assms by (auto simp: sds_ok_def sds_str_def u32_small)

lemma sdsupdatelen_ok:
  assumes "sds_ok s"
  shows "\<exists>s'. sdsupdatelen s = Some s' \<and> sds_ok s' \<and> sds_str s' = takeWhile (\<lambda>c. c \<noteq> 0) (sds_str s)"
proof -
  let ?t = "takeWhile (\<lambda>c. c \<noteq> 0) (sds_str s)"
  have ok: "length (sds_buf s) = sds_len s + sds_free s + 1" "sds_buf s ! sds_len s = 0" "sds_len s + sds_free s < 2 ^ 32"
    using assms by (auto simp: sds_ok_def)
  have buf: "sds_buf s = sds_str s @ 0 # drop (sds_len s + 1) (sds_buf s)"
    using ok id_take_nth_drop [of "sds_len s" "sds_buf s"] by (simp add: sds_str_def)
  define rest where "rest = dropWhile (\<lambda>c. c \<noteq> 0) (sds_str s) @ 0 # drop (sds_len s + 1) (sds_buf s)"
  have split: "sds_buf s = ?t @ rest" "\<exists>r. rest = 0 # r"
  proof -
    show "sds_buf s = ?t @ rest"
      by (subst buf) (simp add: rest_def)
    show "\<exists>r. rest = 0 # r"
    proof (cases "dropWhile (\<lambda>c. c \<noteq> 0) (sds_str s)")
      case Nil
      then show ?thesis
        unfolding rest_def by (simp only: append_Nil) blast
    next
      case (Cons c r)
      then show ?thesis
        using hd_dropWhile [of "\<lambda>c. c \<noteq> 0" "sds_str s"] by (simp add: rest_def)
    qed
  qed
  have "c_strlen (sds_buf s) = Some (length ?t)"
  proof -
    have "0 \<notin> set ?t"
      by (auto dest: set_takeWhileD)
    then show ?thesis
      using split by auto
  qed
  moreover have n: "length ?t \<le> sds_len s"
    using length_takeWhile_le [of _ "sds_str s"] assms by simp
  ultimately have eq: "sdsupdatelen s = Some (s\<lparr>sds_free := sds_free s + (sds_len s - length ?t), sds_len := length ?t\<rparr>)"
    using ok by (simp add: sdsupdatelen_def u32_small usub32_id)
  have "sds_buf s ! length ?t = 0" "take (length ?t) (sds_buf s) = ?t"
    using split by (auto simp: nth_append)
  then show ?thesis
    using eq ok n by (simp add: sds_ok_def sds_str_def)
qed

lemma sdsIncrLen_ok:
  assumes "sds_ok s"
  shows "sdsIncrLen s incr = None \<longleftrightarrow> int (sds_free s) < incr \<or> int (sds_len s) < - incr"
    "sdsIncrLen s incr = Some s' \<Longrightarrow> sds_ok s' \<and> int (sds_len s') = int (sds_len s) + incr \<and>
      sds_str s' = take (nat (int (sds_len s) + incr)) (sds_buf s)"
proof -
  have ok: "length (sds_buf s) = sds_len s + sds_free s + 1" "sds_len s + sds_free s < 2 ^ 32"
    using assms by (auto simp: sds_ok_def)
  let ?n = "nat (int (sds_len s) + incr)" and ?f = "nat (int (sds_free s) - incr)"
  have eq: "sdsIncrLen s incr = Some (s\<lparr>sds_len := ?n, sds_free := ?f, sds_buf := (sds_buf s)[?n := 0]\<rparr>)"
    "?n < length (sds_buf s)" "?n + ?f = sds_len s + sds_free s" "int ?n = int (sds_len s) + incr"
    if "\<not> (int (sds_free s) < incr \<or> int (sds_len s) < - incr)"
  proof -
    have l: "?n < length (sds_buf s)" "?n < 2 ^ 32" "?f < 2 ^ 32"
      using that ok by auto
    then show "sdsIncrLen s incr = Some (s\<lparr>sds_len := ?n, sds_free := ?f, sds_buf := (sds_buf s)[?n := 0]\<rparr>)"
      using that by (auto simp: sdsIncrLen_def Let_def mem_simps u32_small)
    show "?n < length (sds_buf s)" "?n + ?f = sds_len s + sds_free s" "int ?n = int (sds_len s) + incr"
      using l that by auto
  qed
  show "sdsIncrLen s incr = None \<longleftrightarrow> int (sds_free s) < incr \<or> int (sds_len s) < - incr"
    using eq(1) by (auto simp: sdsIncrLen_def)
  show "sdsIncrLen s incr = Some s' \<Longrightarrow> sds_ok s' \<and> int (sds_len s') = int (sds_len s) + incr \<and>
      sds_str s' = take ?n (sds_buf s)"
  proof (cases "int (sds_free s) < incr \<or> int (sds_len s) < - incr")
    case False
    assume "sdsIncrLen s incr = Some s'"
    then show ?thesis
      using eq [OF False] ok by (auto simp: sds_ok_def sds_str_def)
  qed (auto simp: sdsIncrLen_def split: if_splits)
qed

text \<open>The characters \<open>sdstrim\<close> drops: \<open>strchr\<close> also finds the terminator of \<open>cset\<close>.\<close>

definition trimmed :: "byte list \<Rightarrow> byte \<Rightarrow> bool" where
  "trimmed cset c \<longleftrightarrow> c \<in> set cset \<or> c = 0"

definition trim_str :: "byte list \<Rightarrow> byte list \<Rightarrow> byte list" where
  "trim_str cset t = rev (dropWhile (trimmed cset) (rev (dropWhile (trimmed cset) t)))"

lemma trim_left_ok:
  assumes "0 \<notin> set cset" "n < length buf" "sp \<le> n"
  shows "trim_left buf (cset @ 0 # r) (int n - 1) sp =
    Some (sp + length (takeWhile (trimmed cset) (slice buf sp (n - sp))))"
  using assms(3)
proof (induction "n - sp" arbitrary: sp)
  case 0
  then show ?case
    by (subst trim_left.simps) (simp add: slice_def)
next
  case (Suc k)
  then have lt: "sp < n"
    by simp
  then have sl: "slice buf sp (n - sp) = buf ! sp # slice buf (sp + 1) (n - (sp + 1))"
    using assms(2) by (simp add: slice_Cons)
  have "k = n - (sp + 1)" "sp + 1 \<le> n"
    using Suc(2) lt by simp_all
  from Suc(1) [OF this] show ?case
    using lt assms(1,2) unfolding sl
    by (subst trim_left.simps) (simp add: mem_simps trimmed_def)
qed

lemma trim_right_ok:
  assumes "0 \<notin> set cset" "ep < length buf"
  shows "\<exists>j\<le>ep. trim_right buf (cset @ 0 # r) ep = Some j \<and> (\<forall>i. j < i \<and> i \<le> ep \<longrightarrow> trimmed cset (buf ! i)) \<and>
    (j \<noteq> 0 \<longrightarrow> \<not> trimmed cset (buf ! j))"
  using assms(2)
proof (induction ep)
  case (Suc ep)
  show ?case
  proof (cases "trimmed cset (buf ! Suc ep)")
    case True
    from Suc obtain j where "j \<le> ep" "trim_right buf (cset @ 0 # r) ep = Some j"
      "\<forall>i. j < i \<and> i \<le> ep \<longrightarrow> trimmed cset (buf ! i)" "j \<noteq> 0 \<longrightarrow> \<not> trimmed cset (buf ! j)"
      by auto
    then show ?thesis
      using True Suc.prems assms(1) by (intro exI [of _ j]) (auto simp: mem_simps trimmed_def le_Suc_eq)
  next
    case False
    then show ?thesis
      using Suc.prems assms(1) by (intro exI [of _ "Suc ep"]) (auto simp: mem_simps trimmed_def)
  qed
qed simp

lemma trim_str_eq:
  assumes "i \<le> j" "j < length t" "\<And>k. k < i \<Longrightarrow> trimmed cset (t ! k)" "\<not> trimmed cset (t ! i)"
    "\<And>k. j < k \<Longrightarrow> k < length t \<Longrightarrow> trimmed cset (t ! k)" "\<not> trimmed cset (t ! j)"
  shows "trim_str cset t = slice t i (j - i + 1)"
proof -
  have "takeWhile (trimmed cset) t = take i t"
    using assms(1-4) by (intro takeWhile_eq_take_P_nth) auto
  then have d: "dropWhile (trimmed cset) t = drop i t"
    using assms(1,2) by (simp add: dropWhile_eq_drop)
  have "takeWhile (trimmed cset) (rev (drop i t)) = take (length t - 1 - j) (rev (drop i t))"
    using assms by (intro takeWhile_eq_take_P_nth) (auto simp: rev_nth)
  then have "dropWhile (trimmed cset) (rev (drop i t)) = drop (length t - 1 - j) (rev (drop i t))"
    using assms(1,2) by (simp add: dropWhile_eq_drop)
  moreover have "length t - i - (length t - 1 - j) = j - i + 1"
    using assms(1,2) by simp
  ultimately show ?thesis
    using assms(1) unfolding trim_str_def d by (simp add: drop_rev slice_def Suc_diff_le)
qed

lemma sdstrim_ok:
  assumes "sds_ok s" "0 \<notin> set cset"
  shows "\<exists>s'. sdstrim s (cset @ 0 # r) = Some s' \<and> sds_ok s' \<and> sds_str s' = trim_str cset (sds_str s)"
proof -
  let ?t = "sds_str s" and ?n = "sds_len s" and ?buf = "sds_buf s"
  have ok: "length ?buf = ?n + sds_free s + 1" "?n < length ?buf"
    using assms(1) by (auto simp: sds_ok_def)
  define sp where "sp = length (takeWhile (trimmed cset) ?t)"
  have left: "trim_left ?buf (cset @ 0 # r) (int ?n - 1) 0 = Some sp"
    using trim_left_ok [OF assms(2) ok(2), of 0 r] by (simp add: sp_def slice_def sds_str_def)
  have sp: "sp \<le> ?n" "\<And>k. k < sp \<Longrightarrow> trimmed cset (?t ! k)"
  proof -
    show "sp \<le> ?n"
      using length_takeWhile_le [of "trimmed cset" ?t] assms(1) by (simp add: sp_def)
    fix k
    assume "k < sp"
    then have "takeWhile (trimmed cset) ?t ! k \<in> set (takeWhile (trimmed cset) ?t)"
      by (simp add: sp_def)
    then show "trimmed cset (?t ! k)"
      using \<open>k < sp\<close> by (auto simp: sp_def takeWhile_nth dest: set_takeWhileD)
  qed
  have nth: "?buf ! k = ?t ! k" if "k < ?n" for k
    using that by (simp add: sds_str_def)
  have fin: "\<exists>s'. sdstrim s (cset @ 0 # r) = Some s' \<and> sds_ok s' \<and> sds_str s' = trim_str cset ?t"
    if len: "(if int sp > ep then 0 else nat (ep - int sp + 1)) = m" and m: "sp + m \<le> ?n" "slice ?t sp m = trim_str cset ?t"
      and right: "(if int ?n - 1 > 0 then map_option int (trim_right ?buf (cset @ 0 # r) (nat (int ?n - 1))) else Some (int ?n - 1)) = Some ep"
    for ep m
  proof -
    define b where "b = (if sp \<noteq> 0 then splice_at ?buf 0 (slice ?buf sp m) else ?buf)"
    have sl: "slice ?buf sp m = slice ?t sp m" "length (slice ?buf sp m) = m"
      using m(1) ok by (auto simp: slice_def sds_str_def drop_take min_def)
    have b: "length b = length ?buf" "take m b = trim_str cset ?t"
    proof -
      show "length b = length ?buf"
        using sl(2) m(1) ok by (simp add: b_def)
      show "take m b = trim_str cset ?t"
      proof (cases "sp = 0")
        case True
        then show ?thesis
          using m sl(1) by (simp add: b_def slice_def)
      next
        case False
        then show ?thesis
          using take_splice_at_0 [of "slice ?buf sp m" ?buf] sl m ok by (simp add: b_def)
      qed
    qed
    have mv: "(if sp \<noteq> 0 then move_n ?buf 0 sp m else Some ?buf) = Some b"
      using m(1) ok by (simp add: b_def mem_simps)
    have st: "store b m 0 = Some (b[m := 0])"
      using b(1) m(1) ok by (simp add: mem_simps)
    have "sdstrim s (cset @ 0 # r) =
        Some (s\<lparr>sds_free := u32 (sds_free s + (sds_len s - m)), sds_len := u32 m, sds_buf := b[m := 0]\<rparr>)"
      unfolding sdstrim_def sdslen_def Let_def left right
      by (simp only: Option.bind.simps len mv st)
    then show ?thesis
      using sds_cut [OF assms(1) b(1) _ b(2)] m(1) by simp
  qed
  have right: "\<exists>j<?n. trim_right ?buf (cset @ 0 # r) (nat (int ?n - 1)) = Some j \<and>
      (\<forall>i. j < i \<and> i < ?n \<longrightarrow> trimmed cset (?buf ! i)) \<and> (j \<noteq> 0 \<longrightarrow> \<not> trimmed cset (?buf ! j))" if "int ?n - 1 > 0"
  proof -
    have "nat (int ?n - 1) < length ?buf" "\<And>i. i \<le> nat (int ?n - 1) \<longleftrightarrow> i < ?n"
      using that ok by auto
    then show ?thesis
      using trim_right_ok [OF assms(2), of "nat (int ?n - 1)" ?buf r] by auto
  qed
  show ?thesis
  proof (cases "sp = ?n")
    case True
    then have all: "\<forall>c\<in>set ?t. trimmed cset c"
      using sp(2) assms(1) by (metis in_set_conv_nth length_sds_str)
    then have "trim_str cset ?t = []"
      by (auto simp: trim_str_def dest: set_dropWhileD)
    show ?thesis
    proof (cases "int ?n - 1 > 0")
      case True
      then obtain j where "trim_right ?buf (cset @ 0 # r) (nat (int ?n - 1)) = Some j" "j < ?n"
        "j \<noteq> 0 \<longrightarrow> \<not> trimmed cset (?buf ! j)"
        using right [OF True] by blast
      moreover have "trimmed cset (?buf ! j)"
        using \<open>j < ?n\<close> nth all assms(1) by (metis length_sds_str nth_mem)
      ultimately show ?thesis
        using fin [of 0 0] True \<open>trim_str cset ?t = []\<close> \<open>sp = ?n\<close> by (simp add: slice_def)
    qed (use fin [of "int ?n - 1" 0] \<open>trim_str cset ?t = []\<close> \<open>sp = ?n\<close> in \<open>simp add: slice_def\<close>)
  next
    case False
    then have sp': "sp < ?n" "\<not> trimmed cset (?t ! sp)"
      using sp(1) assms(1) nth_length_takeWhile [of "trimmed cset" ?t] by (auto simp: sp_def)
    have "\<exists>j. (if int ?n - 1 > 0 then map_option int (trim_right ?buf (cset @ 0 # r) (nat (int ?n - 1))) else Some (int ?n - 1)) = Some (int j) \<and>
      j < ?n \<and> (\<forall>i. j < i \<and> i < ?n \<longrightarrow> trimmed cset (?t ! i)) \<and> (j \<noteq> 0 \<longrightarrow> \<not> trimmed cset (?t ! j))"
    proof (cases "int ?n - 1 > 0")
      case True
      then obtain j where "trim_right ?buf (cset @ 0 # r) (nat (int ?n - 1)) = Some j" "j < ?n"
        "\<forall>i. j < i \<and> i < ?n \<longrightarrow> trimmed cset (?buf ! i)" "j \<noteq> 0 \<longrightarrow> \<not> trimmed cset (?buf ! j)"
        using right [OF True] by blast
      then show ?thesis
        using True nth by (intro exI [of _ j]) auto
    qed (use sp'(1) in \<open>intro exI [of _ 0]; auto\<close>)
    then obtain j where j: "(if int ?n - 1 > 0 then map_option int (trim_right ?buf (cset @ 0 # r) (nat (int ?n - 1))) else Some (int ?n - 1)) = Some (int j)"
      "j < ?n" "\<And>i. j < i \<Longrightarrow> i < ?n \<Longrightarrow> trimmed cset (?t ! i)" "j \<noteq> 0 \<Longrightarrow> \<not> trimmed cset (?t ! j)"
      by blast
    have "sp \<le> j"
      using j(3) [of sp] sp' by (cases "j < sp") auto
    moreover from this have "\<not> trimmed cset (?t ! j)"
      using j(4) sp'(2) by (cases "j = 0") auto
    ultimately have "trim_str cset ?t = slice ?t sp (j - sp + 1)"
      using j(2,3) sp(2) sp'(2) assms(1) by (intro trim_str_eq) auto
    moreover have "(if int sp > int j then 0 else nat (int j - int sp + 1)) = j - sp + 1"
      using \<open>sp \<le> j\<close> by simp
    ultimately show ?thesis
      using fin [of "int j" "j - sp + 1"] j(1,2) \<open>sp \<le> j\<close> by simp
  qed
qed

text \<open>The range a pair of indices denotes, negative ones counting from the end.\<close>

definition range_index :: "nat \<Rightarrow> int \<Rightarrow> nat" where
  "range_index n i = nat (if i < 0 then int n + i else i)"

definition range_str :: "int \<Rightarrow> int \<Rightarrow> byte list \<Rightarrow> byte list" where
  "range_str start e t = take (range_index (length t) e + 1 - range_index (length t) start) (drop (range_index (length t) start) t)"

lemma sdsrange_ok:
  assumes "sds_ok s" "sds_len s < 2 ^ 31" "in_signed 32 start" "in_signed 32 e"
  shows "\<exists>s'. sdsrange s start e = Some s' \<and> sds_ok s' \<and> sds_str s' = range_str start e (sds_str s)"
proof (cases "sds_len s = 0")
  case True
  then show ?thesis
    using assms(1) by (auto simp: sdsrange_def sdslen_def range_str_def sds_str_def)
next
  case False
  let ?n = "sds_len s" and ?buf = "sds_buf s" and ?t = "sds_str s"
  define i where "i = range_index ?n start"
  define j where "j = range_index ?n e"
  have ok: "length ?buf = ?n + sds_free s + 1"
    using assms(1) by (simp add: sds_ok_def)
  have norm: "(if x < 0 then let x = to_signed 32 (int ?n + x) in if x < 0 then 0 else x else x) = int (range_index ?n x)"
    if "in_signed 32 x" for x
    using that assms(2) by (auto simp: range_index_def Let_def to_signed_id)
  define m where "m = (if i > j then 0 else if i \<ge> ?n then 0 else if j \<ge> ?n then ?n - i else j - i + 1)"
  have tn: "to_signed 32 (int ?n) = int ?n" "to_signed 32 (int ?n - 1) = int ?n - 1"
    using assms(2) by (auto intro!: to_signed_id)
  have m: "m \<noteq> 0 \<Longrightarrow> i + m \<le> ?n" "m \<le> ?n"
    by (auto simp: m_def split: if_splits)
  define st where "st = (if i > j then 0 else int i)"
  have newlen: "(if (if int i > int j then 0 else nat (int j - int i + 1)) \<noteq> 0 then
       if int i \<ge> int ?n then (int i, 0)
       else if int j \<ge> int ?n then (int i, if int i > int ?n - 1 then 0 else nat (int ?n - 1 - int i + 1))
       else (int i, if int i > int j then 0 else nat (int j - int i + 1))
     else (0, if int i > int j then 0 else nat (int j - int i + 1))) = (st, m)"
    by (auto simp: m_def st_def)
  define b where "b = (if st \<noteq> 0 \<and> m \<noteq> 0 then splice_at ?buf 0 (slice ?buf i m) else ?buf)"
  have mv: "(if st \<noteq> 0 \<and> m \<noteq> 0 then move_n ?buf 0 (nat st) m else Some ?buf) = Some b"
    using m ok by (auto simp: b_def st_def mem_simps m_def split: if_splits)
  have b: "length b = length ?buf" "take m b = range_str start e ?t"
  proof -
    show "length b = length ?buf"
      using m ok by (auto simp: b_def length_slice)
    have r: "range_str start e ?t = take (j + 1 - i) (drop i ?t)"
      using assms(1) by (simp add: range_str_def i_def j_def)
    show "take m b = range_str start e ?t"
    proof (cases "m = 0")
      case True
      then have "j < i \<or> ?n \<le> i"
        using False by (auto simp: m_def split: if_splits)
      then show ?thesis
        unfolding r using True assms(1) by auto
    next
      case nz: False
      have "take (j + 1 - i) (drop i ?t) = slice ?t i m"
        using nz assms(1) by (auto simp: m_def slice_def Suc_diff_le split: if_splits)
      also have "\<dots> = slice ?buf i m"
        using m(1) [OF nz] by (simp add: slice_def sds_str_def drop_take min_def)
      also have "\<dots> = take m b"
      proof (cases "st = 0")
        case True
        then have "i = 0"
          using nz by (simp add: st_def m_def split: if_splits)
        then show ?thesis
          using True by (simp add: b_def slice_def)
      next
        case False
        then show ?thesis
          using take_splice_at_0 [of "slice ?buf i m" ?buf] m(1) [OF nz] ok nz by (simp add: b_def length_slice)
      qed
      finally show ?thesis
        unfolding r by simp
    qed
  qed
  have st: "store b m 0 = Some (b[m := 0])"
    using b(1) m(2) ok by (simp add: mem_simps)
  have "sdsrange s start e =
      Some (s\<lparr>sds_free := u32 (sds_free s + (sds_len s - m)), sds_len := u32 m, sds_buf := b[m := 0]\<rparr>)"
    using False unfolding sdsrange_def sdslen_def Let_def [of "sds_len s"] norm [OF assms(3)] norm [OF assms(4)] tn
      i_def [symmetric] j_def [symmetric]
    unfolding Let_def tn newlen prod.case
    by (simp only: if_False Option.bind.simps mv st)
  then show ?thesis
    using sds_cut [OF assms(1) b(1) m(2) b(2)] by simp
qed

lemma map_loop_ok:
  assumes "j + n \<le> length buf"
  shows "map_loop f buf j n = Some (take j buf @ map f (slice buf j n) @ drop (j + n) buf)"
  using assms
proof (induction n arbitrary: buf j)
  case (Suc n)
  have "map_loop f (buf[j := f (buf ! j)]) (j + 1) n =
      Some (take (j + 1) (buf[j := f (buf ! j)]) @ map f (slice (buf[j := f (buf ! j)]) (j + 1) n) @
        drop (j + 1 + n) (buf[j := f (buf ! j)]))"
    using Suc.prems by (intro Suc.IH) simp
  then show ?case
    using Suc.prems by (simp add: mem_simps slice_Cons take_Suc_conv_app_nth) (simp add: slice_def)
qed (simp add: slice_def)

lemma sds_map_ok:
  assumes "sds_ok s"
  shows "\<exists>buf. map_loop f (sds_buf s) 0 (sds_len s) = Some buf \<and> sds_ok (s\<lparr>sds_buf := buf\<rparr>) \<and>
    sds_str (s\<lparr>sds_buf := buf\<rparr>) = map f (sds_str s)"
proof -
  have "map_loop f (sds_buf s) 0 (sds_len s) = Some (map f (sds_str s) @ drop (sds_len s) (sds_buf s))"
    using assms map_loop_ok [of 0 "sds_len s" "sds_buf s" f] by (simp add: sds_ok_def sds_str_def slice_def)
  then show ?thesis
    using assms by (auto simp: sds_ok_def sds_str_def nth_append min_def)
qed

fun mapped :: "byte list \<Rightarrow> byte list \<Rightarrow> byte \<Rightarrow> byte" where
  "mapped (x # xs) (y # ys) c = (if c = x then y else mapped xs ys c)"
| "mapped _ _ c = c"

lemma mapchars_find_ok:
  "n \<le> length xs \<Longrightarrow> n \<le> length ys \<Longrightarrow> mapchars_find xs ys n c = Some (mapped (take n xs) (take n ys) c)"
proof (induction n arbitrary: xs ys)
  case (Suc n)
  then show ?case
    by (cases xs; cases ys) (auto simp: load_def)
qed simp

lemma mapchars_loop_ok:
  "n \<le> length xs \<Longrightarrow> n \<le> length ys \<Longrightarrow>
    mapchars_loop xs ys n buf j m = map_loop (mapped (take n xs) (take n ys)) buf j m"
  by (induction m arbitrary: buf j) (simp_all add: mapchars_find_ok)

lemma c_memcmp_iff:
  assumes "length xs = length ys"
  shows "c_memcmp xs ys = 0 \<longleftrightarrow> xs = ys" "c_memcmp xs ys < 0 \<longleftrightarrow> ord_class.lexordp xs ys" "c_memcmp xs ys > 0 \<longleftrightarrow> ord_class.lexordp ys xs"
  using assms by (induction xs ys rule: list_induct2) auto

text \<open>Splitting.\<close>

definition token_pairs :: "byte list \<Rightarrow> sdshdr list \<Rightarrow> byte list" where
  "token_pairs sep ts = concat (map (\<lambda>t. sds_str t @ sep) ts)"

definition no_sep :: "byte list \<Rightarrow> byte list \<Rightarrow> bool" where
  "no_sep sep t \<longleftrightarrow> (\<forall>i. i + length sep \<le> length t \<longrightarrow> slice t i (length sep) \<noteq> sep)"

lemma push_token_ok:
  assumes "start + n \<le> length s" "n < 2 ^ 32" "length tokens < slots"
  shows "\<exists>tok. push_token fill s start n tokens slots = Some (tokens @ [tok]) \<and> sds_ok tok \<and> sds_str tok = slice s start n"
proof -
  have "n \<le> length (drop start s)" "start \<le> length s"
    using assms(1) by simp_all
  then show ?thesis
    using sdsnewlen_ok [OF assms(2), of "drop start s" fill] assms(3) by (auto simp: push_token_def slice_def)
qed

lemma split_loop_ok:
  assumes "sep \<noteq> []" "length s < 2 ^ 31" "start \<le> j" "j \<le> length s" "2 \<le> slots" "length tokens < slots"
    "take start s = token_pairs sep tokens" "\<forall>t\<in>set tokens. sds_ok t \<and> no_sep sep (sds_str t)"
    "\<forall>i. start \<le> i \<and> i < j \<and> i + length sep \<le> length s \<longrightarrow> slice s i (length sep) \<noteq> sep"
  shows "\<exists>start' tokens' slots'. split_loop fill s (int (length s)) sep (length sep) j start tokens slots = Some (start', tokens', slots') \<and>
    start' \<le> length s \<and> length tokens' < slots' \<and> take start' s = token_pairs sep tokens' \<and>
    (\<forall>t\<in>set tokens'. sds_ok t \<and> no_sep sep (sds_str t)) \<and>
    (\<forall>i. start' \<le> i \<and> i + length sep \<le> length s \<longrightarrow> slice s i (length sep) \<noteq> sep)"
  using assms(3-)
proof (induction "length s + 1 - j" arbitrary: j start tokens slots rule: less_induct)
  case less
  let ?k = "length sep"
  have k: "0 < ?k"
    using assms(1) by simp
  define sl where "sl = (if slots < length tokens + 2 then slots * 2 else slots)"
  show ?case
  proof (cases "j + ?k \<le> length s")
    case True
    then have guard: "0 < ?k \<and> int j < int (length s) - (int ?k - 1)"
      using k by auto
    have sl: "2 \<le> sl" "length tokens + 1 < sl"
      using less.prems(3,4) by (auto simp: sl_def)
    have load: "load_n s j ?k = Some (slice s j ?k)" "load_n sep 0 ?k = Some sep" "length (slice s j ?k) = ?k"
      using True by (simp_all add: mem_simps length_slice)
    have eq: "c_memcmp (slice s j ?k) sep = 0 \<longleftrightarrow> slice s j ?k = sep"
      using c_memcmp_iff(1) load(3) by blast
    have one: "(if ?k = 1 then do { c \<leftarrow> load s j; c0 \<leftarrow> load sep 0; Some (c = c0) } else Some False) =
        Some (?k = 1 \<and> slice s j ?k = sep)"
    proof (cases "?k = 1")
      case one: True
      then obtain a where "sep = [a]"
        by (auto simp: length_Suc_conv)
      moreover have "slice s j ?k = [s ! j]"
        using slice_Cons [of j s 1] True one by (simp add: slice_def)
      ultimately show ?thesis
        using one True by (auto simp: mem_simps)
    qed simp
    have step: "split_loop fill s (int (length s)) sep ?k j start tokens slots =
      (if slice s j ?k = sep then do {
         tokens \<leftarrow> push_token fill s start (j - start) tokens sl;
         split_loop fill s (int (length s)) sep ?k (j + ?k) (j + ?k) tokens sl }
       else split_loop fill s (int (length s)) sep ?k (j + 1) start tokens sl)"
      using guard unfolding split_loop.simps [of fill s _ sep ?k j] Let_def one load sl_def [symmetric]
      by (simp add: load eq c_memcmp_iff(1) [of sep sep])
    show ?thesis
    proof (cases "slice s j ?k = sep")
      case match: True
      obtain tok where tok: "push_token fill s start (j - start) tokens sl = Some (tokens @ [tok])" "sds_ok tok"
        "sds_str tok = slice s start (j - start)"
      proof -
        have "start + (j - start) \<le> length s" "j - start < 2 ^ 32" "length tokens < sl"
          using less.prems(1,2) assms(2) sl(2) by auto
        from push_token_ok [OF this, of fill] show ?thesis
          using that by blast
      qed
      have "take (j + ?k) s = take start s @ slice s start (j - start) @ slice s j ?k"
        using less.prems(1) True by (simp add: slice_def take_add flip: append_assoc) (metis add.commute le_add_diff_inverse2 take_add)
      then have pairs: "take (j + ?k) s = token_pairs sep (tokens @ [tok])"
        using less.prems(5) tok(3) match by (simp add: token_pairs_def)
      have ns: "no_sep sep (sds_str tok)"
        unfolding no_sep_def tok(3)
      proof (intro allI impI)
        fix i
        assume i: "i + ?k \<le> length (slice s start (j - start))"
        then have i': "i + ?k \<le> j - start"
          using less.prems(1,2) by (simp add: slice_def)
        then have "slice (slice s start (j - start)) i ?k = slice s (start + i) ?k"
          by (simp add: slice_def drop_take add.commute min_def)
        moreover have "slice s (start + i) ?k \<noteq> sep"
        proof (rule less.prems(7) [rule_format], intro conjI)
          show "start \<le> start + i" "start + i < j" "start + i + ?k \<le> length s"
            using i' k less.prems(1,2) by linarith+
        qed
        ultimately show "slice (slice s start (j - start)) i ?k \<noteq> sep"
          by simp
      qed
      show ?thesis
      proof -
        have "\<exists>start' tokens' slots'. split_loop fill s (int (length s)) sep ?k (j + ?k) (j + ?k) (tokens @ [tok]) sl =
            Some (start', tokens', slots') \<and> start' \<le> length s \<and> length tokens' < slots' \<and> take start' s = token_pairs sep tokens' \<and>
          (\<forall>t\<in>set tokens'. sds_ok t \<and> no_sep sep (sds_str t)) \<and>
          (\<forall>i. start' \<le> i \<and> i + ?k \<le> length s \<longrightarrow> slice s i ?k \<noteq> sep)"
        proof (rule less.hyps)
          show "length s + 1 - (j + ?k) < length s + 1 - j"
            using True k by linarith
        qed (use True sl pairs ns tok(2) less.prems(6) in auto)
        then show ?thesis
          unfolding step using match tok(1) by simp
      qed
    next
      case nomatch: False
      have "\<forall>i. start \<le> i \<and> i < j + 1 \<and> i + ?k \<le> length s \<longrightarrow> slice s i ?k \<noteq> sep"
        using less.prems(7) nomatch by (auto simp: less_Suc_eq)
      moreover have "length s + 1 - (j + 1) < length s + 1 - j" "start \<le> j + 1" "j + 1 \<le> length s"
        using True k less.prems(1) by linarith+
      ultimately show ?thesis
        unfolding step using nomatch less.hyps [of "j + 1" start sl tokens] sl less.prems(5,6) by auto
    qed
  next
    case False
    then have "split_loop fill s (int (length s)) sep ?k j start tokens slots = Some (start, tokens, slots)"
      by (subst split_loop.simps) auto
    then show ?thesis
      using less.prems False by auto
  qed
qed


section \<open>Properties\<close>

lemma c_memcmp_take:
  assumes "n = min (length xs) (length ys)"
  shows "sgn (c_memcmp (take n xs) (take n ys)) = (if ord_class.lexordp (take n xs) (take n ys) then -1 else if ord_class.lexordp (take n ys) (take n xs) then 1 else 0)"
  using c_memcmp_iff [of "take n xs" "take n ys"] assms by (auto simp: sgn_if)

lemma lexordp_take:
  assumes "n = min (length xs) (length ys)"
  shows "ord_class.lexordp xs ys \<longleftrightarrow>
    ord_class.lexordp (take n xs) (take n ys) \<or> take n xs = take n ys \<and> length xs < length (ys :: byte list)"
  using assms
proof (induction xs arbitrary: ys n)
  case Nil
  then show ?case
    by (cases ys) auto
next
  case (Cons x xs)
  then show ?case
    by (cases ys) (auto simp: Cons.IH)
qed

text \<open>Comparison is the lexicographic order on the bytes, a proper prefix being smaller: for strings
  of less than 2 GB the sign of \<open>sdscmp\<close> says which string is smaller and is 0 exactly for
  equal strings, embedded zero bytes included.
\<close>

theorem sdscmp_lexicographic:
  assumes "sds_ok s" "sds_ok t" "sds_len s < 2 ^ 31" "sds_len t < 2 ^ 31"
  shows "\<exists>c. sdscmp s t = Some c \<and> (c = 0 \<longleftrightarrow> sds_str s = sds_str t) \<and> (c < 0 \<longleftrightarrow> ord_class.lexordp (sds_str s) (sds_str t))"
proof -
  let ?x = "sds_str s" and ?y = "sds_str t" and ?n = "min (sds_len s) (sds_len t)"
  have n: "(if sds_len s < sds_len t then sds_len s else sds_len t) = ?n"
    by simp
  have l: "load_n (sds_buf s) 0 ?n = Some (take ?n ?x)" "load_n (sds_buf t) 0 ?n = Some (take ?n ?y)"
    using assms(1,2) by (auto simp: mem_simps sds_ok_def sds_str_def slice_def min_def)
  have len: "length ?x = sds_len s" "length ?y = sds_len t" "length (take ?n ?x) = length (take ?n ?y)"
    using assms(1,2) by auto
  have d: "to_signed 32 (int (sds_len s) - int (sds_len t)) = int (sds_len s) - int (sds_len t)"
    using assms(3,4) by (intro to_signed_id) auto
  have cmp: "sdscmp s t = Some (if c_memcmp (take ?n ?x) (take ?n ?y) = 0 then int (sds_len s) - int (sds_len t)
      else c_memcmp (take ?n ?x) (take ?n ?y))"
    unfolding sdscmp_def sdslen_def Let_def n by (simp add: l d)
  have eq: "?x = ?y \<longleftrightarrow> take ?n ?x = take ?n ?y \<and> sds_len s = sds_len t"
    using len by (metis min.idem take_all order_refl)
  show ?thesis
    unfolding cmp using c_memcmp_iff [OF len(3)] eq lexordp_take [of ?n ?x ?y] len by auto
qed


theorem sdscmp_lexicographic_witness:
  "\<exists>c. sdscmp \<lparr>sds_len = 1, sds_free = 0, sds_buf = [0x61, 0]\<rparr> \<lparr>sds_len = 2, sds_free = 0, sds_buf = [0x61, 0, 0]\<rparr> = Some c \<and> c < 0"
  using sdscmp_lexicographic [of "\<lparr>sds_len = 1, sds_free = 0, sds_buf = [0x61, 0]\<rparr>" "\<lparr>sds_len = 2, sds_free = 0, sds_buf = [0x61, 0, 0]\<rparr>"]
  by (auto simp: sds_ok_def sds_str_def)

fun intercalate :: "'a list \<Rightarrow> 'a list list \<Rightarrow> 'a list" where
  "intercalate sep [] = []"
| "intercalate sep [x] = x"
| "intercalate sep (x # y # ys) = x @ sep @ intercalate sep (y # ys)"

lemma set_intercalate: "x \<in> set ts \<Longrightarrow> set x \<subseteq> set (intercalate sep ts)"
  by (induction sep ts rule: intercalate.induct) auto

lemma intercalate_tokens: "intercalate sep (map sds_str (ts @ [t])) = token_pairs sep ts @ sds_str t"
proof (induction ts)
  case (Cons u ts)
  then show ?case
    by (cases "map sds_str (ts @ [t])") (auto simp: token_pairs_def)
qed (simp add: token_pairs_def)

text \<open>Splitting.\<close>

lemma sdssplitlen_ok:
  assumes "sep \<noteq> []" "s \<noteq> []" "length s < 2 ^ 31"
  shows "\<exists>toks. sdssplitlen fill s (int (length s)) sep (int (length sep)) = Some (Some toks) \<and> toks \<noteq> [] \<and>
    (\<forall>t\<in>set toks. sds_ok t \<and> no_sep sep (sds_str t)) \<and> intercalate sep (map sds_str toks) = s"
proof -
  obtain start tokens slots where l: "split_loop fill s (int (length s)) sep (length sep) 0 0 [] 5 = Some (start, tokens, slots)"
    "start \<le> length s" "length tokens < slots" "take start s = token_pairs sep tokens"
    "\<forall>t\<in>set tokens. sds_ok t \<and> no_sep sep (sds_str t)"
    "\<forall>i. start \<le> i \<and> i + length sep \<le> length s \<longrightarrow> slice s i (length sep) \<noteq> sep"
  proof -
    have "\<exists>start' tokens' slots'. split_loop fill s (int (length s)) sep (length sep) 0 0 [] 5 = Some (start', tokens', slots') \<and>
    start' \<le> length s \<and> length tokens' < slots' \<and> take start' s = token_pairs sep tokens' \<and>
    (\<forall>t\<in>set tokens'. sds_ok t \<and> no_sep sep (sds_str t)) \<and>
    (\<forall>i. start' \<le> i \<and> i + length sep \<le> length s \<longrightarrow> slice s i (length sep) \<noteq> sep)"
      by (rule split_loop_ok) (use assms in \<open>auto simp: token_pairs_def\<close>)
    then show ?thesis
      using that by blast
  qed
  have "start + (length s - start) \<le> length s" "length s - start < 2 ^ 32"
    using l(2) assms(3) by auto
  from push_token_ok [OF this l(3), of fill] obtain tok where
    tok: "push_token fill s start (length s - start) tokens slots = Some (tokens @ [tok])" "sds_ok tok"
      "sds_str tok = slice s start (length s - start)"
    by blast
  have str: "sds_str tok = drop start s"
    using tok(3) by (simp add: slice_def)
  have "no_sep sep (sds_str tok)"
    unfolding no_sep_def str
  proof (intro allI impI)
    fix i
    assume "i + length sep \<le> length (drop start s)"
    then have "start + i + length sep \<le> length s"
      using l(2) by simp
    moreover have "slice (drop start s) i (length sep) = slice s (start + i) (length sep)"
      by (simp add: slice_def add.commute)
    ultimately show "slice (drop start s) i (length sep) \<noteq> sep"
      using l(6) by simp
  qed
  moreover have "intercalate sep (map sds_str (tokens @ [tok])) = s"
    unfolding intercalate_tokens using l(4) str by (metis append_take_drop_id)
  moreover have "sdssplitlen fill s (int (length s)) sep (int (length sep)) = Some (Some (tokens @ [tok]))"
  proof -
    have "\<not> (int (length sep) < 1 \<or> int (length s) < 0)" "int (length s) \<noteq> 0"
      using assms(1,2) by (auto simp: not_less Suc_le_eq)
    then show ?thesis
      by (simp add: sdssplitlen_def l(1) tok(1))
  qed
  ultimately show ?thesis
    using l(5) tok(2) by (intro exI [of _ "tokens @ [tok]"]) auto
qed

text \<open>Joining.\<close>

lemma join_loop_ok:
  assumes "sds_ok s" "0 \<notin> set sep" "\<forall>a\<in>set argv. \<exists>t r. a = t @ 0 # r \<and> 0 \<notin> set t"
    "length (sds_str s) + length (intercalate sep (map (takeWhile (\<lambda>c. c \<noteq> 0)) argv)) < 2 ^ 31"
  shows "\<exists>s'. join_loop fill s argv (sep @ 0 # r) = Some s' \<and> sds_ok s' \<and>
    sds_str s' = sds_str s @ intercalate sep (map (takeWhile (\<lambda>c. c \<noteq> 0)) argv)"
  using assms(1,3,4)
proof (induction argv arbitrary: s)
  case (Cons a argv)
  let ?w = "map (takeWhile (\<lambda>c. c \<noteq> 0))"
  obtain t r' where a: "a = t @ 0 # r'" "0 \<notin> set t"
    using Cons.prems(2) by auto
  have t: "takeWhile (\<lambda>c. c \<noteq> 0) a = t"
    using a by (auto simp: takeWhile_append)
  define sep' where "sep' = (if argv \<noteq> [] then sep else [])"
  have conc: "intercalate sep (?w (a # argv)) = t @ sep' @ intercalate sep (?w argv)"
    by (cases argv) (auto simp: t sep'_def)
  then have bound: "length (sds_str s) + length t < 2 ^ 31" "length (sds_str s @ t) + length sep' < 2 ^ 31"
    "length ((sds_str s @ t) @ sep') + length (intercalate sep (?w argv)) < 2 ^ 31"
    using Cons.prems(3) by auto
  obtain s1 where s1: "sdscatlen fill s t (length t) = Some s1" "sds_ok s1" "sds_str s1 = sds_str s @ t"
    using Cons.prems(1) bound(1) by (rule sds.catE)
  obtain s2 where s2: "(if argv \<noteq> [] then sdscat fill s1 (sep @ 0 # r) else Some s1) = Some s2" "sds_ok s2"
    "sds_str s2 = (sds_str s @ t) @ sep'"
  proof (cases "argv = []")
    case False
    then obtain s2 where "sdscatlen fill s1 sep (length sep) = Some s2" "sds_ok s2" "sds_str s2 = sds_str s1 @ sep"
      using sds.catE [of s1 sep fill] s1(2,3) bound(2) by (auto simp: sep'_def)
    then show ?thesis
      using that [of s2] False s1(3) assms(2) by (simp add: sdscat_ok sep'_def)
  qed (use that s1 in \<open>simp add: sep'_def\<close>)
  have "join_loop fill s (a # argv) (sep @ 0 # r) = join_loop fill s2 argv (sep @ 0 # r)"
    using s1(1) s2(1) a by (simp add: sdscat_ok)
  then show ?case
    using Cons.IH [OF s2(2)] Cons.prems(2) bound(3) s2(3) conc by simp
qed simp

text \<open>C25:
  Joining undoes splitting. Splitting a non-empty string without zero bytes at a non-empty separator of any
  length yields at least one token and no token is written outside the growing array; every
  token is well-formed and free of the separator, and \<open>sdsjoin\<close> with the same separator
  makes the string again of the tokens.
\<close>

theorem sdssplitlen_sdsjoin:
  assumes "sep \<noteq> []" "s \<noteq> []" "length s < 2 ^ 31" "0 \<notin> set s" "0 \<notin> set sep"
  shows "\<exists>toks joined. sdssplitlen fill s (int (length s)) sep (int (length sep)) = Some (Some toks) \<and> toks \<noteq> [] \<and>
    (\<forall>t\<in>set toks. sds_ok t \<and> no_sep sep (sds_str t)) \<and>
    sdsjoin fill (map sds_buf toks) (sep @ [0]) = Some joined \<and> sds_ok joined \<and> sds_str joined = s"
proof -
  obtain toks where toks: "sdssplitlen fill s (int (length s)) sep (int (length sep)) = Some (Some toks)"
    "\<forall>t\<in>set toks. sds_ok t \<and> no_sep sep (sds_str t)" "intercalate sep (map sds_str toks) = s" "toks \<noteq> []"
    using sdssplitlen_ok [OF assms(1-3), of fill] by blast
  have buf: "sds_buf t = sds_str t @ 0 # drop (sds_len t + 1) (sds_buf t)" if "t \<in> set toks" for t
    using toks(2) that id_take_nth_drop [of "sds_len t" "sds_buf t"] by (simp add: sds_ok_def sds_str_def)
  have "takeWhile (\<lambda>c. c \<noteq> 0) (sds_buf t) = sds_str t" if "t \<in> set toks" for t
  proof -
    have "set (sds_str t) \<subseteq> set s"
      using set_intercalate [of "sds_str t" "map sds_str toks" sep] that toks(3) by auto
    then have "\<forall>c\<in>set (sds_str t). c \<noteq> 0"
      using assms(4) by auto
    then show ?thesis
      by (subst buf [OF that]) (simp add: takeWhile_append)
  qed
  then have w: "map (takeWhile (\<lambda>c. c \<noteq> 0)) (map sds_buf toks) = map sds_str toks"
    by simp
  have args: "\<forall>a\<in>set (map sds_buf toks). \<exists>t r. a = t @ 0 # r \<and> 0 \<notin> set t"
  proof
    fix a
    assume "a \<in> set (map sds_buf toks)"
    then obtain t where t: "t \<in> set toks" "a = sds_buf t"
      by auto
    then show "\<exists>t r. a = t @ 0 # r \<and> 0 \<notin> set t"
      using buf [OF t(1)] set_intercalate [of "sds_str t" "map sds_str toks" sep] toks(3) assms(4)
      by (intro exI [of _ "sds_str t"] exI [of _ "drop (sds_len t + 1) (sds_buf t)"]) auto
  qed
  obtain e where e: "sdsempty fill = Some e" "sds_ok e" "sds_str e = []"
    using sdsempty_ok by blast
  then obtain joined where "join_loop fill e (map sds_buf toks) (sep @ 0 # []) = Some joined" "sds_ok joined" "sds_str joined = s"
    using join_loop_ok [OF e(2) assms(5) args, of fill "[]"] toks(3) assms(3) unfolding w by auto
  then show ?thesis
    using toks(1,2,4) e(1) by (auto simp: sdsjoin_def)
qed

theorem sdssplitlen_sdsjoin_witness:
  "\<exists>toks joined. sdssplitlen (\<lambda>_. 0) [97, 45, 95, 98, 45, 95, 99] 7 [45, 95] 2 = Some (Some toks) \<and>
    sdsjoin (\<lambda>_. 0) (map sds_buf toks) [45, 95, 0] = Some joined \<and> sds_str joined = [97, 45, 95, 98, 45, 95, 99]"
  using sdssplitlen_sdsjoin [of "[45, 95]" "[97, 45, 95, 98, 45, 95, 99]" "\<lambda>_. 0"] by auto

text \<open>The operations as commands, and what they do to the string.\<close>

datatype sds_op =
  OpCatLen "byte list" | OpCpyLen "byte list" | OpGrowZero nat | OpClear | OpUpdateLen | OpTrim "byte list" | OpRange int int
| OpToLower | OpToUpper | OpMapChars "byte list" "byte list" | OpDup | OpMakeRoom nat | OpRemoveFree

fun sds_exec :: "(nat \<Rightarrow> byte) \<Rightarrow> sds_op \<Rightarrow> sdshdr \<Rightarrow> sdshdr option" where
  "sds_exec fill (OpCatLen b) s = sdscatlen fill s b (length b)"
| "sds_exec fill (OpCpyLen b) s = sdscpylen fill s b (length b)"
| "sds_exec fill (OpGrowZero n) s = sdsgrowzero fill s n"
| "sds_exec fill OpClear s = sdsclear s"
| "sds_exec fill OpUpdateLen s = sdsupdatelen s"
| "sds_exec fill (OpTrim cset) s = sdstrim s (cset @ [0])"
| "sds_exec fill (OpRange start e) s = sdsrange s start e"
| "sds_exec fill OpToLower s = sdstolower s"
| "sds_exec fill OpToUpper s = sdstoupper s"
| "sds_exec fill (OpMapChars xs ys) s = sdsmapchars s xs ys (length xs)"
| "sds_exec fill OpDup s = sdsdup fill s"
| "sds_exec fill (OpMakeRoom n) s = Some (sdsMakeRoomFor fill s n)"
| "sds_exec fill OpRemoveFree s = Some (sdsRemoveFreeSpace fill s)"

fun str_exec :: "sds_op \<Rightarrow> byte list \<Rightarrow> byte list" where
  "str_exec (OpCatLen b) t = t @ b"
| "str_exec (OpCpyLen b) t = b"
| "str_exec (OpGrowZero n) t = t @ replicate (n - length t) 0"
| "str_exec OpClear t = []"
| "str_exec OpUpdateLen t = takeWhile (\<lambda>c. c \<noteq> 0) t"
| "str_exec (OpTrim cset) t = trim_str cset t"
| "str_exec (OpRange start e) t = range_str start e t"
| "str_exec OpToLower t = map c_tolower t"
| "str_exec OpToUpper t = map c_toupper t"
| "str_exec (OpMapChars xs ys) t = map (mapped xs ys) t"
| "str_exec _ t = t"

text \<open>The arguments are in range: strings below 2 GB, C strings without zero bytes, \<open>int\<close> indices.\<close>

fun sds_args_ok :: "sds_op \<Rightarrow> byte list \<Rightarrow> bool" where
  "sds_args_ok (OpCatLen b) t \<longleftrightarrow> length t + length b < 2 ^ 31"
| "sds_args_ok (OpCpyLen b) t \<longleftrightarrow> length b < 2 ^ 31"
| "sds_args_ok (OpGrowZero n) t \<longleftrightarrow> n < 2 ^ 31"
| "sds_args_ok (OpTrim cset) t \<longleftrightarrow> 0 \<notin> set cset"
| "sds_args_ok (OpRange start e) t \<longleftrightarrow> in_signed 32 start \<and> in_signed 32 e \<and> length t < 2 ^ 31"
| "sds_args_ok (OpMapChars xs ys) t \<longleftrightarrow> length xs = length ys"
| "sds_args_ok (OpMakeRoom n) t \<longleftrightarrow> length t + n < 2 ^ 31"
| "sds_args_ok _ t \<longleftrightarrow> True"

lemma sds_exec_ok:
  assumes "sds_ok s" "sds_args_ok p (sds_str s)"
  shows "\<exists>s'. sds_exec fill p s = Some s' \<and> sds_ok s' \<and> sds_str s' = str_exec p (sds_str s)"
proof (cases p)
  case (OpCatLen b)
  then show ?thesis
    using sdscatlen_ok [of s "length b" b fill] assms by auto
next
  case (OpCpyLen b)
  then show ?thesis
    using sdscpylen_ok [of s "length b" b fill] assms by auto
next
  case (OpGrowZero n)
  then show ?thesis
    using sdsgrowzero_ok [of s n fill] assms by auto
next
  case OpClear
  then show ?thesis
    using sdsclear_ok assms by auto
next
  case OpUpdateLen
  then show ?thesis
    using sdsupdatelen_ok assms by auto
next
  case (OpTrim cset)
  then show ?thesis
    using sdstrim_ok [of s cset "[]"] assms by auto
next
  case (OpRange start e)
  then show ?thesis
    using sdsrange_ok [of s start e] assms by auto
next
  case OpToLower
  then show ?thesis
    using sds_map_ok [of s c_tolower] assms by (auto simp: sdstolower_def sdslen_def)
next
  case OpToUpper
  then show ?thesis
    using sds_map_ok [of s c_toupper] assms by (auto simp: sdstoupper_def sdslen_def)
next
  case (OpMapChars xs ys)
  then show ?thesis
    using sds_map_ok [of s "mapped xs ys"] assms by (auto simp: sdsmapchars_def sdslen_def mapchars_loop_ok)
next
  case OpDup
  then show ?thesis
    using sdsdup_ok [of s fill] assms by auto
next
  case (OpMakeRoom n)
  then show ?thesis
    using sdsMakeRoomFor_ok [of s n fill] assms by auto
next
  case OpRemoveFree
  then show ?thesis
    using sdsRemoveFreeSpace_ok [of s fill] assms by auto
qed

primrec sds_run :: "(nat \<Rightarrow> byte) \<Rightarrow> sds_op list \<Rightarrow> sdshdr \<Rightarrow> sdshdr option" where
  "sds_run fill [] s = Some s"
| "sds_run fill (p # ps) s = do { s \<leftarrow> sds_exec fill p s; sds_run fill ps s }"

primrec sds_run_args_ok :: "sds_op list \<Rightarrow> byte list \<Rightarrow> bool" where
  "sds_run_args_ok [] t \<longleftrightarrow> True"
| "sds_run_args_ok (p # ps) t \<longleftrightarrow> sds_args_ok p t \<and> sds_run_args_ok ps (str_exec p t)"

text \<open>C24:
  Dynamic strings implement byte strings. Take any sequence of \<open>sdscatlen\<close>, \<open>sdscpylen\<close>,
  \<open>sdsgrowzero\<close>, \<open>sdsclear\<close>, \<open>sdsupdatelen\<close>, \<open>sdstrim\<close>, \<open>sdsrange\<close>, \<open>sdstolower\<close>, \<open>sdstoupper\<close>,
  \<open>sdsmapchars\<close>, \<open>sdsdup\<close>, \<open>sdsMakeRoomFor\<close> and \<open>sdsRemoveFreeSpace\<close> on a well-formed string, with
  lengths below 2 GB and whatever bytes fresh memory holds. No call accesses memory outside
  the block, the block stays terminated and as large as the header says, and the contents are
  those the operations have on lists of bytes.
\<close>

theorem sds_history_refines_bytes:
  assumes "sds_ok s" "sds_run_args_ok ps (sds_str s)"
  shows "\<exists>s'. sds_run fill ps s = Some s' \<and> sds_ok s' \<and> sds_str s' = fold str_exec ps (sds_str s)"
  using assms
proof (induction ps arbitrary: s)
  case (Cons p ps)
  then obtain s' where "sds_exec fill p s = Some s'" "sds_ok s'" "sds_str s' = str_exec p (sds_str s)"
    using sds_exec_ok [of s p fill] by auto
  then show ?case
    using Cons.IH [of s'] Cons.prems(2) by simp
qed simp

theorem sds_history_refines_bytes_witness:
  "\<exists>s'. sds_run (\<lambda>_. 7) [OpCatLen [32, 97, 98, 32], OpTrim [32], OpToUpper, OpRange 1 (-1)] \<lparr>sds_len = 0, sds_free = 0, sds_buf = [0]\<rparr> = Some s' \<and>
     sds_str s' = [66]"
  using sds_history_refines_bytes [of "\<lparr>sds_len = 0, sds_free = 0, sds_buf = [0]\<rparr>"
      "[OpCatLen [32, 97, 98, 32], OpTrim [32], OpToUpper, OpRange 1 (-1)]" "\<lambda>_. 7"]
  by (auto simp: sds_ok_def sds_str_def trim_str_def trimmed_def c_toupper_def range_str_def range_index_def)

text \<open>C26:
  \<open>sdsIncrLen\<close>, which accounts for bytes that a caller wrote into the free space: its assertions
  fail exactly when the increment exceeds the free space or the decrement the length, and
  otherwise the string becomes the first bytes of the block, terminated, and stays well-formed.
\<close>

theorem sdsIncrLen_checked:
  assumes "sds_ok s"
  shows "(sdsIncrLen s incr = None \<longleftrightarrow> int (sdsavail s) < incr \<or> int (sdslen s) < - incr) \<and>
    (\<forall>s'. sdsIncrLen s incr = Some s' \<longrightarrow>
       sds_ok s' \<and> sds_str s' = take (nat (int (sdslen s) + incr)) (sds_buf s) \<and> sdsAllocSize s' = sdsAllocSize s)"
proof (intro conjI allI impI)
  show "sdsIncrLen s incr = None \<longleftrightarrow> int (sdsavail s) < incr \<or> int (sdslen s) < - incr"
    using sdsIncrLen_ok(1) [OF assms] by (simp add: sdsavail_def sdslen_def)
  fix s'
  assume s': "sdsIncrLen s incr = Some s'"
  note ok = sdsIncrLen_ok(2) [OF assms s']
  then show "sds_ok s'" "sds_str s' = take (nat (int (sdslen s) + incr)) (sds_buf s)"
    by (simp_all add: sdslen_def)
  have "length (sds_buf s') = length (sds_buf s)"
    using s' by (auto simp: sdsIncrLen_def Let_def store_def split: if_splits bind_splits)
  then show "sdsAllocSize s' = sdsAllocSize s"
    using ok assms by (simp add: sds_ok_def sdsAllocSize_def)
qed

theorem sdsIncrLen_checked_witness:
  "sdsIncrLen \<lparr>sds_len = 1, sds_free = 2, sds_buf = [97, 0, 98, 0]\<rparr> 3 = None \<and>
   (\<exists>s'. sdsIncrLen \<lparr>sds_len = 1, sds_free = 2, sds_buf = [97, 0, 98, 0]\<rparr> 2 = Some s' \<and> sds_str s' = [97, 0, 98])"
proof -
  define s where "s = \<lparr>sds_len = 1, sds_free = 2, sds_buf = [97, 0, 98, 0]\<rparr>"
  have s: "sds_ok s" "sdsavail s = 2" "sdslen s = 1" "take 3 (sds_buf s) = [97, 0, 98]"
    by (simp_all add: s_def sds_ok_def sdsavail_def sdslen_def)
  have "sdsIncrLen s 3 = None" "sdsIncrLen s 2 \<noteq> None"
    using sdsIncrLen_checked [OF s(1), of 3] sdsIncrLen_checked [OF s(1), of 2] s(2,3) by auto
  moreover have "sds_str s' = [97, 0, 98]" if "sdsIncrLen s 2 = Some s'" for s'
    using sdsIncrLen_checked [OF s(1), of 2] that s(3,4) by simp
  ultimately show ?thesis
    unfolding s_def by auto
qed

end
