(* ===== verification/Sds_Format.thy ===== *)
theory Sds_Format
  imports Sds
begin

text \<open>
  The printing and parsing half of \<^verbatim>\<open>redis-3.0.0/src/sds.c\<close>: integers to text, \<open>sdscatfmt\<close>, \<open>sdscatvprintf\<close>,
  the quoted representation \<open>sdscatrepr\<close> and the argument splitter \<open>sdssplitargs\<close>. A C string argument is
  the block it is stored in, terminator included, and reading behind the block is a fault
  (\<open>None\<close>). What \<open>vsnprintf\<close> would print is an argument.
\<close>

section \<open>Integers\<close>

definition SDS_LLSTR_SIZE :: nat where "SDS_LLSTR_SIZE = 21"

text \<open>The \<open>do ... while\<close> that writes the digits backwards, and the swapping loop.\<close>

function ll2str_digits :: "byte list \<Rightarrow> nat \<Rightarrow> nat \<Rightarrow> (byte list \<times> nat) option" where
  "ll2str_digits buf p v = do {
     buf \<leftarrow> store buf p (48 + of_nat (v mod 10));
     if v div 10 \<noteq> 0 then ll2str_digits buf (p + 1) (v div 10) else Some (buf, p + 1) }"
  by pat_completeness auto
termination
  by (relation "measure (\<lambda>(buf, p, v). v)") auto

function ll2str_reverse :: "byte list \<Rightarrow> nat \<Rightarrow> nat \<Rightarrow> byte list option" where
  "ll2str_reverse buf s p =
     (if s < p then do {
        a \<leftarrow> load buf s;
        b \<leftarrow> load buf p;
        buf \<leftarrow> store buf s b;
        buf \<leftarrow> store buf p a;
        ll2str_reverse buf (s + 1) (p - 1) }
      else Some buf)"
  by pat_completeness auto
termination
  by (relation "measure (\<lambda>(buf, s, p). p - s)") auto

declare ll2str_digits.simps [simp del] ll2str_reverse.simps [simp del]

definition sdsll2str :: "byte list \<Rightarrow> int \<Rightarrow> (byte list \<times> nat) option" where
  "sdsll2str buf val = do {
     let v = u64 (nat (if val < 0 then - val else val));
     (buf, p) \<leftarrow> ll2str_digits buf 0 v;
     (buf, p) \<leftarrow> (if val < 0 then do { buf \<leftarrow> store buf p 45; Some (buf, p + 1) } else Some (buf, p));
     buf \<leftarrow> store buf p 0;
     buf \<leftarrow> ll2str_reverse buf 0 (p - 1);
     Some (buf, p) }"

definition sdsull2str :: "byte list \<Rightarrow> nat \<Rightarrow> (byte list \<times> nat) option" where
  "sdsull2str buf v = do {
     (buf, p) \<leftarrow> ll2str_digits buf 0 v;
     buf \<leftarrow> store buf p 0;
     buf \<leftarrow> ll2str_reverse buf 0 (p - 1);
     Some (buf, p) }"

definition sdsfromlonglong :: "(nat \<Rightarrow> byte) \<Rightarrow> int \<Rightarrow> sdshdr option" where
  "sdsfromlonglong fill val = do {
     (buf, len) \<leftarrow> sdsll2str (map fill [0..<SDS_LLSTR_SIZE]) val;
     sdsnewlen fill (Some buf) len }"

section \<open>Formats\<close>

text \<open>
  \<open>vsnprintf\<close> into a buffer of \<open>buflen\<close> bytes, given the whole text \<open>out\<close>; the loop doubles the
  buffer until the last byte but one stays zero.
\<close>

definition vsnprintf_into :: "byte list \<Rightarrow> nat \<Rightarrow> byte list \<Rightarrow> byte list option" where
  "vsnprintf_into buf buflen out = store_n buf 0 (take (buflen - 1) out @ [0])"

lemma vsnprintf_nonzero:
  assumes "store buf (buflen - 2) 0 = Some b" "vsnprintf_into b buflen out = Some b'" "load b' (buflen - 2) = Some c" "c \<noteq> 0"
    "\<not> buflen < 2"
  shows "buflen - 2 < length out"
proof (rule ccontr)
  assume "\<not> buflen - 2 < length out"
  then have out: "take (buflen - 1) out = out" "length out \<le> buflen - 2"
    by auto
  have b: "b = buf[buflen - 2 := 0]" "buflen - 2 < length buf"
    using assms(1) by (auto simp: store_def split: if_splits)
  have b': "b' = splice_at b 0 (out @ [0])" "length out + 1 \<le> length b"
    using assms(2) out(1) by (auto simp: vsnprintf_into_def store_n_def split: if_splits)
  then have "b' ! (buflen - 2) = 0"
    using nth_splice_at [of 0 "out @ [0]" b "buflen - 2"] b out(2) by (auto simp: nth_append)
  then show False
    using assms(3,4) by (auto simp: load_def split: if_splits)
qed

function vprintf_loop :: "(nat \<Rightarrow> byte) \<Rightarrow> byte list \<Rightarrow> nat \<Rightarrow> byte list \<Rightarrow> byte list option" where
  "vprintf_loop fill buf buflen out =
     (if buflen < 2 then None
      else do {
        buf \<leftarrow> store buf (buflen - 2) 0;
        buf \<leftarrow> vsnprintf_into buf buflen out;
        c \<leftarrow> load buf (buflen - 2);
        if c \<noteq> 0 then vprintf_loop fill (map fill [0..<buflen * 2]) (buflen * 2) out else Some buf })"
  by pat_completeness auto
termination
  by (relation "measure (\<lambda>(fill, buf, buflen, out). length out + 2 - buflen)") (auto dest!: vsnprintf_nonzero)

declare vprintf_loop.simps [simp del]

text \<open>\<open>fmt\<close> only determines the size of the first buffer.\<close>

definition sdscatvprintf :: "(nat \<Rightarrow> byte) \<Rightarrow> sdshdr \<Rightarrow> byte list \<Rightarrow> byte list \<Rightarrow> sdshdr option" where
  "sdscatvprintf fill s fmt out = do {
     n \<leftarrow> c_strlen fmt;
     let buflen = (if n * 2 > 1024 then n * 2 else 1024);
     buf \<leftarrow> vprintf_loop fill (map fill [0..<buflen]) buflen out;
     sdscat fill s buf }"

definition sdscatprintf :: "(nat \<Rightarrow> byte) \<Rightarrow> sdshdr \<Rightarrow> byte list \<Rightarrow> byte list \<Rightarrow> sdshdr option" where
  "sdscatprintf fill s fmt out = sdscatvprintf fill s fmt out"

text \<open>
  The arguments of \<open>sdscatfmt\<close>; taking an argument that is missing or of another type is a fault.
\<close>

datatype fmt_arg = ArgStr "byte list" | ArgSds sdshdr | ArgInt int | ArgLongLong int | ArgUInt nat | ArgULongLong nat

definition fmt_str :: "(nat \<Rightarrow> byte) \<Rightarrow> byte \<Rightarrow> fmt_arg \<Rightarrow> byte list option" where
  "fmt_str fill nxt arg =
     (case arg of
        ArgStr t \<Rightarrow> if nxt = 115 then do { l \<leftarrow> c_strlen t; load_n t 0 l } else None
      | ArgSds t \<Rightarrow> if nxt = 83 then load_n (sds_buf t) 0 (sdslen t) else None
      | ArgInt num \<Rightarrow>
          if nxt = 105 then do { (buf, l) \<leftarrow> sdsll2str (map fill [0..<SDS_LLSTR_SIZE]) num; load_n buf 0 l } else None
      | ArgLongLong num \<Rightarrow>
          if nxt = 73 then do { (buf, l) \<leftarrow> sdsll2str (map fill [0..<SDS_LLSTR_SIZE]) num; load_n buf 0 l } else None
      | ArgUInt unum \<Rightarrow>
          if nxt = 117 then do { (buf, l) \<leftarrow> sdsull2str (map fill [0..<SDS_LLSTR_SIZE]) unum; load_n buf 0 l } else None
      | ArgULongLong unum \<Rightarrow>
          if nxt = 85 then do { (buf, l) \<leftarrow> sdsull2str (map fill [0..<SDS_LLSTR_SIZE]) unum; load_n buf 0 l } else None)"

text \<open>Copying the text of an argument behind position \<open>i\<close>, making room for it when needed.\<close>

definition fmt_put :: "(nat \<Rightarrow> byte) \<Rightarrow> sdshdr \<Rightarrow> nat \<Rightarrow> byte list \<Rightarrow> (sdshdr \<times> nat) option" where
  "fmt_put fill s i xs = do {
     let l = length xs;
     let s = (if sds_free s < l then sdsMakeRoomFor fill s l else s);
     buf \<leftarrow> store_n (sds_buf s) i xs;
     Some (s\<lparr>sds_len := u32 (sds_len s + l), sds_free := usub32 (sds_free s) (u32 l), sds_buf := buf\<rparr>, i + l) }"

definition fmt_char :: "sdshdr \<Rightarrow> nat \<Rightarrow> byte \<Rightarrow> (sdshdr \<times> nat) option" where
  "fmt_char s i c = do {
     buf \<leftarrow> store (sds_buf s) i c;
     Some (s\<lparr>sds_len := u32 (sds_len s + 1), sds_free := usub32 (sds_free s) 1, sds_buf := buf\<rparr>, i + 1) }"

definition fmt_directives :: "byte set" where
  "fmt_directives = {115, 83, 105, 73, 117, 85}"

text \<open>The inner \<open>switch\<close>, on the byte after a percent sign.\<close>

definition fmt_switch :: "(nat \<Rightarrow> byte) \<Rightarrow> sdshdr \<Rightarrow> nat \<Rightarrow> byte \<Rightarrow> fmt_arg list \<Rightarrow> (sdshdr \<times> nat \<times> fmt_arg list) option" where
  "fmt_switch fill s i nxt args =
     (if nxt \<in> fmt_directives then
        (case args of
           [] \<Rightarrow> None
         | arg # args \<Rightarrow> do {
             xs \<leftarrow> fmt_str fill nxt arg;
             (s, i) \<leftarrow> fmt_put fill s i xs;
             Some (s, i, args) })
      else do {
        (s, i) \<leftarrow> fmt_char s i nxt;
        Some (s, i, args) })"

fun catfmt_loop :: "(nat \<Rightarrow> byte) \<Rightarrow> sdshdr \<Rightarrow> nat \<Rightarrow> byte list \<Rightarrow> fmt_arg list \<Rightarrow> (sdshdr \<times> nat) option" where
  "catfmt_loop fill s i [] args = None"
| "catfmt_loop fill s i (c # f) args =
     (if c = 0 then Some (s, i)
      else do {
        let s = (if sds_free s = 0 then sdsMakeRoomFor fill s 1 else s);
        if c = 37 then
          (case f of
             [] \<Rightarrow> None
           | nxt # f \<Rightarrow> do {
               (s, i, args) \<leftarrow> fmt_switch fill s i nxt args;
               catfmt_loop fill s i f args })
        else do {
          (s, i) \<leftarrow> fmt_char s i c;
          catfmt_loop fill s i f args } })"

definition sdscatfmt :: "(nat \<Rightarrow> byte) \<Rightarrow> sdshdr \<Rightarrow> byte list \<Rightarrow> fmt_arg list \<Rightarrow> sdshdr option" where
  "sdscatfmt fill s fmt args = do {
     (s, i) \<leftarrow> catfmt_loop fill s (sdslen s) fmt args;
     buf \<leftarrow> store (sds_buf s) i 0;
     Some (s\<lparr>sds_buf := buf\<rparr>) }"

section \<open>Quoting and splitting\<close>

definition c_isprint :: "byte \<Rightarrow> bool" where
  "c_isprint c \<longleftrightarrow> 32 \<le> c \<and> c \<le> 126"

definition hex_char :: "nat \<Rightarrow> byte" where
  "hex_char d = (if d < 10 then 48 + of_nat d else 87 + of_nat d)"

text \<open>The text of one character, as the \<open>switch\<close> of \<open>sdscatrepr\<close> appends it.\<close>

definition repr_char :: "(nat \<Rightarrow> byte) \<Rightarrow> sdshdr \<Rightarrow> byte \<Rightarrow> sdshdr option" where
  "repr_char fill s c =
     (if c = 92 \<or> c = 34 then sdscatprintf fill s [92, 37, 99, 0] [92, c]
      else if c = 10 then sdscatlen fill s [92, 110] 2
      else if c = 13 then sdscatlen fill s [92, 114] 2
      else if c = 9 then sdscatlen fill s [92, 116] 2
      else if c = 7 then sdscatlen fill s [92, 97] 2
      else if c = 8 then sdscatlen fill s [92, 98] 2
      else if c_isprint c then sdscatprintf fill s [37, 99, 0] [c]
      else sdscatprintf fill s [92, 120, 37, 48, 50, 120, 0] [92, 120, hex_char (unat c div 16), hex_char (unat c mod 16)])"

fun repr_loop :: "(nat \<Rightarrow> byte) \<Rightarrow> sdshdr \<Rightarrow> byte list \<Rightarrow> nat \<Rightarrow> sdshdr option" where
  "repr_loop fill s p 0 = Some s"
| "repr_loop fill s p (Suc len) = do {
     c \<leftarrow> load p 0;
     s \<leftarrow> repr_char fill s c;
     repr_loop fill s (tl p) len }"

definition sdscatrepr :: "(nat \<Rightarrow> byte) \<Rightarrow> sdshdr \<Rightarrow> byte list \<Rightarrow> nat \<Rightarrow> sdshdr option" where
  "sdscatrepr fill s p len = do {
     s \<leftarrow> sdscatlen fill s [34] 1;
     s \<leftarrow> repr_loop fill s p len;
     sdscatlen fill s [34] 1 }"

definition is_hex_digit :: "byte \<Rightarrow> bool" where
  "is_hex_digit c \<longleftrightarrow> 48 \<le> c \<and> c \<le> 57 \<or> 97 \<le> c \<and> c \<le> 102 \<or> 65 \<le> c \<and> c \<le> 70"

definition hex_digit_to_int :: "byte \<Rightarrow> nat" where
  "hex_digit_to_int c =
     (if c = 48 then 0 else if c = 49 then 1 else if c = 50 then 2 else if c = 51 then 3 else if c = 52 then 4
      else if c = 53 then 5 else if c = 54 then 6 else if c = 55 then 7 else if c = 56 then 8 else if c = 57 then 9
      else if c = 97 \<or> c = 65 then 10 else if c = 98 \<or> c = 66 then 11 else if c = 99 \<or> c = 67 then 12
      else if c = 100 \<or> c = 68 then 13 else if c = 101 \<or> c = 69 then 14 else if c = 102 \<or> c = 70 then 15 else 0)"

text \<open>
  \<open>p\<close> is the rest of the line. \<open>hex_escape\<close> is the condition of the first branch inside double
  quotes, with the short-circuit evaluation of \<open>&&\<close>.
\<close>

definition hex_escape :: "byte list \<Rightarrow> bool option" where
  "hex_escape p = do {
     c0 \<leftarrow> load p 0;
     if c0 \<noteq> 92 then Some False
     else do {
       c1 \<leftarrow> load p 1;
       if c1 \<noteq> 120 then Some False
       else do {
         c2 \<leftarrow> load p 2;
         if \<not> is_hex_digit c2 then Some False
         else do { c3 \<leftarrow> load p 3; Some (is_hex_digit c3) } } } }"

text \<open>\<open>*p == a && *(p+1) == b\<close> for a given test of the second byte.\<close>

definition pair_test :: "byte list \<Rightarrow> byte \<Rightarrow> (byte \<Rightarrow> bool) \<Rightarrow> bool option" where
  "pair_test p a test = do {
     c0 \<leftarrow> load p 0;
     if c0 \<noteq> a then Some False else do { c1 \<leftarrow> load p 1; Some (test c1) } }"

definition unescape :: "byte \<Rightarrow> byte" where
  "unescape c = (if c = 110 then 10 else if c = 114 then 13 else if c = 116 then 9 else if c = 98 then 8 else if c = 97 then 7 else c)"

datatype quoting = Plain | Double | Single

text \<open>
  One turn of the token loop. \<open>Stop\<close> carries the position after the token, \<open>Step\<close> the state for
  the next turn, \<open>Bad\<close> is the jump to \<open>err\<close>.
\<close>

datatype split_step = Stop "byte list" sdshdr | Step "byte list" quoting sdshdr | Bad

text \<open>The end of a turn: \<open>if (*p) p++\<close>.\<close>

definition advance :: "byte list \<Rightarrow> byte list option" where
  "advance p = do { c \<leftarrow> load p 0; Some (if c \<noteq> 0 then tl p else p) }"

text \<open>A closing quote must be followed by a space or by nothing.\<close>

definition close_quote :: "byte list \<Rightarrow> sdshdr \<Rightarrow> split_step option" where
  "close_quote p current = do {
     c1 \<leftarrow> load p 1;
     if c1 \<noteq> 0 \<and> \<not> c_isspace c1 then Some Bad
     else do { p \<leftarrow> advance p; Some (Stop p current) } }"

definition split_double :: "(nat \<Rightarrow> byte) \<Rightarrow> byte list \<Rightarrow> sdshdr \<Rightarrow> split_step option" where
  "split_double fill p current = do {
     hex \<leftarrow> hex_escape p;
     if hex then do {
       c2 \<leftarrow> load p 2;
       c3 \<leftarrow> load p 3;
       current \<leftarrow> sdscatlen fill current [of_nat (hex_digit_to_int c2 * 16 + hex_digit_to_int c3)] 1;
       p \<leftarrow> advance (drop 3 p);
       Some (Step p Double current) }
     else do {
       esc \<leftarrow> pair_test p 92 (\<lambda>c. c \<noteq> 0);
       if esc then do {
         c \<leftarrow> load p 1;
         current \<leftarrow> sdscatlen fill current [unescape c] 1;
         p \<leftarrow> advance (tl p);
         Some (Step p Double current) }
       else do {
         c \<leftarrow> load p 0;
         if c = 34 then close_quote p current
         else if c = 0 then Some Bad
         else do {
           current \<leftarrow> sdscatlen fill current p 1;
           p \<leftarrow> advance p;
           Some (Step p Double current) } } } }"

definition split_single :: "(nat \<Rightarrow> byte) \<Rightarrow> byte list \<Rightarrow> sdshdr \<Rightarrow> split_step option" where
  "split_single fill p current = do {
     esc \<leftarrow> pair_test p 92 (\<lambda>c. c = 39);
     if esc then do {
       current \<leftarrow> sdscatlen fill current [39] 1;
       p \<leftarrow> advance (tl p);
       Some (Step p Single current) }
     else do {
       c \<leftarrow> load p 0;
       if c = 39 then close_quote p current
       else if c = 0 then Some Bad
       else do {
         current \<leftarrow> sdscatlen fill current p 1;
         p \<leftarrow> advance p;
         Some (Step p Single current) } } }"

definition split_plain :: "(nat \<Rightarrow> byte) \<Rightarrow> byte list \<Rightarrow> sdshdr \<Rightarrow> split_step option" where
  "split_plain fill p current = do {
     c \<leftarrow> load p 0;
     p' \<leftarrow> advance p;
     if c \<in> {32, 10, 13, 9, 0} then Some (Stop p' current)
     else if c = 34 then Some (Step p' Double current)
     else if c = 39 then Some (Step p' Single current)
     else do {
       current \<leftarrow> sdscatlen fill current p 1;
       Some (Step p' Plain current) } }"

definition split_turn :: "(nat \<Rightarrow> byte) \<Rightarrow> byte list \<Rightarrow> quoting \<Rightarrow> sdshdr \<Rightarrow> split_step option" where
  "split_turn fill p q current =
     (case q of Double \<Rightarrow> split_double fill p current | Single \<Rightarrow> split_single fill p current | Plain \<Rightarrow> split_plain fill p current)"

text \<open>A turn that goes on has moved forward.\<close>

lemma advance_length: "advance p = Some p' \<Longrightarrow> length p' \<le> length p"
  by (auto simp: advance_def load_def split: if_splits)

lemma advance_nonzero: "advance p = Some p' \<Longrightarrow> load p 0 = Some c \<Longrightarrow> c \<noteq> 0 \<Longrightarrow> length p' < length p"
  by (auto simp: advance_def load_def split: if_splits)

lemma is_hex_digit_nonzero: "is_hex_digit c \<Longrightarrow> c \<noteq> 0"
  by (auto simp: is_hex_digit_def)

lemma split_turn_Step:
  assumes "split_turn fill p q current = Some (Step p' q' current')"
  shows "length p' < length p"
proof (cases q)
  case Plain
  then show ?thesis
    using assms by (auto simp: split_turn_def split_plain_def Option.bind_eq_Some_conv split: if_splits dest: advance_nonzero)
next
  case Single
  then show ?thesis
    using assms advance_length [of "tl p" p']
    by (auto simp: split_turn_def split_single_def pair_test_def close_quote_def load_def Option.bind_eq_Some_conv
        split: if_splits dest!: advance_nonzero)
next
  case Double
  then have "split_double fill p current = Some (Step p' q' current')"
    using assms by (simp add: split_turn_def)
  then consider "hex_escape p = Some True" "advance (drop 3 p) = Some p'" | "pair_test p 92 (\<lambda>c. c \<noteq> 0) = Some True" "advance (tl p) = Some p'"
    | c where "load p 0 = Some c" "c \<noteq> 0" "advance p = Some p'"
    by (auto simp: split_double_def close_quote_def Option.bind_eq_Some_conv split: if_splits)
  then show ?thesis
  proof cases
    case 1
    then have "3 < length p"
      by (auto simp: hex_escape_def load_def split: bind_splits if_splits)
    then show ?thesis
      using advance_length [OF 1(2)] by simp
  next
    case 2
    then have "p \<noteq> []"
      by (auto simp: pair_test_def load_def split: bind_splits if_splits)
    then show ?thesis
      using advance_length [OF 2(2)] by (cases p) auto
  next
    case 3
    then show ?thesis
      using advance_nonzero by blast
  qed
qed

text \<open>The token loop; \<open>Some None\<close> is the jump to \<open>err\<close>.\<close>

function token_loop :: "(nat \<Rightarrow> byte) \<Rightarrow> byte list \<Rightarrow> quoting \<Rightarrow> sdshdr \<Rightarrow> (byte list \<times> sdshdr) option option" where
  "token_loop fill p q current = do {
     st \<leftarrow> split_turn fill p q current;
     case st of
       Stop p current \<Rightarrow> Some (Some (p, current))
     | Step p q current \<Rightarrow> token_loop fill p q current
     | Bad \<Rightarrow> Some None }"
  by pat_completeness auto
termination
  by (relation "measure (\<lambda>(fill, p, q, current). length p)") (auto dest: split_turn_Step)

declare token_loop.simps [simp del]

fun skip_blanks :: "byte list \<Rightarrow> byte list option" where
  "skip_blanks [] = None"
| "skip_blanks (c # p) = (if c \<noteq> 0 \<and> c_isspace c then skip_blanks p else Some (c # p))"

lemma skip_blanks_length: "skip_blanks p = Some p' \<Longrightarrow> length p' \<le> length p"
  by (induction p rule: skip_blanks.induct) (auto split: if_splits)

lemma close_quote_Stop: "close_quote p current = Some (Stop p' current') \<Longrightarrow> advance p = Some p'"
  by (auto simp: close_quote_def split: bind_splits if_splits)

lemma close_quote_not_Step: "close_quote p current \<noteq> Some (Step p' q' current')"
  by (auto simp: close_quote_def split: bind_splits if_splits)

lemma split_turn_Stop:
  assumes "split_turn fill p q current = Some (Stop p' current')"
  shows "advance p = Some p'"
proof (cases q)
  case Plain
  then show ?thesis
    using assms by (auto simp: split_turn_def split_plain_def Option.bind_eq_Some_conv split: if_splits)
next
  case Single
  then show ?thesis
    using assms by (auto simp: split_turn_def split_single_def Option.bind_eq_Some_conv split: if_splits dest: close_quote_Stop)
next
  case Double
  then show ?thesis
    using assms by (auto simp: split_turn_def split_double_def Option.bind_eq_Some_conv split: if_splits dest: close_quote_Stop)
qed

lemma token_loop_length:
  assumes "token_loop fill p q current = Some (Some (p', current'))"
  shows "length p' \<le> length p" "load p 0 = Some c \<Longrightarrow> c \<noteq> 0 \<Longrightarrow> length p' < length p"
proof -
  have "length p' \<le> length p \<and> (load p 0 = Some c \<longrightarrow> c \<noteq> 0 \<longrightarrow> length p' < length p)"
    using assms
  proof (induction fill p q current rule: token_loop.induct)
    case (1 fill p q current)
    obtain st where st: "split_turn fill p q current = Some st"
      using "1.prems" by (subst (asm) token_loop.simps) (auto split: bind_splits)
    show ?case
    proof (cases st)
      case (Stop p1 c1)
      then have "p1 = p'"
        using "1.prems" st by (subst (asm) token_loop.simps) simp
      then show ?thesis
        using split_turn_Stop [of fill p q current p1 c1] st Stop advance_length [of p p'] advance_nonzero [of p p' c] by blast
    next
      case (Step p1 q1 c1)
      then have "token_loop fill p1 q1 c1 = Some (Some (p', current'))"
        using "1.prems" st by (subst (asm) token_loop.simps) simp
      then have "length p' \<le> length p1"
        using "1.IH" [OF st Step] by blast
      then show ?thesis
        using split_turn_Step [of fill p q current p1 q1 c1] st Step by simp
    next
      case Bad
      then show ?thesis
        using "1.prems" st by (subst (asm) token_loop.simps) simp
    qed
  qed
  then show "length p' \<le> length p" "load p 0 = Some c \<Longrightarrow> c \<noteq> 0 \<Longrightarrow> length p' < length p"
    by blast+
qed

function args_loop :: "(nat \<Rightarrow> byte) \<Rightarrow> byte list \<Rightarrow> sdshdr list \<Rightarrow> sdshdr list option option" where
  "args_loop fill p vector = do {
     p \<leftarrow> skip_blanks p;
     c \<leftarrow> load p 0;
     if c \<noteq> 0 then do {
       current \<leftarrow> sdsempty fill;
       tok \<leftarrow> token_loop fill p Plain current;
       case tok of
         None \<Rightarrow> Some None
       | Some (p, current) \<Rightarrow> args_loop fill p (vector @ [current]) }
     else Some (Some vector) }"
  by pat_completeness auto
termination
  by (relation "measure (\<lambda>(fill, p, vector). length p)")
    (auto dest!: skip_blanks_length token_loop_length(2) intro: less_le_trans)

declare args_loop.simps [simp del]

text \<open>\<open>Some None\<close> is the result \<open>NULL\<close>.\<close>

definition sdssplitargs :: "(nat \<Rightarrow> byte) \<Rightarrow> byte list \<Rightarrow> sdshdr list option option" where
  "sdssplitargs fill line = args_loop fill line []"

section \<open>Printing integers\<close>

lemma ll2str_digits_ok:
  assumes "p + length (dec v) \<le> length buf"
  shows "ll2str_digits buf p v = Some (splice_at buf p (rev (dec v)), p + length (dec v))"
  using assms
proof (induction v arbitrary: p buf rule: less_induct)
  case (less v)
  let ?b = "buf[p := 48 + of_nat (v mod 10)]"
  show ?case
  proof (cases "v < 10")
    case True
    then have "splice_at buf p (rev (dec v)) = ?b" "length (dec v) = 1"
      using less.prems by (simp_all add: dec_small splice_at_def upd_conv_take_nth_drop)
    then show ?thesis
      using less.prems True by (subst ll2str_digits.simps) (simp add: mem_simps)
  next
    case False
    then have d: "dec v = dec (v div 10) @ [48 + of_nat (v mod 10)]"
      by (simp add: dec_step)
    then have "ll2str_digits ?b (p + 1) (v div 10) = Some (splice_at ?b (p + 1) (rev (dec (v div 10))), p + 1 + length (dec (v div 10)))"
      using less.prems False by (intro less.IH) auto
    moreover have "splice_at ?b (p + 1) (rev (dec (v div 10))) = splice_at buf p (rev (dec v))"
      using less.prems d by (simp add: splice_at_def take_Suc_conv_app_nth)
    ultimately show ?thesis
      using less.prems False d by (subst ll2str_digits.simps) (simp add: mem_simps)
  qed
qed

lemma ll2str_reverse_ok:
  assumes "p < length buf" "s \<le> p + 1"
  shows "ll2str_reverse buf s p = Some (splice_at buf s (rev (slice buf s (p + 1 - s))))"
  using assms
proof (induction "p - s" arbitrary: s p buf rule: less_induct)
  case less
  show ?case
  proof (cases "s < p")
    case True
    define n where "n = p - s - 1"
    define m where "m = slice buf (s + 1) n"
    have p: "p = s + n + 1"
      using True by (simp add: n_def)
    have lm: "length m = n"
      using less.prems(1) p by (simp add: m_def slice_def)
    define a where "a = buf ! s"
    define b where "b = buf ! p"
    have buf: "buf = take s buf @ a # m @ b # drop (p + 1) buf"
    proof -
      have "drop s buf = a # drop (s + 1) buf"
        using less.prems(1) p by (simp add: a_def Cons_nth_drop_Suc)
      moreover have "drop (s + 1) buf = m @ drop (s + 1 + n) buf"
        by (simp add: m_def slice_def) (metis append_take_drop_id drop_drop add.commute plus_1_eq_Suc)
      moreover have "drop (s + 1 + n) buf = b # drop (p + 1) buf"
        using less.prems(1) p by (simp add: b_def Cons_nth_drop_Suc)
      ultimately show ?thesis
        by (metis append_take_drop_id)
    qed
    define t where "t = take s buf"
    define d where "d = drop (p + 1) buf"
    have lt: "length t = s"
      using less.prems(1) p by (simp add: t_def)
    have bufe: "buf = t @ a # m @ b # d"
      using buf by (simp add: t_def d_def)
    let ?c = "buf[s := b, p := a]"
    have c: "?c = t @ b # m @ a # d"
      unfolding bufe using lt lm p by (simp add: list_update_append)
    have "ll2str_reverse ?c (s + 1) (p - 1) = Some (splice_at ?c (s + 1) (rev (slice ?c (s + 1) (p - 1 + 1 - (s + 1)))))"
      using True less.prems by (intro less.hyps) auto
    moreover have "slice ?c (s + 1) (p - 1 + 1 - (s + 1)) = m"
      unfolding c using lt lm p by (simp add: slice_def)
    moreover have "splice_at ?c (s + 1) (rev m) = t @ b # rev m @ a # d"
      unfolding c using lt lm p by (simp add: splice_at_def)
    moreover have "splice_at buf s (rev (slice buf s (p + 1 - s))) = t @ b # rev m @ a # d"
    proof -
      have "slice buf s (p + 1 - s) = a # m @ [b]"
        unfolding bufe using lt lm p by (simp add: slice_def)
      then show ?thesis
        using lt lm p by (simp add: splice_at_def) (simp add: bufe)
    qed
    ultimately show ?thesis
      using True less.prems a_def b_def by (subst ll2str_reverse.simps) (simp add: mem_simps)
  next
    case False
    have "splice_at buf s (rev (slice buf s (p + 1 - s))) = buf"
    proof (cases "s = p")
      case True
      then have "slice buf s (p + 1 - s) = [buf ! s]"
        using slice_Cons [of s buf 1] less.prems(1) by (simp add: slice_def)
      then show ?thesis
        using True less.prems(1) by (simp add: splice_at_def id_take_nth_drop [symmetric])
    qed (use False less.prems in \<open>simp add: splice_at_def slice_def\<close>)
    then show ?thesis
      using False by (subst ll2str_reverse.simps) simp
  qed
qed

lemma ll2str_finish:
  assumes "splice_at buf 0 (rev t) = b" "length t < length buf" "t \<noteq> []"
  shows "\<exists>b'. do { b \<leftarrow> store b (length t) 0; b \<leftarrow> ll2str_reverse b 0 (length t - 1); Some (b, length t) } = Some (b', length t) \<and>
    take (length t) b' = t \<and> b' ! length t = 0 \<and> length b' = length buf"
proof -
  have b: "length b = length buf" "take (length t) b = rev t"
    using assms(1,2) by (auto simp: splice_at_def)
  let ?c = "b[length t := 0]"
  have "ll2str_reverse ?c 0 (length t - 1) = Some (splice_at ?c 0 (rev (slice ?c 0 (length t - 1 + 1 - 0))))"
    using b(1) assms(2) by (intro ll2str_reverse_ok) auto
  moreover have "slice ?c 0 (length t - 1 + 1 - 0) = rev t"
    using b assms(3) by (simp add: slice_def)
  moreover have "splice_at ?c 0 t ! length t = 0" "take (length t) (splice_at ?c 0 t) = t" "length (splice_at ?c 0 t) = length buf"
    using b assms(2) by (simp_all add: splice_at_def nth_append)
  ultimately show ?thesis
    using b(1) assms(2) by (simp add: mem_simps)
qed

lemma sdsull2str_ok:
  assumes "v < 2 ^ 64" "length buf = SDS_LLSTR_SIZE"
  shows "\<exists>b. sdsull2str buf v = Some (b, length (dec v)) \<and> take (length (dec v)) b = dec v \<and> b ! length (dec v) = 0 \<and>
    length b = SDS_LLSTR_SIZE \<and> length (dec v) < SDS_LLSTR_SIZE"
proof -
  have "v < 10 ^ 20"
    using assms(1) by simp
  then have l: "length (dec v) \<le> 20"
    using length_dec_le [of 20 v] by simp
  have d: "ll2str_digits buf 0 v = Some (splice_at buf 0 (rev (dec v)), length (dec v))"
    using ll2str_digits_ok [of 0 v buf] l assms(2) by (simp add: SDS_LLSTR_SIZE_def)
  show ?thesis
    using ll2str_finish [OF refl, of "dec v" buf] l assms(2) by (simp add: sdsull2str_def d SDS_LLSTR_SIZE_def)
qed

lemma sdsll2str_ok:
  assumes "in_signed 64 val" "length buf = SDS_LLSTR_SIZE"
  shows "\<exists>b. sdsll2str buf val = Some (b, length (ll_repr val)) \<and> take (length (ll_repr val)) b = ll_repr val \<and>
    b ! length (ll_repr val) = 0 \<and> length b = SDS_LLSTR_SIZE \<and> length (ll_repr val) < SDS_LLSTR_SIZE"
proof -
  define v where "v = nat (if val < 0 then - val else val)"
  have v: "u64 v = v" "v < 10 ^ 19"
    using assms(1) by (auto simp: v_def intro!: u64_id)
  then have l: "length (dec v) \<le> 19"
    using length_dec_le [of 19 v] by simp
  have d: "ll2str_digits buf 0 v = Some (splice_at buf 0 (rev (dec v)), length (dec v))"
    using ll2str_digits_ok [of 0 v buf] l assms(2) by (simp add: SDS_LLSTR_SIZE_def)
  show ?thesis
  proof (cases "val < 0")
    case True
    then have r: "ll_repr val = 45 # dec v"
      by (simp add: ll_repr_def v_def)
    have sp: "(splice_at buf 0 (rev (dec v)))[length (dec v) := 45] = splice_at buf 0 (rev (45 # dec v))"
      using l assms(2) by (simp add: splice_at_def list_update_append SDS_LLSTR_SIZE_def upd_conv_take_nth_drop drop_Suc [symmetric])
    have st: "store (splice_at buf 0 (rev (dec v))) (length (dec v)) 45 = Some (splice_at buf 0 (rev (45 # dec v)))"
      using l assms(2) by (simp add: mem_simps sp SDS_LLSTR_SIZE_def)
    have "sdsll2str buf val = do { b \<leftarrow> store (splice_at buf 0 (rev (45 # dec v))) (length (45 # dec v)) 0;
        b \<leftarrow> ll2str_reverse b 0 (length (45 # dec v) - 1); Some (b, length (45 # dec v)) }"
      unfolding sdsll2str_def v_def [symmetric] Let_def v(1) d using True by (simp add: st)
    then show ?thesis
      using ll2str_finish [OF refl, of "45 # dec v" buf] l assms(2) r by (simp add: SDS_LLSTR_SIZE_def)
  next
    case False
    then have r: "ll_repr val = dec v"
      by (simp add: ll_repr_def v_def)
    have "sdsll2str buf val = do { b \<leftarrow> store (splice_at buf 0 (rev (dec v))) (length (dec v)) 0;
        b \<leftarrow> ll2str_reverse b 0 (length (dec v) - 1); Some (b, length (dec v)) }"
      unfolding sdsll2str_def v_def [symmetric] Let_def v(1) d using False by simp
    then show ?thesis
      using ll2str_finish [OF refl, of "dec v" buf] l assms(2) r by (simp add: SDS_LLSTR_SIZE_def)
  qed
qed

text \<open>C31:
  The integer printer of the string library agrees with the one of \<^verbatim>\<open>util.c\<close>: for every 64-bit value both
  produce the shortest decimal representation, with a zero byte behind it, inside a buffer of
  \<open>SDS_LLSTR_SIZE\<close> bytes, which \<open>sdsfromlonglong\<close> turns into a string; the parser of \<^verbatim>\<open>util.c\<close> reads
  the value back.
\<close>

theorem sdsll2str_agrees_ll2string:
  assumes "in_signed 64 val" "length buf = SDS_LLSTR_SIZE" "length dst = 21"
  shows "\<exists>b len d s. sdsll2str buf val = Some (b, len) \<and> len < SDS_LLSTR_SIZE \<and> b ! len = 0 \<and>
    ll2string dst 21 val = Some (d, len) \<and> take len d = take len b \<and>
    sdsfromlonglong fill val = Some s \<and> sds_ok s \<and> sds_str s = take len b \<and> string2ll (sds_str s) = Some val"
proof -
  let ?n = "length (ll_repr val)"
  obtain b where b: "sdsll2str buf val = Some (b, ?n)" "take ?n b = ll_repr val" "b ! ?n = 0" "length b = SDS_LLSTR_SIZE"
    "?n < SDS_LLSTR_SIZE"
    using sdsll2str_ok [OF assms(1,2)] by blast
  have u: "ll2string dst 21 val = Some (splice_at dst 0 (ll_repr val @ [0]), ?n)"
    using ll2string_repr [OF assms(1), of 21 dst] assms(3) b(5) by (simp add: SDS_LLSTR_SIZE_def)
  obtain c where c: "sdsll2str (map fill [0..<SDS_LLSTR_SIZE]) val = Some (c, ?n)" "take ?n c = ll_repr val" "length c = SDS_LLSTR_SIZE"
    using sdsll2str_ok [OF assms(1), of "map fill [0..<SDS_LLSTR_SIZE]"] by auto
  obtain s where "sdsnewlen fill (Some c) ?n = Some s" "sds_ok s" "sds_str s = take ?n c"
    using sdsnewlen_ok [of ?n c fill] c(3) b(5) by (auto simp: SDS_LLSTR_SIZE_def)
  then have "sdsfromlonglong fill val = Some s" "sds_ok s" "sds_str s = ll_repr val"
    using c by (simp_all add: sdsfromlonglong_def)
  then show ?thesis
    using b u string2ll_ll_repr [OF assms(1)] by (simp add: splice_at_def)
qed

theorem sdsll2str_agrees_ll2string_witness:
  "\<exists>b len s. sdsll2str (replicate 21 0) (- (2 ^ 63)) = Some (b, len) \<and> len < SDS_LLSTR_SIZE \<and>
    sdsfromlonglong (\<lambda>_. 0) (- (2 ^ 63)) = Some s \<and> string2ll (sds_str s) = Some (- (2 ^ 63))"
  using sdsll2str_agrees_ll2string [of "- (2 ^ 63)" "replicate 21 0" "replicate 21 0" "\<lambda>_. 0"]
  by (auto simp: SDS_LLSTR_SIZE_def)

section \<open>Formats\<close>

text \<open>While a format is printed the string has no terminator, but the block is what the header says.\<close>

definition sds_block :: "sdshdr \<Rightarrow> bool" where
  "sds_block s \<longleftrightarrow> length (sds_buf s) = sds_len s + sds_free s + 1 \<and> sds_len s + sds_free s < 2 ^ 32"

lemma sdsMakeRoomFor_block:
  assumes "sds_block s" "sds_len s + n < 2 ^ 31"
  shows "sds_block (sdsMakeRoomFor fill s n) \<and> sds_str (sdsMakeRoomFor fill s n) = sds_str s \<and>
    n \<le> sds_free (sdsMakeRoomFor fill s n) \<and> sds_len (sdsMakeRoomFor fill s n) = sds_len s"
proof -
  let ?z = "s\<lparr>sds_buf := (sds_buf s)[sds_len s := 0]\<rparr>"
  have ok: "sds_ok ?z"
    using assms(1) by (simp add: sds_block_def sds_ok_def)
  note R = sdsMakeRoomFor_ok [OF ok, of n fill]
  have r: "sds_ok (sdsMakeRoomFor fill ?z n)" "n \<le> sds_free (sdsMakeRoomFor fill ?z n)" "sds_len (sdsMakeRoomFor fill ?z n) = sds_len s"
    using R assms(2) by simp_all
  have f: "sds_len (sdsMakeRoomFor fill ?z n) = sds_len (sdsMakeRoomFor fill s n)"
    "sds_free (sdsMakeRoomFor fill ?z n) = sds_free (sdsMakeRoomFor fill s n)"
    "length (sds_buf (sdsMakeRoomFor fill ?z n)) = length (sds_buf (sdsMakeRoomFor fill s n))"
    by (auto simp: sdsMakeRoomFor_def sdslen_def sdsavail_def Let_def)
  have "sds_str (sdsMakeRoomFor fill s n) = sds_str s"
    using assms(1) by (auto simp: sdsMakeRoomFor_def sdslen_def sdsavail_def sds_str_def sds_block_def Let_def take_zrealloc SDS_MAX_PREALLOC_def)
  then show ?thesis
    using r f by (auto simp: sds_block_def sds_ok_def)
qed

lemma fmt_put_ok:
  assumes "sds_block s" "sds_len s + length xs < 2 ^ 31"
  shows "\<exists>s'. fmt_put fill s (sds_len s) xs = Some (s', sds_len s + length xs) \<and> sds_block s' \<and>
    sds_len s' = sds_len s + length xs \<and> sds_str s' = sds_str s @ xs"
proof -
  define r where "r = (if sds_free s < length xs then sdsMakeRoomFor fill s (length xs) else s)"
  have r: "sds_block r" "sds_str r = sds_str s" "length xs \<le> sds_free r" "sds_len r = sds_len s"
    using sdsMakeRoomFor_block [OF assms, of fill] assms(1) by (auto simp: r_def)
  have b: "length (sds_buf r) = sds_len s + sds_free r + 1" "sds_len s + sds_free r < 2 ^ 32"
    using r by (auto simp: sds_block_def)
  have "fmt_put fill s (sds_len s) xs = Some (r\<lparr>sds_len := sds_len s + length xs, sds_free := sds_free r - length xs,
      sds_buf := splice_at (sds_buf r) (sds_len s) xs\<rparr>, sds_len s + length xs)"
    unfolding fmt_put_def Let_def r_def [symmetric] using b r assms(2)
    by (simp add: mem_simps u32_small usub32_id)
  moreover have "take (sds_len s + length xs) (splice_at (sds_buf r) (sds_len s) xs) = sds_str s @ xs"
    using take_splice_at [of "sds_len s" xs "sds_buf r"] b r by (simp add: sds_str_def)
  ultimately show ?thesis
    using b r by (auto simp: sds_block_def sds_str_def)
qed

lemma fmt_char_ok:
  assumes "sds_block s" "0 < sds_free s"
  shows "\<exists>s'. fmt_char s (sds_len s) c = Some (s', sds_len s + 1) \<and> sds_block s' \<and>
    sds_len s' = sds_len s + 1 \<and> sds_str s' = sds_str s @ [c]"
proof -
  have b: "length (sds_buf s) = sds_len s + sds_free s + 1" "sds_len s + sds_free s < 2 ^ 32"
    using assms(1) by (auto simp: sds_block_def)
  then show ?thesis
    using assms(2)
    by (simp add: fmt_char_def mem_simps u32_small usub32_id sds_block_def sds_str_def take_Suc_conv_app_nth)
qed

text \<open>What a format means.\<close>

definition arg_text :: "byte \<Rightarrow> fmt_arg \<Rightarrow> byte list option" where
  "arg_text nxt arg =
     (case arg of
        ArgStr t \<Rightarrow> if nxt = 115 \<and> 0 \<in> set t then Some (takeWhile (\<lambda>c. c \<noteq> 0) t) else None
      | ArgSds t \<Rightarrow> if nxt = 83 \<and> sds_ok t then Some (sds_str t) else None
      | ArgInt num \<Rightarrow> if nxt = 105 \<and> in_signed 32 num then Some (ll_repr num) else None
      | ArgLongLong num \<Rightarrow> if nxt = 73 \<and> in_signed 64 num then Some (ll_repr num) else None
      | ArgUInt unum \<Rightarrow> if nxt = 117 \<and> unum < 2 ^ 32 then Some (dec unum) else None
      | ArgULongLong unum \<Rightarrow> if nxt = 85 \<and> unum < 2 ^ 64 then Some (dec unum) else None)"

fun fmt_text :: "byte list \<Rightarrow> fmt_arg list \<Rightarrow> byte list option" where
  "fmt_text [] args = Some []"
| "fmt_text (c # f) args =
     (if c = 37 then
        (case f of
           [] \<Rightarrow> None
         | nxt # f \<Rightarrow>
             if nxt \<in> fmt_directives then
               (case args of
                  [] \<Rightarrow> None
                | arg # args \<Rightarrow> do { t \<leftarrow> arg_text nxt arg; u \<leftarrow> fmt_text f args; Some (t @ u) })
             else do { u \<leftarrow> fmt_text f args; Some (nxt # u) })
      else do { u \<leftarrow> fmt_text f args; Some (c # u) })"

lemma c_str_load:
  assumes "0 \<in> set t"
  shows "do { l \<leftarrow> c_strlen t; load_n t 0 l } = Some (takeWhile (\<lambda>c. c \<noteq> 0) t)"
proof -
  obtain x r where t: "t = x @ 0 # r" "0 \<notin> set x"
    using c_strlen_terminated [OF assms] by blast
  then have "takeWhile (\<lambda>c. c \<noteq> 0) t = x"
    by (auto simp: takeWhile_append)
  then show ?thesis
    using t by (simp add: mem_simps)
qed

lemma fmt_str_ok:
  assumes "arg_text nxt arg = Some t"
  shows "fmt_str fill nxt arg = Some t"
proof -
  have ll: "do { (buf, l) \<leftarrow> sdsll2str (map fill [0..<SDS_LLSTR_SIZE]) num; load_n buf 0 l } = Some (ll_repr num)" if "in_signed 64 num" for num
    using sdsll2str_ok [OF that, of "map fill [0..<SDS_LLSTR_SIZE]"] by (auto simp: load_n_def slice_def)
  have ull: "do { (buf, l) \<leftarrow> sdsull2str (map fill [0..<SDS_LLSTR_SIZE]) num; load_n buf 0 l } = Some (dec num)" if "num < 2 ^ 64" for num
    using sdsull2str_ok [OF that, of "map fill [0..<SDS_LLSTR_SIZE]"] by (auto simp: load_n_def slice_def)
  show ?thesis
  proof (cases arg)
    case (ArgSds u)
    then show ?thesis
      using assms by (auto simp: arg_text_def fmt_str_def sdslen_def sds_ok_def sds_str_def load_n_def slice_def split: if_splits)
  qed (use assms ll ull c_str_load in \<open>auto simp: arg_text_def fmt_str_def split: if_splits\<close>)
qed

lemma catfmt_loop_prefix:
  assumes "sds_block s" "0 \<notin> set f" "fmt_text f args = Some t" "sds_len s + length t + 1 < 2 ^ 31"
  shows "\<exists>s' args'. (\<forall>g. catfmt_loop fill s (sds_len s) (f @ g) args = catfmt_loop fill s' (sds_len s') g args') \<and> sds_block s' \<and>
    sds_len s' = sds_len s + length t \<and> sds_str s' = sds_str s @ t"
  using assms
proof (induction f args arbitrary: s t rule: fmt_text.induct)
  case (1 args)
  then show ?case
    by (intro exI [of _ s] exI [of _ args]) simp
next
  case (2 c f args)
  define s0 where "s0 = (if sds_free s = 0 then sdsMakeRoomFor fill s 1 else s)"
  have s0: "sds_block s0" "sds_str s0 = sds_str s" "0 < sds_free s0" "sds_len s0 = sds_len s"
    using sdsMakeRoomFor_block [of s 1 fill] "2.prems"(1,4) by (auto simp: s0_def)
  have c: "c \<noteq> 0" "0 \<notin> set f"
    using "2.prems"(2) by auto
  have char: "\<exists>s'. fmt_char s0 (sds_len s) x = Some (s', sds_len s') \<and> sds_block s' \<and> sds_len s' = sds_len s + 1 \<and> sds_str s' = sds_str s @ [x]" for x
    using fmt_char_ok [OF s0(1,3), of x] s0(2,4) by auto
  show ?case
  proof (cases "c = 37")
    case False
    then obtain u where u: "fmt_text f args = Some u" "t = c # u"
      using "2.prems"(3) by (auto simp: Option.bind_eq_Some_conv)
    obtain s1 where s1: "fmt_char s0 (sds_len s) c = Some (s1, sds_len s1)" "sds_block s1" "sds_len s1 = sds_len s + 1" "sds_str s1 = sds_str s @ [c]"
      using char by blast
    have "\<exists>s' args''. (\<forall>g. catfmt_loop fill s1 (sds_len s1) (f @ g) args = catfmt_loop fill s' (sds_len s') g args'') \<and> sds_block s' \<and>
        sds_len s' = sds_len s1 + length u \<and> sds_str s' = sds_str s1 @ u"
      by (rule "2.IH"(3) [OF False s1(2) c(2) u(1)]) (use "2.prems"(4) s1(3) u(2) in simp)
    then obtain s' args'' where "\<forall>g. catfmt_loop fill s1 (sds_len s1) (f @ g) args = catfmt_loop fill s' (sds_len s') g args''"
      "sds_block s'" "sds_len s' = sds_len s1 + length u" "sds_str s' = sds_str s1 @ u"
      by blast
    then show ?thesis
      using False c(1) s1 u(2)
      by (intro exI [of _ s'] exI [of _ args'']) (simp add: s0_def [symmetric])
  next
    case True
    then obtain nxt f' where f: "f = nxt # f'"
      using "2.prems"(3) by (cases f) auto
    show ?thesis
    proof (cases "nxt \<in> fmt_directives")
      case dir: True
      then obtain arg args' x u where a: "args = arg # args'" "arg_text nxt arg = Some x" "fmt_text f' args' = Some u" "t = x @ u"
        using "2.prems"(3) True f by (cases args) (auto simp: Option.bind_eq_Some_conv)
      obtain s1 where s1: "fmt_put fill s0 (sds_len s) x = Some (s1, sds_len s1)" "sds_block s1" "sds_len s1 = sds_len s + length x"
        "sds_str s1 = sds_str s @ x"
        using fmt_put_ok [OF s0(1), of x fill] s0(2,4) "2.prems"(4) a(4) by auto
      have "\<exists>s' args''. (\<forall>g. catfmt_loop fill s1 (sds_len s1) (f' @ g) args' = catfmt_loop fill s' (sds_len s') g args'') \<and> sds_block s' \<and>
          sds_len s' = sds_len s1 + length u \<and> sds_str s' = sds_str s1 @ u"
        by (rule "2.IH"(1) [OF True f dir a(1,2) s1(2) _ a(3)]) (use c f "2.prems"(4) s1(3) a(4) in auto)
      then obtain s' args'' where "\<forall>g. catfmt_loop fill s1 (sds_len s1) (f' @ g) args' = catfmt_loop fill s' (sds_len s') g args''"
        "sds_block s'" "sds_len s' = sds_len s1 + length u" "sds_str s' = sds_str s1 @ u"
        by blast
      then show ?thesis
        using True c(1) f dir a s1 fmt_str_ok [OF a(2), of fill]
        by (intro exI [of _ s'] exI [of _ args'']) (simp add: s0_def [symmetric] fmt_switch_def)
    next
      case dir: False
      then obtain u where u: "fmt_text f' args = Some u" "t = nxt # u"
        using "2.prems"(3) True f by (auto simp: Option.bind_eq_Some_conv)
      obtain s1 where s1: "fmt_char s0 (sds_len s) nxt = Some (s1, sds_len s1)" "sds_block s1" "sds_len s1 = sds_len s + 1"
        "sds_str s1 = sds_str s @ [nxt]"
        using char by blast
      have "\<exists>s' args''. (\<forall>g. catfmt_loop fill s1 (sds_len s1) (f' @ g) args = catfmt_loop fill s' (sds_len s') g args'') \<and> sds_block s' \<and>
          sds_len s' = sds_len s1 + length u \<and> sds_str s' = sds_str s1 @ u"
        by (rule "2.IH"(2) [OF True f dir s1(2) _ u(1)]) (use c f "2.prems"(4) s1(3) u(2) in auto)
      then obtain s' args'' where "\<forall>g. catfmt_loop fill s1 (sds_len s1) (f' @ g) args = catfmt_loop fill s' (sds_len s') g args''"
        "sds_block s'" "sds_len s' = sds_len s1 + length u" "sds_str s' = sds_str s1 @ u"
        by blast
      then show ?thesis
        using True c(1) f dir u s1
        by (intro exI [of _ s'] exI [of _ args'']) (simp add: s0_def [symmetric] fmt_switch_def)
    qed
  qed
qed

lemma catfmt_loop_ok:
  assumes "sds_block s" "0 \<notin> set f" "fmt_text f args = Some t" "sds_len s + length t + 1 < 2 ^ 31"
  shows "\<exists>s'. catfmt_loop fill s (sds_len s) (f @ 0 # r) args = Some (s', sds_len s') \<and> sds_block s' \<and>
    sds_len s' = sds_len s + length t \<and> sds_str s' = sds_str s @ t"
  using catfmt_loop_prefix [OF assms, of fill] by fastforce

lemma sdscatfmt_of_loop:
  assumes "catfmt_loop fill s (sds_len s) fmt args = Some (s', sds_len s')" "sds_block s'"
  shows "\<exists>r. sdscatfmt fill s fmt args = Some r \<and> sds_ok r \<and> sds_str r = sds_str s'"
  using assms by (auto simp: sdscatfmt_def sdslen_def sds_block_def sds_ok_def sds_str_def mem_simps)

lemma fmt_text_plain: "37 \<notin> set g \<Longrightarrow> fmt_text g args = Some g"
  by (induction g) auto

text \<open>Behind a percent sign the zero byte is an unknown directive: it is stored and skipped.\<close>

lemma catfmt_loop_percent_zero:
  assumes "sds_block s" "sds_len s + 1 < 2 ^ 31"
  shows "\<exists>s'. (\<forall>g. catfmt_loop fill s (sds_len s) (37 # 0 # g) args = catfmt_loop fill s' (sds_len s') g args) \<and>
    sds_block s' \<and> sds_len s' = sds_len s + 1 \<and> sds_str s' = sds_str s @ [0]"
proof -
  define s0 where "s0 = (if sds_free s = 0 then sdsMakeRoomFor fill s 1 else s)"
  have s0: "sds_block s0" "sds_str s0 = sds_str s" "0 < sds_free s0" "sds_len s0 = sds_len s"
    using sdsMakeRoomFor_block [of s 1 fill] assms by (auto simp: s0_def)
  obtain s' where "fmt_char s0 (sds_len s) 0 = Some (s', sds_len s')" "sds_block s'" "sds_len s' = sds_len s + 1"
    "sds_str s' = sds_str s @ [0]"
    using fmt_char_ok [OF s0(1,3), of 0] s0(2,4) by auto
  then show ?thesis
    by (intro exI [of _ s']) (simp add: s0_def [symmetric] fmt_switch_def fmt_directives_def)
qed

text \<open>C29:
  \<open>sdscatfmt\<close> appends exactly the text the format denotes: for a format without a dangling percent sign and
  arguments of the types its directives take, no write leaves the block although room is only
  made when it runs out, and the result is well-formed. The texts of the integers are the decimal
  representations.
\<close>

theorem sdscatfmt_correct:
  assumes "sds_ok s" "0 \<notin> set fmt" "fmt_text fmt args = Some t" "sdslen s + length t + 1 < 2 ^ 31"
  shows "\<exists>s'. sdscatfmt fill s (fmt @ [0]) args = Some s' \<and> sds_ok s' \<and> sds_str s' = sds_str s @ t"
proof -
  have "sds_block s"
    using assms(1) by (simp add: sds_ok_def sds_block_def)
  then show ?thesis
    using catfmt_loop_ok [of s fmt args t fill "[]"] assms(2-4) sdscatfmt_of_loop [of fill s "fmt @ [0]" args]
    by (auto simp: sdslen_def)
qed

theorem sdscatfmt_correct_witness:
  "\<exists>s'. sdscatfmt (\<lambda>_. 9) \<lparr>sds_len = 0, sds_free = 0, sds_buf = [0]\<rparr> [97, 37, 105, 37, 37, 0] [ArgInt (-7)] = Some s' \<and>
    sds_str s' = [97, 45, 55, 37]"
proof -
  have "fmt_text [97, 37, 105, 37, 37] [ArgInt (-7)] = Some [97, 45, 55, 37]"
    by (simp add: fmt_directives_def arg_text_def ll_repr_def dec_small)
  then show ?thesis
    using sdscatfmt_correct [of "\<lparr>sds_len = 0, sds_free = 0, sds_buf = [0]\<rparr>" "[97, 37, 105, 37, 37]" "[ArgInt (-7)]" "[97, 45, 55, 37]" "\<lambda>_. 9"]
    by (auto simp: sds_ok_def sds_str_def sdslen_def)
qed

text \<open>C30:
  A percent sign at the end of a format makes \<open>sdscatfmt\<close> read behind the terminator of the format, whatever stands
  before it: the zero byte is taken as the directive, stored, and skipped. When the block that holds the format
  ends with the terminator the next read leaves it; when the block goes on, the bytes behind the terminator
  are appended to the string as if they belonged to the format.
\<close>

theorem sdscatfmt_dangling_percent:
  assumes "sds_ok s" "0 \<notin> set fmt" "fmt_text fmt args = Some t" "0 \<notin> set g" "37 \<notin> set g"
    and "sdslen s + length t + length g + 2 < 2 ^ 31"
  shows "sdscatfmt fill s (fmt @ [37, 0]) args = None \<and>
    (\<exists>s'. sdscatfmt fill s (fmt @ [37, 0] @ g @ [0]) args = Some s' \<and> sds_ok s' \<and> sds_str s' = sds_str s @ t @ [0] @ g)"
proof -
  have s: "sds_block s" "sds_len s + length t + 1 < 2 ^ 31"
    using assms(1,6) by (simp_all add: sds_ok_def sds_block_def sdslen_def)
  obtain s1 args' where s1: "\<forall>g. catfmt_loop fill s (sds_len s) (fmt @ g) args = catfmt_loop fill s1 (sds_len s1) g args'"
    "sds_block s1" "sds_len s1 = sds_len s + length t" "sds_str s1 = sds_str s @ t"
    using catfmt_loop_prefix [OF s(1) assms(2,3) s(2), of fill] by blast
  obtain s2 where s2: "\<forall>g. catfmt_loop fill s1 (sds_len s1) (37 # 0 # g) args' = catfmt_loop fill s2 (sds_len s2) g args'"
    "sds_block s2" "sds_len s2 = sds_len s1 + 1" "sds_str s2 = sds_str s1 @ [0]"
    using catfmt_loop_percent_zero [OF s1(2), of fill args'] s1(3) s(2) by (metis (no_types))
  obtain s3 where s3: "catfmt_loop fill s2 (sds_len s2) (g @ [0]) args' = Some (s3, sds_len s3)" "sds_block s3"
    "sds_str s3 = sds_str s2 @ g"
    using catfmt_loop_ok [OF s2(2) assms(4) fmt_text_plain [OF assms(5)], of fill "[]"] assms(6) s1(3) s2(3)
    by (auto simp: sdslen_def)
  have loop: "catfmt_loop fill s (sds_len s) (fmt @ 37 # 0 # g') args = catfmt_loop fill s2 (sds_len s2) g' args'" for g'
    using s1(1) s2(1) by simp
  have "sdscatfmt fill s (fmt @ [37, 0]) args = None"
    unfolding sdscatfmt_def sdslen_def loop [of "[]"] by simp
  moreover have "\<exists>s'. sdscatfmt fill s (fmt @ 37 # 0 # g @ [0]) args = Some s' \<and> sds_ok s' \<and> sds_str s' = sds_str s3"
    by (rule sdscatfmt_of_loop) (use loop [of "g @ [0]"] s3 in simp_all)
  ultimately show ?thesis
    using s1(4) s2(4) s3(3) by simp
qed

text \<open>The format is \<open>a%i%\<close>, and \<open>hi\<close> stands behind its terminator.\<close>

theorem sdscatfmt_dangling_percent_witness:
  "sdscatfmt (\<lambda>_. 9) \<lparr>sds_len = 0, sds_free = 0, sds_buf = [0]\<rparr> [97, 37, 105, 37, 0] [ArgInt (-7)] = None \<and>
   (\<exists>s'. sdscatfmt (\<lambda>_. 9) \<lparr>sds_len = 0, sds_free = 0, sds_buf = [0]\<rparr> [97, 37, 105, 37, 0, 104, 105, 0] [ArgInt (-7)] = Some s' \<and>
     sds_str s' = [97, 45, 55, 0, 104, 105])"
proof -
  have "fmt_text [97, 37, 105] [ArgInt (-7)] = Some [97, 45, 55]"
    by (simp add: fmt_directives_def arg_text_def ll_repr_def dec_small)
  then show ?thesis
    using sdscatfmt_dangling_percent [of "\<lparr>sds_len = 0, sds_free = 0, sds_buf = [0]\<rparr>" "[97, 37, 105]" "[ArgInt (-7)]" "[97, 45, 55]" "[104, 105]" "\<lambda>_. 9"]
    by (auto simp: sds_ok_def sds_str_def sdslen_def)
qed

section \<open>\<open>printf\<close>\<close>

lemma vprintf_loop_ok:
  assumes "length buf = buflen" "2 \<le> buflen"
  shows "\<exists>b x. vprintf_loop fill buf buflen out = Some b \<and> b = takeWhile (\<lambda>c. c \<noteq> 0) out @ 0 # x"
  using assms
proof (induction fill buf buflen out rule: vprintf_loop.induct)
  case (1 fill buf buflen out)
  let ?b1 = "buf[buflen - 2 := 0]" and ?w = "take (buflen - 1) out @ [0]"
  let ?b = "splice_at ?b1 0 ?w"
  have st: "store buf (buflen - 2) 0 = Some ?b1"
    using "1.prems" by (simp add: mem_simps)
  have lw: "length ?w \<le> length ?b1"
    using "1.prems" by auto
  then have vs: "vsnprintf_into ?b1 buflen out = Some ?b"
    by (simp add: vsnprintf_into_def mem_simps)
  have lb: "length ?b = buflen"
    using lw "1.prems"(1) by simp
  then have ld: "load ?b (buflen - 2) = Some (?b ! (buflen - 2))"
    using "1.prems"(2) by (simp add: mem_simps)
  have guard: "\<not> buflen < 2"
    using "1.prems"(2) by simp
  show ?case
  proof (cases "?b ! (buflen - 2) \<noteq> 0")
    case True
    have "vprintf_loop fill buf buflen out = vprintf_loop fill (map fill [0..<buflen * 2]) (buflen * 2) out"
      using guard st vs ld True by (subst vprintf_loop.simps) simp
    then show ?thesis
      using "1.IH" [OF guard st vs ld True] "1.prems"(2) by simp
  next
    case False
    then have eq: "vprintf_loop fill buf buflen out = Some ?b"
      using guard st vs ld by (subst vprintf_loop.simps) simp
    have b: "?b = ?w @ drop (length ?w) ?b1"
      by (simp add: splice_at_def)
    have "\<exists>x. ?b = takeWhile (\<lambda>c. c \<noteq> 0) out @ 0 # x"
    proof (cases "length out \<le> buflen - 1")
      case True
      then have "?b = out @ 0 # drop (length ?w) ?b1"
        using b by simp
      moreover have "\<exists>x. out @ 0 # y = takeWhile (\<lambda>c. c \<noteq> 0) out @ 0 # x" for y
        by (induction out) auto
      ultimately show ?thesis
        by auto
    next
      case long: False
      then have n: "?b ! (buflen - 2) = out ! (buflen - 2)" "buflen - 2 < length out"
        using "1.prems"(2) b by (auto simp: nth_append)
      then have z: "out ! (buflen - 2) = 0"
        using False by simp
      have tw: "length (takeWhile (\<lambda>c. c \<noteq> 0) out) \<le> buflen - 2"
      proof (rule ccontr)
        assume "\<not> ?thesis"
        then have i: "buflen - 2 < length (takeWhile (\<lambda>c. c \<noteq> 0) out)"
          by simp
        from nth_mem [OF i] show False
          using takeWhile_nth [OF i] z by (auto dest: set_takeWhileD)
      qed
      define k where "k = length (takeWhile (\<lambda>c. c \<noteq> 0) out)"
      have "takeWhile (\<lambda>c. c \<noteq> 0) out = take k out"
        unfolding k_def by (rule takeWhile_eq_take)
      moreover have "out ! k = 0" "k < length out"
        using tw n(2) nth_length_takeWhile [of "\<lambda>c. c \<noteq> 0" out] by (auto simp: k_def)
      moreover have "k < buflen - 1"
        using tw "1.prems"(2) by (simp add: k_def)
      ultimately have "take (buflen - 1) out = takeWhile (\<lambda>c. c \<noteq> 0) out @ 0 # drop (k + 1) (take (buflen - 1) out)"
        using id_take_nth_drop [of k "take (buflen - 1) out"] by (simp add: min_def)
      then show ?thesis
        using b by (metis append.assoc append_Cons)
    qed
    then show ?thesis
      using eq by blast
  qed
qed

text \<open>Appending a printed text that has no zero byte is appending the text.\<close>

lemma sdscatprintf_ok:
  assumes "0 \<notin> set out" "0 \<notin> set fmt"
  shows "sdscatprintf fill s (fmt @ [0]) out = sdscatlen fill s out (length out)"
proof -
  define n where "n = (if length fmt * 2 > 1024 then length fmt * 2 else 1024)"
  obtain b x where b: "vprintf_loop fill (map fill [0..<n]) n out = Some b" "b = takeWhile (\<lambda>c. c \<noteq> 0) out @ 0 # x"
  proof -
    have "2 \<le> n"
      by (simp add: n_def)
    then show ?thesis
      using vprintf_loop_ok [of "map fill [0..<n]" n fill out] that by auto
  qed
  have "takeWhile (\<lambda>c. c \<noteq> 0) out = out"
    using assms(1) by (auto simp: takeWhile_eq_all_conv)
  then have out: "b = out @ 0 # x"
    using b(2) by (simp only:)
  show ?thesis
    using b(1) assms(2) sdscat_ok [OF assms(1), of fill s x]
    by (simp add: sdscatprintf_def sdscatvprintf_def n_def out)
qed

section \<open>The quoted representation\<close>

definition repr_text :: "byte \<Rightarrow> byte list" where
  "repr_text c =
     (if c = 92 \<or> c = 34 then [92, c]
      else if c = 10 then [92, 110] else if c = 13 then [92, 114] else if c = 9 then [92, 116]
      else if c = 7 then [92, 97] else if c = 8 then [92, 98]
      else if c_isprint c then [c]
      else [92, 120, hex_char (unat c div 16), hex_char (unat c mod 16)])"

definition quote :: "byte list \<Rightarrow> byte list" where
  "quote t = 34 # concat (map repr_text t) @ [34]"

lemma unat_less_256: "unat (c :: byte) < 256"
  using unsigned_less [of c, where 'a = nat] by simp

lemma hex_char_ok:
  assumes "d < 16"
  shows "is_hex_digit (hex_char d)" "hex_digit_to_int (hex_char d) = d" "hex_char d \<noteq> 0"
proof -
  have "d = 0 \<or> d = 1 \<or> d = 2 \<or> d = 3 \<or> d = 4 \<or> d = 5 \<or> d = 6 \<or> d = 7 \<or> d = 8 \<or> d = 9 \<or> d = 10 \<or> d = 11 \<or>
      d = 12 \<or> d = 13 \<or> d = 14 \<or> d = 15"
    using assms by (simp add: less_Suc_eq numeral_eq_Suc)
  then have "is_hex_digit (hex_char d) \<and> hex_digit_to_int (hex_char d) = d \<and> hex_char d \<noteq> 0"
    by (elim disjE) (simp_all add: hex_char_def is_hex_digit_def hex_digit_to_int_def)
  then show "is_hex_digit (hex_char d)" "hex_digit_to_int (hex_char d) = d" "hex_char d \<noteq> 0"
    by blast+
qed

lemma repr_text_nonzero: "0 \<notin> set (repr_text c)"
proof -
  have "hex_char (unat c div 16) \<noteq> 0" "hex_char (unat c mod 16) \<noteq> 0"
    using unat_less_256 [of c] by (auto intro!: hex_char_ok(3) simp: less_mult_imp_div_less)
  then show ?thesis
    by (auto simp: repr_text_def c_isprint_def)
qed

lemma repr_char_ok: "repr_char fill s c = sdscatlen fill s (repr_text c) (length (repr_text c))"
proof -
  have hex: "hex_char (unat c div 16) \<noteq> 0" "hex_char (unat c mod 16) \<noteq> 0"
    using unat_less_256 [of c] by (auto intro!: hex_char_ok(3) simp: less_mult_imp_div_less)
  have two: "Suc (Suc 0) = 2"
    by simp
  have "c_isprint c \<Longrightarrow> c \<noteq> 0"
    by (auto simp: c_isprint_def)
  then show ?thesis
    using sdscatprintf_ok [of "[92, c]" "[92, 37, 99]" fill s] sdscatprintf_ok [of "[c]" "[37, 99]" fill s]
      sdscatprintf_ok [of "[92, 120, hex_char (unat c div 16), hex_char (unat c mod 16)]" "[92, 120, 37, 48, 50, 120]" fill s] hex
    by (simp add: repr_char_def repr_text_def two) auto
qed

lemma repr_loop_ok:
  assumes "sds_ok s" "length (sds_str s) + length (concat (map repr_text t)) < 2 ^ 31"
  shows "\<exists>s'. repr_loop fill s t (length t) = Some s' \<and> sds_ok s' \<and> sds_str s' = sds_str s @ concat (map repr_text t)"
proof -
  have "repr_loop fill s t (length t) = cat_all (\<lambda>s t. sdscatlen fill s t (length t)) s (map repr_text t)"
    by (induction t arbitrary: s) (auto simp: mem_simps repr_char_ok)
  then show ?thesis
    using sds.cat_all_law [OF assms(1), of "map repr_text t" fill] assms(2) by simp
qed

lemma sdscatrepr_ok:
  assumes "sds_ok s" "length (sds_str s) + length (quote t) < 2 ^ 31"
  shows "\<exists>s'. sdscatrepr fill s t (length t) = Some s' \<and> sds_ok s' \<and> sds_str s' = sds_str s @ quote t"
proof -
  have b: "length (sds_str s) + length [34 :: byte] < 2 ^ 31"
    "length (sds_str s @ [34]) + length (concat (map repr_text t)) < 2 ^ 31"
    "length ((sds_str s @ [34]) @ concat (map repr_text t)) + length [34 :: byte] < 2 ^ 31"
    using assms(2) by (simp_all add: quote_def)
  obtain s1 where s1: "sdscatlen fill s [34] (length [34 :: byte]) = Some s1" "sds_ok s1" "sds_str s1 = sds_str s @ [34]"
    using assms(1) b(1) by (rule sds.catE)
  obtain s2 where s2: "repr_loop fill s1 t (length t) = Some s2" "sds_ok s2" "sds_str s2 = (sds_str s @ [34]) @ concat (map repr_text t)"
    using repr_loop_ok [OF s1(2), of t fill] b(2) s1(3) by auto
  obtain s3 where s3: "sdscatlen fill s2 [34] (length [34 :: byte]) = Some s3" "sds_ok s3" "sds_str s3 = sds_str s2 @ [34]"
    using sds.catE [OF s2(2), of "[34]" fill] b(3) s2(3) by auto
  show ?thesis
    using s1(1) s2(1,3) s3 by (simp add: sdscatrepr_def quote_def)
qed


section \<open>Splitting quoted arguments\<close>

text \<open>Inside double quotes, the text of a character is read back as the character.\<close>

lemma sdscatlen_1:
  assumes "sds_ok s" "length (sds_str s) < 2 ^ 31 - 1"
  obtains s' where "sdscatlen fill s [c] 1 = Some s'" "sds_ok s'" "sds_str s' = sds_str s @ [c]"
  using sds.catE [OF assms(1), of "[c]" fill] assms(2) by auto

lemma sdscatlen_first: "sdscatlen fill s (c # p) 1 = sdscatlen fill s [c] 1"
  using sdscatlen_prefix [of fill s "[c]" p] by simp

lemma unescape_repr: 
  "unescape 110 = 10" "unescape 114 = 13" "unescape 116 = 9" "unescape 97 = 7" "unescape 98 = 8" "unescape 92 = 92" "unescape 34 = 34"
  by (simp_all add: unescape_def)

lemma advance_Cons: "c \<noteq> 0 \<Longrightarrow> advance (c # p) = Some p"
  by (simp add: advance_def load_def)

lemma split_turn_repr:
  "split_turn fill (repr_text c @ p) Double s = do { s \<leftarrow> sdscatlen fill s [c] 1; Some (Step p Double s) }"
proof -
  consider (esc) e where "repr_text c = [92, e]" "unescape e = c" "e \<noteq> 0" "e \<noteq> 120" | (plain) "repr_text c = [c]" "c \<noteq> 92" "c \<noteq> 34" "c \<noteq> 0"
    | (hex) "repr_text c = [92, 120, hex_char (unat c div 16), hex_char (unat c mod 16)]"
  proof (cases "c = 92 \<or> c = 34 \<or> c = 10 \<or> c = 13 \<or> c = 9 \<or> c = 7 \<or> c = 8")
    case True
    have "\<exists>e. repr_text c = [92, e] \<and> unescape e = c \<and> e \<noteq> 0 \<and> e \<noteq> 120"
      using True by (elim disjE) (simp_all add: repr_text_def unescape_repr)
    then show ?thesis
      using esc by blast
  next
    case False
    then have r: "repr_text c = (if c_isprint c then [c] else [92, 120, hex_char (unat c div 16), hex_char (unat c mod 16)])"
      by (simp add: repr_text_def)
    have "c_isprint c \<Longrightarrow> c \<noteq> 0"
      by (auto simp: c_isprint_def)
    then show ?thesis
      using r plain hex False by (cases "c_isprint c") auto
  qed
  then show ?thesis
  proof cases
    case esc
    then show ?thesis
      by (simp add: split_turn_def split_double_def hex_escape_def pair_test_def load_def advance_Cons)
  next
    case plain
    then show ?thesis
      using sdscatlen_first [of fill s c p]
      by (simp add: split_turn_def split_double_def hex_escape_def pair_test_def load_def advance_Cons)
  next
    case hex
    let ?a = "unat c div 16" and ?b = "unat c mod 16"
    have ab: "?a < 16" "?b < 16"
      using unat_less_256 [of c] by (auto simp: less_mult_imp_div_less)
    have "of_nat (?a * 16 + ?b) = c"
      by (simp only: div_mult_mod_eq) simp
    then have c: "of_nat ?a * 16 + of_nat ?b = c"
      by (simp only: of_nat_add of_nat_mult of_nat_numeral)
    show ?thesis
      unfolding hex using hex_char_ok [OF ab(1)] hex_char_ok [OF ab(2)] c
      by (simp add: split_turn_def split_double_def hex_escape_def load_def advance_Cons numeral_2_eq_2 numeral_3_eq_3)
  qed
qed


lemma token_loop_repr:
  assumes "sds_ok s" "length (sds_str s) + length t < 2 ^ 31" "c1 = 0 \<or> c_isspace c1"
  shows "\<exists>s'. token_loop fill (concat (map repr_text t) @ 34 # c1 # rest) Double s = Some (Some (c1 # rest, s')) \<and> sds_ok s' \<and>
    sds_str s' = sds_str s @ t"
  using assms(1,2)
proof (induction t arbitrary: s)
  case Nil
  have "split_turn fill (34 # c1 # rest) Double s = Some (Stop (c1 # rest) s)"
    using assms(3) by (auto simp: split_turn_def split_double_def hex_escape_def pair_test_def load_def close_quote_def advance_Cons)
  then show ?case
    using Nil by (subst token_loop.simps) simp
next
  case (Cons c t)
  obtain s1 where s1: "sdscatlen fill s [c] 1 = Some s1" "sds_ok s1" "sds_str s1 = sds_str s @ [c]"
    using sds.catE [OF Cons.prems(1), of "[c]" fill] Cons.prems(2) by auto
  have "token_loop fill (concat (map repr_text (c # t)) @ 34 # c1 # rest) Double s =
      token_loop fill (concat (map repr_text t) @ 34 # c1 # rest) Double s1"
    using s1(1) split_turn_repr [of fill c "concat (map repr_text t) @ 34 # c1 # rest" s] by (subst token_loop.simps) simp
  then show ?case
    using Cons.IH [OF s1(2)] s1(3) Cons.prems(2) by simp
qed

lemma c_isspace_values: "c_isspace 32" "\<not> c_isspace 34"
  by (simp_all add: c_isspace_def)

lemma args_loop_blank: "c \<noteq> 0 \<Longrightarrow> c_isspace c \<Longrightarrow> args_loop fill (c # p) vs = args_loop fill p vs"
  by (subst (1 2) args_loop.simps) simp

lemma args_loop_quote:
  assumes "length t < 2 ^ 31" "c1 = 0 \<or> c_isspace c1"
  shows "\<exists>tok. args_loop fill (quote t @ c1 # rest) vs = args_loop fill (c1 # rest) (vs @ [tok]) \<and> sds_ok tok \<and> sds_str tok = t"
proof -
  obtain e where e: "sdsempty fill = Some e" "sds_ok e" "sds_str e = []"
    using sdsempty_ok by blast
  obtain tok where tok: "token_loop fill (concat (map repr_text t) @ 34 # c1 # rest) Double e = Some (Some (c1 # rest, tok))" "sds_ok tok"
    "sds_str tok = t"
    using token_loop_repr [OF e(2), of t c1 fill rest] e(3) assms by auto
  have "token_loop fill (quote t @ c1 # rest) Plain e = Some (Some (c1 # rest, tok))"
    using tok(1) by (subst token_loop.simps) (simp add: split_turn_def split_plain_def quote_def load_def advance_Cons)
  then have "args_loop fill (quote t @ c1 # rest) vs = args_loop fill (c1 # rest) (vs @ [tok])"
    using e(1) by (subst args_loop.simps) (simp add: quote_def load_def c_isspace_values)
  then show ?thesis
    using tok by blast
qed

lemma args_loop_quotes:
  assumes "\<forall>t\<in>set ts. length t < 2 ^ 31"
  shows "\<exists>toks. args_loop fill (intercalate [32] (map quote ts) @ [0]) vs = Some (Some (vs @ toks)) \<and> (\<forall>t\<in>set toks. sds_ok t) \<and>
    map sds_str toks = ts"
  using assms
proof (induction ts arbitrary: vs)
  case Nil
  show ?case
    by (subst args_loop.simps) (simp add: load_def)
next
  case (Cons t ts)
  obtain c1 rest where c1: "intercalate [32] (map quote (t # ts)) @ [0] = quote t @ c1 # rest" "c1 = 0 \<or> c_isspace c1"
    "\<And>vs. args_loop fill (c1 # rest) vs = args_loop fill (intercalate [32] (map quote ts) @ [0]) vs"
  proof (cases ts)
    case Nil
    then show ?thesis
      using that [of 0 "[]"] by simp
  next
    case (Cons u us)
    then show ?thesis
      using that [of 32 "intercalate [32] (map quote ts) @ [0]"] by (simp add: c_isspace_values args_loop_blank)
  qed
  obtain tok where tok: "args_loop fill (quote t @ c1 # rest) vs = args_loop fill (c1 # rest) (vs @ [tok])" "sds_ok tok" "sds_str tok = t"
    using args_loop_quote [of t c1 fill rest vs] Cons.prems c1(2) by auto
  then show ?case
    using Cons.IH [of "vs @ [tok]"] Cons.prems unfolding c1(1) tok(1) c1(3)
    by (force intro: exI [of _ "tok # _"])
qed

lemma length_repr_text: "length (repr_text c) \<le> 4"
  by (simp add: repr_text_def)

lemma length_quote: "length (quote t) \<le> 4 * length t + 2"
proof -
  have "length (concat (map repr_text t)) \<le> 4 * length t"
    using length_repr_text by (induction t) (auto intro: add_mono)
  then show ?thesis
    by (simp add: quote_def)
qed

text \<open>C27:
  What \<open>sdscatrepr\<close> prints, \<open>sdssplitargs\<close> reads: quote any byte strings, zero bytes, quotes, backslashes and
  control characters included, put them on a line separated by spaces, and splitting the
  line gives back exactly these strings.
\<close>

theorem sdssplitargs_sdscatrepr:
  assumes "\<forall>t\<in>set ts. 4 * length t + 2 < 2 ^ 31"
  shows "\<exists>reprs toks. map (\<lambda>t. do { e \<leftarrow> sdsempty fill; sdscatrepr fill e t (length t) }) ts = map Some reprs \<and>
    sdssplitargs fill (intercalate [32] (map sds_str reprs) @ [0]) = Some (Some toks) \<and>
    (\<forall>t\<in>set toks. sds_ok t) \<and> map sds_str toks = ts"
proof -
  obtain e where e: "sdsempty fill = Some e" "sds_ok e" "sds_str e = []"
    using sdsempty_ok by blast
  define R where "R t = the (sdscatrepr fill e t (length t))" for t
  have R: "sdscatrepr fill e t (length t) = Some (R t)" "sds_str (R t) = quote t" if "t \<in> set ts" for t
  proof -
    have "length (sds_str e) + length (quote t) < 2 ^ 31"
      using length_quote [of t] assms e(3) that by fastforce
    from sdscatrepr_ok [OF e(2) this, of fill] show "sdscatrepr fill e t (length t) = Some (R t)" "sds_str (R t) = quote t"
      using e(3) by (auto simp: R_def)
  qed
  have m: "map (\<lambda>t. do { e \<leftarrow> sdsempty fill; sdscatrepr fill e t (length t) }) ts = map Some (map R ts)"
    "map sds_str (map R ts) = map quote ts"
    using R e(1) by simp_all
  have "\<forall>t\<in>set ts. length t < 2 ^ 31"
    using assms by fastforce
  from args_loop_quotes [OF this, of fill "[]"] obtain toks where
    toks: "sdssplitargs fill (intercalate [32] (map quote ts) @ [0]) = Some (Some toks)" "\<forall>t\<in>set toks. sds_ok t" "map sds_str toks = ts"
    unfolding sdssplitargs_def by auto
  show ?thesis
    by (rule exI [of _ "map R ts"], rule exI [of _ toks]) (use toks(2) in \<open>simp only: m toks(1,3) simp_thms\<close>)
qed

theorem sdssplitargs_sdscatrepr_witness:
  "\<exists>reprs toks. map (\<lambda>t. do { e \<leftarrow> sdsempty (\<lambda>_. 0); sdscatrepr (\<lambda>_. 0) e t (length t) }) [[97, 34, 0], []] = map Some reprs \<and>
    sdssplitargs (\<lambda>_. 0) (intercalate [32] (map sds_str reprs) @ [0]) = Some (Some toks) \<and> map sds_str toks = [[97, 34, 0], []]"
proof -
  have "\<forall>t\<in>set [[97, 34, 0 :: byte], []]. 4 * length t + 2 < 2 ^ 31"
    by simp
  from sdssplitargs_sdscatrepr [OF this, of "\<lambda>_. 0"] show ?thesis
    by (elim exE conjE) (intro exI conjI)
qed


text \<open>Safety on arbitrary lines: the rest of a terminated line stays terminated.\<close>

fun step_safe :: "nat \<Rightarrow> split_step \<Rightarrow> bool" where
  "step_safe n (Stop p s) \<longleftrightarrow> 0 \<in> set p \<and> sds_ok s \<and> length p \<le> n"
| "step_safe n (Step p q s) \<longleftrightarrow> 0 \<in> set p \<and> sds_ok s \<and> length (sds_str s) + length p \<le> n"
| "step_safe n Bad \<longleftrightarrow> True"

lemma advance_terminated: "0 \<in> set (c # p) \<Longrightarrow> advance (c # p) = Some (if c \<noteq> 0 then p else c # p)"
  by (simp add: advance_def load_def)

lemma terminated_tl: "0 \<in> set (c # p) \<Longrightarrow> c \<noteq> 0 \<Longrightarrow> 0 \<in> set p"
  by auto

lemma close_quote_safe:
  assumes "0 \<in> set (c # p)" "c \<noteq> 0" "sds_ok s"
  shows "\<exists>st. close_quote (c # p) s = Some st \<and> step_safe (length (sds_str s) + length (c # p)) st"
proof -
  obtain d p' where "p = d # p'"
    using assms(1,2) by (cases p) auto
  then show ?thesis
    using assms by (auto simp: close_quote_def load_def advance_Cons)
qed

lemma hex_escape_safe:
  assumes "0 \<in> set p"
  shows "\<exists>h. hex_escape p = Some h" "hex_escape p = Some True \<Longrightarrow> \<exists>x y p4. p = 92 # 120 # x # y # p4 \<and> x \<noteq> 0 \<and> y \<noteq> 0"
proof -
  obtain c p1 where p: "p = c # p1"
    using assms by (cases p) auto
  have "(\<exists>h. hex_escape p = Some h) \<and> (hex_escape p = Some True \<longrightarrow> (\<exists>x y p4. p = 92 # 120 # x # y # p4 \<and> x \<noteq> 0 \<and> y \<noteq> 0))"
  proof (cases "\<exists>x p3. p = 92 # 120 # x # p3 \<and> is_hex_digit x")
    case True
    then obtain x p3 where x: "p = 92 # 120 # x # p3" "is_hex_digit x"
      by blast
    then obtain y p4 where "p3 = y # p4"
      using assms is_hex_digit_nonzero [of x] by (cases p3) auto
    then show ?thesis
      using x is_hex_digit_nonzero by (auto simp: hex_escape_def load_def)
  next
    case no: False
    have "hex_escape p = Some False"
    proof (cases "c = 92 \<and> hd p1 = 120")
      case True
      then obtain p2 where p1: "p1 = 120 # p2"
        using assms unfolding p by (cases p1) auto
      then obtain x p3 where "p2 = x # p3"
        using assms True unfolding p by (cases p2) auto
      then show ?thesis
        using no True p p1 by (simp add: hex_escape_def load_def)
    next
      case False
      then show ?thesis
        using assms p by (cases p1) (auto simp: hex_escape_def load_def)
    qed
    then show ?thesis
      by auto
  qed
  then show "\<exists>h. hex_escape p = Some h" "hex_escape p = Some True \<Longrightarrow> \<exists>x y p4. p = 92 # 120 # x # y # p4 \<and> x \<noteq> 0 \<and> y \<noteq> 0"
    by blast+
qed

lemma split_turn_safe:
  assumes "0 \<in> set p" "sds_ok s" "length (sds_str s) + 1 < 2 ^ 31"
  shows "\<exists>st. split_turn fill p q s = Some st \<and> step_safe (length (sds_str s) + length p) st"
proof -
  obtain c p1 where p: "p = c # p1"
    using assms(1) by (cases p) auto
  have cat: "\<exists>s'. sdscatlen fill s [x] 1 = Some s' \<and> sds_ok s' \<and> sds_str s' = sds_str s @ [x]" for x
    using sds.catE [OF assms(2), of "[x]" fill] assms(3) by auto
  have first: "sdscatlen fill s p 1 = sdscatlen fill s [c] 1"
    unfolding p by (rule sdscatlen_first)
  show ?thesis
  proof (cases q)
    case Plain
    then show ?thesis
      using assms(1,2) cat [of c] first unfolding p
      by (auto simp: split_turn_def split_plain_def load_def advance_terminated)
  next
    case Single
    show ?thesis
    proof (cases "\<exists>p2. p1 = 39 # p2 \<and> c = 92")
      case True
      then show ?thesis
        using Single assms(1,2) cat [of 39] unfolding p
        by (auto simp: split_turn_def split_single_def pair_test_def load_def advance_terminated)
    next
      case False
      then have "pair_test p 92 (\<lambda>c. c = 39) = Some False"
        using assms(1) unfolding p by (cases p1) (auto simp: pair_test_def load_def)
      then show ?thesis
        using Single assms(1,2) cat [of c] first close_quote_safe [of c p1 s] unfolding p
        by (auto simp: split_turn_def split_single_def load_def advance_terminated)
    qed
  next
    case Double
    note hex = hex_escape_safe [OF assms(1)]
    have esc: "\<exists>h. pair_test p 92 (\<lambda>c. c \<noteq> 0) = Some h" "pair_test p 92 (\<lambda>c. c \<noteq> 0) = Some True \<Longrightarrow> \<exists>x p2. p = 92 # x # p2 \<and> x \<noteq> 0"
      using assms(1) unfolding p by (cases p1; auto simp: pair_test_def load_def split: if_splits)+
    obtain h e where he: "hex_escape p = Some h" "pair_test p 92 (\<lambda>c. c \<noteq> 0) = Some e"
      using hex(1) esc(1) by blast
    consider (hex) "h" | (esc) "\<not> h" "e" | (other) "\<not> h" "\<not> e"
      by blast
    then show ?thesis
    proof cases
      case hex
      then obtain x y p4 where "p = 92 # 120 # x # y # p4" "x \<noteq> 0" "y \<noteq> 0"
        using \<open>hex_escape p = Some h\<close> hex_escape_safe(2) [OF assms(1)] by auto
      then have "load p 2 = Some x" "load p 3 = Some y" "advance (drop 3 p) = Some p4" "0 \<in> set p4" "length p4 + 4 = length p"
        using assms(1) by (auto simp: load_def advance_Cons)
      then show ?thesis
        using Double hex he(1) assms(2) cat [of "of_nat (hex_digit_to_int x * 16 + hex_digit_to_int y)"]
        by (auto simp: split_turn_def split_double_def)
    next
      case esc
      then obtain x p2 where "p = 92 # x # p2" "x \<noteq> 0"
        using he(2) \<open>pair_test p 92 (\<lambda>c. c \<noteq> 0) = Some True \<Longrightarrow> _\<close> by auto
      then show ?thesis
        using Double esc he assms(1,2) cat [of "unescape x"]
        by (auto simp: split_turn_def split_double_def load_def advance_terminated)
    next
      case other
      then show ?thesis
        using Double he assms(1,2) cat [of c] first close_quote_safe [of c p1 s] unfolding p
        by (auto simp: split_turn_def split_double_def load_def advance_terminated)
    qed
  qed
qed

lemma token_loop_safe:
  assumes "0 \<in> set p" "sds_ok s" "length (sds_str s) + length p < 2 ^ 31"
  shows "token_loop fill p q s = Some None \<or>
    (\<exists>p' s'. token_loop fill p q s = Some (Some (p', s')) \<and> 0 \<in> set p' \<and> sds_ok s')"
  using assms
proof (induction fill p q s rule: token_loop.induct)
  case (1 fill p q s)
  have "length (sds_str s) + 1 < 2 ^ 31"
    using "1.prems"(1,3) by (cases p) auto
  then obtain st where st: "split_turn fill p q s = Some st" "step_safe (length (sds_str s) + length p) st"
    using split_turn_safe [OF "1.prems"(1,2), of fill q] by blast
  show ?case
  proof (cases st)
    case (Step p' q' s')
    then show ?thesis
      using "1.IH" [OF st(1) Step] st "1.prems"(3) token_loop.simps [of fill p q s] by auto
  qed (use st in \<open>simp_all add: token_loop.simps [of fill p q s]\<close>)
qed

lemma skip_blanks_safe: "0 \<in> set p \<Longrightarrow> \<exists>c p'. skip_blanks p = Some (c # p') \<and> 0 \<in> set (c # p')"
  by (induction p rule: skip_blanks.induct) auto

lemma args_loop_safe:
  assumes "0 \<in> set p" "length p < 2 ^ 31" "\<forall>t\<in>set vector. sds_ok t"
  shows "args_loop fill p vector = Some None \<or> (\<exists>toks. args_loop fill p vector = Some (Some toks) \<and> (\<forall>t\<in>set toks. sds_ok t))"
  using assms
proof (induction fill p vector rule: args_loop.induct)
  case (1 fill p vector)
  obtain c p' where p': "skip_blanks p = Some (c # p')" "0 \<in> set (c # p')"
    using skip_blanks_safe [OF "1.prems"(1)] by blast
  have l: "load (c # p') 0 = Some c"
    by (simp add: load_def)
  obtain e where e: "sdsempty fill = Some e" "sds_ok e" "sds_str e = []"
    using sdsempty_ok by blast
  have len: "length (c # p') < 2 ^ 31"
    using skip_blanks_length [OF p'(1)] "1.prems"(2) by linarith
  show ?case
  proof (cases "c = 0")
    case True
    then show ?thesis
      using "1.prems"(3) p'(1) l by (simp add: args_loop.simps [of fill p])
  next
    case False
    have "token_loop fill (c # p') Plain e = Some None \<or>
      (\<exists>p2 s'. token_loop fill (c # p') Plain e = Some (Some (p2, s')) \<and> 0 \<in> set p2 \<and> sds_ok s')"
      using token_loop_safe [OF p'(2) e(2)] len e(3) by simp
    then show ?thesis
    proof (elim disjE exE conjE)
      assume "token_loop fill (c # p') Plain e = Some None"
      then show ?thesis
        using p'(1) l e(1) False by (simp add: args_loop.simps [of fill p])
    next
      fix p2 s'
      assume t: "token_loop fill (c # p') Plain e = Some (Some (p2, s'))" "0 \<in> set p2" "sds_ok s'"
      then have "length p2 < 2 ^ 31"
        using token_loop_length(1) [OF t(1)] len by linarith
      then show ?thesis
        using "1.IH" [OF p'(1) l False e(1) t(1) refl refl t(2)] t(3) "1.prems"(3) p'(1) l e(1) t(1) False
        by (simp add: args_loop.simps [of fill p])
    qed
  qed
qed

text \<open>C28:
  Splitting any zero terminated line shorter than 2 GB returns, without ever reading behind the
  terminator, however its quotes and escapes are cut short: either \<open>NULL\<close> for unbalanced quotes or
  a vector of well formed strings.
\<close>

theorem sdssplitargs_safe:
  assumes "0 \<in> set line" "length line < 2 ^ 31"
  shows "sdssplitargs fill line = Some None \<or> (\<exists>toks. sdssplitargs fill line = Some (Some toks) \<and> (\<forall>t\<in>set toks. sds_ok t))"
  using args_loop_safe [OF assms, of "[]" fill] by (simp add: sdssplitargs_def)

theorem sdssplitargs_safe_witness:
  "\<exists>r. sdssplitargs (\<lambda>_. 0) [34, 92, 120, 0] = Some r"
  using sdssplitargs_safe [of "[34, 92, 120, 0]" "\<lambda>_. 0"] by auto

end
