(* ===== verification/Ziplist.thy ===== *)
theory Ziplist
  imports Memory Util_Numbers
begin

text \<open>
  \<^verbatim>\<open>redis-3.0.0/src/ziplist.c\<close>: a list of strings and integers in one block of memory, function by
  function. The block is a list of bytes and a pointer into it an offset; an access outside
  the block, a failed assertion and a loop that does not end are the outer \<open>None\<close>. Bytes that a
  resize adds are arbitrary (\<open>fill\<close>). The host is little endian, so the \<open>...ifbe\<close> conversions do
  nothing. \<open>Ziplist_Entries\<close>, \<open>Ziplist_Updates\<close> and \<open>Ziplist_Refinement\<close> hold the proofs.
\<close>

unbundle bit_operations_syntax

section \<open>Constants and header fields\<close>

definition ZIP_END :: byte where "ZIP_END = 255"
definition ZIP_BIGLEN :: nat where "ZIP_BIGLEN = 254"
definition ZIP_STR_MASK :: byte where "ZIP_STR_MASK = 0xc0"
definition ZIP_STR_06B :: byte where "ZIP_STR_06B = push_bit 6 0"
definition ZIP_STR_14B :: byte where "ZIP_STR_14B = push_bit 6 1"
definition ZIP_STR_32B :: byte where "ZIP_STR_32B = push_bit 6 2"
definition ZIP_INT_16B :: byte where "ZIP_INT_16B = 0xc0 OR push_bit 4 0"
definition ZIP_INT_32B :: byte where "ZIP_INT_32B = 0xc0 OR push_bit 4 1"
definition ZIP_INT_64B :: byte where "ZIP_INT_64B = 0xc0 OR push_bit 4 2"
definition ZIP_INT_24B :: byte where "ZIP_INT_24B = 0xc0 OR push_bit 4 3"
definition ZIP_INT_8B :: byte where "ZIP_INT_8B = 0xfe"
definition ZIP_INT_IMM_MASK :: byte where "ZIP_INT_IMM_MASK = 0x0f"
definition ZIP_INT_IMM_MIN :: byte where "ZIP_INT_IMM_MIN = 0xf1"
definition ZIP_INT_IMM_MAX :: byte where "ZIP_INT_IMM_MAX = 0xfd"
definition INT24_MAX :: int where "INT24_MAX = 0x7fffff"
definition INT24_MIN :: int where "INT24_MIN = - INT24_MAX - 1"

definition ZIP_IS_STR :: "byte \<Rightarrow> bool" where
  "ZIP_IS_STR enc \<longleftrightarrow> enc AND ZIP_STR_MASK < ZIP_STR_MASK"

definition ZIPLIST_BYTES :: "byte list \<Rightarrow> nat option" where
  "ZIPLIST_BYTES zl = do { f \<leftarrow> load_n zl 0 4; Some (nat (le_uint f)) }"

definition ZIPLIST_TAIL_OFFSET :: "byte list \<Rightarrow> nat option" where
  "ZIPLIST_TAIL_OFFSET zl = do { f \<leftarrow> load_n zl 4 4; Some (nat (le_uint f)) }"

definition ZIPLIST_LENGTH :: "byte list \<Rightarrow> nat option" where
  "ZIPLIST_LENGTH zl = do { f \<leftarrow> load_n zl 8 2; Some (nat (le_uint f)) }"

definition ZIPLIST_HEADER_SIZE :: nat where "ZIPLIST_HEADER_SIZE = 4 * 2 + 2"

text \<open>Assignments to the three fields.\<close>

definition set_ZIPLIST_BYTES :: "byte list \<Rightarrow> nat \<Rightarrow> byte list option" where
  "set_ZIPLIST_BYTES zl n = store_n zl 0 (le_bytes 4 (int n))"

definition set_ZIPLIST_TAIL_OFFSET :: "byte list \<Rightarrow> nat \<Rightarrow> byte list option" where
  "set_ZIPLIST_TAIL_OFFSET zl n = store_n zl 4 (le_bytes 4 (int n))"

definition set_ZIPLIST_LENGTH :: "byte list \<Rightarrow> nat \<Rightarrow> byte list option" where
  "set_ZIPLIST_LENGTH zl n = store_n zl 8 (le_bytes 2 (int n))"

definition ZIPLIST_ENTRY_HEAD :: nat where "ZIPLIST_ENTRY_HEAD = ZIPLIST_HEADER_SIZE"

definition ZIPLIST_ENTRY_TAIL :: "byte list \<Rightarrow> nat option" where
  "ZIPLIST_ENTRY_TAIL zl = ZIPLIST_TAIL_OFFSET zl"

definition ZIPLIST_ENTRY_END :: "byte list \<Rightarrow> nat option" where
  "ZIPLIST_ENTRY_END zl = do { n \<leftarrow> ZIPLIST_BYTES zl; Some (n - 1) }"

definition UINT16_MAX :: nat where "UINT16_MAX = 65535"

definition ZIPLIST_INCR_LENGTH :: "byte list \<Rightarrow> int \<Rightarrow> byte list option" where
  "ZIPLIST_INCR_LENGTH zl incr = do {
     n \<leftarrow> ZIPLIST_LENGTH zl;
     if n < UINT16_MAX then set_ZIPLIST_LENGTH zl (nat ((int n + incr) mod 2 ^ 16)) else Some zl }"

text \<open>Differences of \<open>size_t\<close> values wrap around; \<open>p - d\<close> for a signed \<open>d\<close> must not leave the block.\<close>

definition usub64 :: "nat \<Rightarrow> nat \<Rightarrow> nat" where
  "usub64 a b = nat ((int a - int b) mod 2 ^ 64)"

definition ptr_sub :: "nat \<Rightarrow> int \<Rightarrow> nat option" where
  "ptr_sub p d = (if d \<le> int p then Some (nat (int p - d)) else None)"

section \<open>Entries\<close>

record zlentry =
  prevrawlensize :: nat
  prevrawlen :: nat
  lensize :: nat
  zl_len :: nat
  headersize :: nat
  zl_encoding :: byte
  zl_p :: nat

definition ZIP_ENTRY_ENCODING :: "byte list \<Rightarrow> nat \<Rightarrow> byte option" where
  "ZIP_ENTRY_ENCODING zl ptr = do {
     enc \<leftarrow> load zl ptr;
     Some (if enc < ZIP_STR_MASK then enc AND ZIP_STR_MASK else enc) }"

definition zipIntSize :: "byte \<Rightarrow> nat" where
  "zipIntSize encoding =
     (if encoding = ZIP_INT_8B then 1
      else if encoding = ZIP_INT_16B then 2
      else if encoding = ZIP_INT_24B then 3
      else if encoding = ZIP_INT_32B then 4
      else if encoding = ZIP_INT_64B then 8
      else 0)"

text \<open>
  \<open>zipEncodeLength\<close> gives the length and the bytes of its buffer; with a null \<open>p\<close> only the length
  is used, otherwise the bytes are stored (\<open>zipEncodeLength_at\<close>).
\<close>

definition zipEncodeLength :: "byte \<Rightarrow> nat \<Rightarrow> nat \<times> byte list" where
  "zipEncodeLength encoding rawlen =
     (if ZIP_IS_STR encoding then
        if rawlen \<le> 0x3f then (1, [ZIP_STR_06B OR u8 rawlen])
        else if rawlen \<le> 0x3fff then
          (2, [ZIP_STR_14B OR u8 (drop_bit 8 rawlen AND 0x3f), u8 (rawlen AND 0xff)])
        else
          (5, [ZIP_STR_32B, u8 (drop_bit 24 rawlen AND 0xff), u8 (drop_bit 16 rawlen AND 0xff),
               u8 (drop_bit 8 rawlen AND 0xff), u8 (rawlen AND 0xff)])
      else (1, [encoding]))"

definition zipEncodeLength_at :: "byte list \<Rightarrow> nat \<Rightarrow> byte \<Rightarrow> nat \<Rightarrow> (byte list \<times> nat) option" where
  "zipEncodeLength_at zl p encoding rawlen = do {
     zl \<leftarrow> store_n zl p (snd (zipEncodeLength encoding rawlen));
     Some (zl, fst (zipEncodeLength encoding rawlen)) }"

text \<open>\<open>ZIP_DECODE_LENGTH\<close> gives the encoding, the size of the length field and the length.\<close>

definition ZIP_DECODE_LENGTH :: "byte list \<Rightarrow> nat \<Rightarrow> (byte \<times> nat \<times> nat) option" where
  "ZIP_DECODE_LENGTH zl ptr = do {
     encoding \<leftarrow> ZIP_ENTRY_ENCODING zl ptr;
     if encoding < ZIP_STR_MASK then
       if encoding = ZIP_STR_06B then do {
         b0 \<leftarrow> load zl ptr;
         Some (encoding, 1, unat (b0 AND 0x3f)) }
       else if encoding = ZIP_STR_14B then do {
         b0 \<leftarrow> load zl ptr;
         b1 \<leftarrow> load zl (ptr + 1);
         Some (encoding, 2, push_bit 8 (unat (b0 AND 0x3f)) OR unat b1) }
       else if encoding = ZIP_STR_32B then do {
         b1 \<leftarrow> load zl (ptr + 1);
         b2 \<leftarrow> load zl (ptr + 2);
         b3 \<leftarrow> load zl (ptr + 3);
         b4 \<leftarrow> load zl (ptr + 4);
         Some (encoding, 5,
           push_bit 24 (unat b1) OR push_bit 16 (unat b2) OR push_bit 8 (unat b3) OR unat b4) }
       else None
     else Some (encoding, 1, zipIntSize encoding) }"

text \<open>\<open>zipPrevEncodeLength\<close> with a null \<open>p\<close> is \<open>zipPrevEncodeLength_size\<close>.\<close>

definition zipPrevEncodeLength_size :: "nat \<Rightarrow> nat" where
  "zipPrevEncodeLength_size len = (if len < ZIP_BIGLEN then 1 else 4 + 1)"

definition zipPrevEncodeLengthForceLarge :: "byte list \<Rightarrow> nat \<Rightarrow> nat \<Rightarrow> byte list option" where
  "zipPrevEncodeLengthForceLarge zl p len = do {
     zl \<leftarrow> store zl p (u8 ZIP_BIGLEN);
     store_n zl (p + 1) (le_bytes 4 (int len)) }"

definition zipPrevEncodeLength :: "byte list \<Rightarrow> nat \<Rightarrow> nat \<Rightarrow> (byte list \<times> nat) option" where
  "zipPrevEncodeLength zl p len =
     (if len < ZIP_BIGLEN then do {
        zl \<leftarrow> store zl p (u8 len);
        Some (zl, 1) }
      else do {
        zl \<leftarrow> store zl p (u8 ZIP_BIGLEN);
        zl \<leftarrow> store_n zl (p + 1) (le_bytes 4 (int len));
        Some (zl, 1 + 4) })"

definition ZIP_DECODE_PREVLENSIZE :: "byte list \<Rightarrow> nat \<Rightarrow> nat option" where
  "ZIP_DECODE_PREVLENSIZE zl ptr = do {
     b \<leftarrow> load zl ptr;
     Some (if unat b < ZIP_BIGLEN then 1 else 5) }"

definition ZIP_DECODE_PREVLEN :: "byte list \<Rightarrow> nat \<Rightarrow> (nat \<times> nat) option" where
  "ZIP_DECODE_PREVLEN zl ptr = do {
     prevlensize \<leftarrow> ZIP_DECODE_PREVLENSIZE zl ptr;
     if prevlensize = 1 then do { b \<leftarrow> load zl ptr; Some (prevlensize, unat b) }
     else do { f \<leftarrow> load_n zl (ptr + 1) 4; Some (prevlensize, nat (le_uint f)) } }"

definition zipPrevLenByteDiff :: "byte list \<Rightarrow> nat \<Rightarrow> nat \<Rightarrow> int option" where
  "zipPrevLenByteDiff zl p len = do {
     prevlensize \<leftarrow> ZIP_DECODE_PREVLENSIZE zl p;
     Some (int (zipPrevEncodeLength_size len) - int prevlensize) }"

definition zipRawEntryLength :: "byte list \<Rightarrow> nat \<Rightarrow> nat option" where
  "zipRawEntryLength zl p = do {
     prevlensize \<leftarrow> ZIP_DECODE_PREVLENSIZE zl p;
     (encoding, lensize, len) \<leftarrow> ZIP_DECODE_LENGTH zl (p + prevlensize);
     Some (u32 (prevlensize + lensize + len)) }"

definition zip_int_encoding :: "int \<Rightarrow> byte" where
  "zip_int_encoding value =
     (if 0 \<le> value \<and> value \<le> 12 then ZIP_INT_IMM_MIN + of_int value
      else if - (2 ^ 7) \<le> value \<and> value \<le> 2 ^ 7 - 1 then ZIP_INT_8B
      else if - (2 ^ 15) \<le> value \<and> value \<le> 2 ^ 15 - 1 then ZIP_INT_16B
      else if INT24_MIN \<le> value \<and> value \<le> INT24_MAX then ZIP_INT_24B
      else if - (2 ^ 31) \<le> value \<and> value \<le> 2 ^ 31 - 1 then ZIP_INT_32B
      else ZIP_INT_64B)"

definition zipTryEncoding :: "byte list \<Rightarrow> (int \<times> byte) option" where
  "zipTryEncoding entry =
     (if 32 \<le> length entry \<or> length entry = 0 then None
      else case string2ll entry of
        None \<Rightarrow> None
      | Some value \<Rightarrow> Some (value, zip_int_encoding value))"

definition zipSaveInteger :: "byte list \<Rightarrow> nat \<Rightarrow> int \<Rightarrow> byte \<Rightarrow> byte list option" where
  "zipSaveInteger zl p value encoding =
     (if encoding = ZIP_INT_8B then store zl p (of_int value)
      else if encoding = ZIP_INT_16B then store_n zl p (le_bytes 2 (to_signed 16 value))
      else if encoding = ZIP_INT_24B then
        store_n zl p (tl (le_bytes 4 (to_signed 32 (push_bit 8 value))))
      else if encoding = ZIP_INT_32B then store_n zl p (le_bytes 4 (to_signed 32 value))
      else if encoding = ZIP_INT_64B then store_n zl p (le_bytes 8 value)
      else if ZIP_INT_IMM_MIN \<le> encoding \<and> encoding \<le> ZIP_INT_IMM_MAX then Some zl
      else None)"

definition zipLoadInteger :: "byte list \<Rightarrow> nat \<Rightarrow> byte \<Rightarrow> int option" where
  "zipLoadInteger zl p encoding =
     (if encoding = ZIP_INT_8B then do { b \<leftarrow> load zl p; Some (sint b) }
      else if encoding = ZIP_INT_16B then do { f \<leftarrow> load_n zl p 2; Some (le_sint f) }
      else if encoding = ZIP_INT_32B then do { f \<leftarrow> load_n zl p 4; Some (le_sint f) }
      else if encoding = ZIP_INT_24B then do {
        f \<leftarrow> load_n zl p 3;
        Some (drop_bit 8 (le_sint (0 # f))) }
      else if encoding = ZIP_INT_64B then do { f \<leftarrow> load_n zl p 8; Some (le_sint f) }
      else if ZIP_INT_IMM_MIN \<le> encoding \<and> encoding \<le> ZIP_INT_IMM_MAX then
        Some (int (unat (encoding AND ZIP_INT_IMM_MASK)) - 1)
      else None)"

definition zipEntry :: "byte list \<Rightarrow> nat \<Rightarrow> zlentry option" where
  "zipEntry zl p = do {
     (prevrawlensize, prevrawlen) \<leftarrow> ZIP_DECODE_PREVLEN zl p;
     (encoding, lensize, len) \<leftarrow> ZIP_DECODE_LENGTH zl (p + prevrawlensize);
     Some \<lparr>prevrawlensize = prevrawlensize, prevrawlen = prevrawlen, lensize = lensize, zl_len = len,
       headersize = prevrawlensize + lensize, zl_encoding = encoding, zl_p = p\<rparr> }"

section \<open>Creation and resizing\<close>

definition ziplistNew :: "(nat \<Rightarrow> byte) \<Rightarrow> byte list option" where
  "ziplistNew fill = do {
     let bytes = ZIPLIST_HEADER_SIZE + 1;
     zl \<leftarrow> set_ZIPLIST_BYTES (map fill [0..<bytes]) bytes;
     zl \<leftarrow> set_ZIPLIST_TAIL_OFFSET zl ZIPLIST_HEADER_SIZE;
     zl \<leftarrow> set_ZIPLIST_LENGTH zl 0;
     store zl (bytes - 1) ZIP_END }"

definition ziplistResize :: "(nat \<Rightarrow> byte) \<Rightarrow> byte list \<Rightarrow> nat \<Rightarrow> byte list option" where
  "ziplistResize fill zl len = do {
     let zl = zrealloc fill zl len;
     zl \<leftarrow> set_ZIPLIST_BYTES zl len;
     store zl (len - 1) ZIP_END }"

section \<open>Cascading update\<close>

text \<open>The growing branch of the loop: the tail moves back and the next entry gets a five byte field.\<close>

definition cascade_grow ::
  "(nat \<Rightarrow> byte) \<Rightarrow> byte list \<Rightarrow> nat \<Rightarrow> nat \<Rightarrow> nat \<Rightarrow> nat \<Rightarrow> zlentry \<Rightarrow> byte list option" where
  "cascade_grow fill zl curlen p rawlen rawlensize nxt = do {
     let extra = rawlensize - prevrawlensize nxt;
     zl \<leftarrow> ziplistResize fill zl (u32 (curlen + extra));
     let np = p + rawlen;
     tail \<leftarrow> ZIPLIST_TAIL_OFFSET zl;
     zl \<leftarrow> (if tail \<noteq> np then set_ZIPLIST_TAIL_OFFSET zl (u32 (tail + extra)) else Some zl);
     zl \<leftarrow> move_n zl (np + rawlensize) (np + prevrawlensize nxt)
       (usub64 curlen (np + prevrawlensize nxt + 1));
     (zl, _) \<leftarrow> zipPrevEncodeLength zl np rawlen;
     Some zl }"

partial_function (option) cascade_loop ::
  "(nat \<Rightarrow> byte) \<Rightarrow> byte list \<Rightarrow> nat \<Rightarrow> nat \<Rightarrow> byte list option" where
  "cascade_loop fill zl curlen p = do {
     b \<leftarrow> load zl p;
     if b = ZIP_END then Some zl
     else do {
       cur \<leftarrow> zipEntry zl p;
       let rawlen = u32 (headersize cur + zl_len cur);
       let rawlensize = zipPrevEncodeLength_size rawlen;
       b \<leftarrow> load zl (p + rawlen);
       if b = ZIP_END then Some zl
       else do {
         nxt \<leftarrow> zipEntry zl (p + rawlen);
         if prevrawlen nxt = rawlen then Some zl
         else if prevrawlensize nxt < rawlensize then do {
           zl \<leftarrow> cascade_grow fill zl curlen p rawlen rawlensize nxt;
           cascade_loop fill zl (curlen + (rawlensize - prevrawlensize nxt)) (p + rawlen) }
         else if prevrawlensize nxt > rawlensize then
           zipPrevEncodeLengthForceLarge zl (p + rawlen) rawlen
         else do { (zl, _) \<leftarrow> zipPrevEncodeLength zl (p + rawlen) rawlen; Some zl } } } }"

definition ziplistCascadeUpdate :: "(nat \<Rightarrow> byte) \<Rightarrow> byte list \<Rightarrow> nat \<Rightarrow> byte list option" where
  "ziplistCascadeUpdate fill zl p = do {
     curlen \<leftarrow> ZIPLIST_BYTES zl;
     cascade_loop fill zl curlen p }"

section \<open>Deletion\<close>

fun skip_entries :: "byte list \<Rightarrow> nat \<Rightarrow> nat \<Rightarrow> nat \<Rightarrow> (nat \<times> nat) option" where
  "skip_entries zl p deleted n = do {
     b \<leftarrow> load zl p;
     if b \<noteq> ZIP_END then
       (case n of
          0 \<Rightarrow> Some (p, deleted)
        | Suc n \<Rightarrow> do {
            raw \<leftarrow> zipRawEntryLength zl p;
            skip_entries zl (p + raw) (deleted + 1) n })
     else Some (p, deleted) }"

declare skip_entries.simps [simp del]

text \<open>
  The two branches of \<open>__ziplistDelete\<close> that close the gap between \<open>first\<close> and \<open>p\<close>; each gives the block and
  \<open>nextdiff\<close>.
\<close>

definition delete_move :: "byte list \<Rightarrow> zlentry \<Rightarrow> nat \<Rightarrow> nat \<Rightarrow> (byte list \<times> int) option" where
  "delete_move zl first p totlen = do {
     nextdiff \<leftarrow> zipPrevLenByteDiff zl p (prevrawlen first);
     p \<leftarrow> ptr_sub p nextdiff;
     (zl, _) \<leftarrow> zipPrevEncodeLength zl p (prevrawlen first);
     tailoff \<leftarrow> ZIPLIST_TAIL_OFFSET zl;
     zl \<leftarrow> set_ZIPLIST_TAIL_OFFSET zl (usub32 tailoff totlen);
     tail \<leftarrow> zipEntry zl p;
     b \<leftarrow> load zl (p + u32 (headersize tail + zl_len tail));
     zl \<leftarrow> (if b \<noteq> ZIP_END then do {
              tailoff \<leftarrow> ZIPLIST_TAIL_OFFSET zl;
              set_ZIPLIST_TAIL_OFFSET zl (nat ((int tailoff + nextdiff) mod 2 ^ 32)) }
            else Some zl);
     bytes \<leftarrow> ZIPLIST_BYTES zl;
     zl \<leftarrow> move_n zl (zl_p first) p (usub64 bytes (p + 1));
     Some (zl, nextdiff) }"

definition delete_tail :: "byte list \<Rightarrow> zlentry \<Rightarrow> (byte list \<times> int) option" where
  "delete_tail zl first = do {
     zl \<leftarrow> set_ZIPLIST_TAIL_OFFSET zl (usub32 (zl_p first) (prevrawlen first));
     Some (zl, 0) }"

definition ziplistDelete_num :: "(nat \<Rightarrow> byte) \<Rightarrow> byte list \<Rightarrow> nat \<Rightarrow> nat \<Rightarrow> byte list option" where
  "ziplistDelete_num fill zl p num = do {
     first \<leftarrow> zipEntry zl p;
     (p, deleted) \<leftarrow> skip_entries zl p 0 num;
     let totlen = u32 (p - zl_p first);
     if 0 < totlen then do {
       b \<leftarrow> load zl p;
       (zl, nextdiff) \<leftarrow> (if b \<noteq> ZIP_END then delete_move zl first p totlen else delete_tail zl first);
       let offset = zl_p first;
       bytes \<leftarrow> ZIPLIST_BYTES zl;
       zl \<leftarrow> ziplistResize fill zl (nat ((int bytes - int totlen + nextdiff) mod 2 ^ 32));
       zl \<leftarrow> ZIPLIST_INCR_LENGTH zl (- int deleted);
       if nextdiff \<noteq> 0 then ziplistCascadeUpdate fill zl offset else Some zl }
     else Some zl }"

section \<open>Insertion\<close>

definition insert_prevlen :: "byte list \<Rightarrow> nat \<Rightarrow> nat option" where
  "insert_prevlen zl p = do {
     b \<leftarrow> load zl p;
     if b \<noteq> ZIP_END then do { (_, prevlen) \<leftarrow> ZIP_DECODE_PREVLEN zl p; Some prevlen }
     else do {
       ptail \<leftarrow> ZIPLIST_ENTRY_TAIL zl;
       b \<leftarrow> load zl ptail;
       if b \<noteq> ZIP_END then zipRawEntryLength zl ptail else Some 0 } }"

text \<open>The memory move and the new tail offset, in the block that has been resized.\<close>

definition insert_move :: "byte list \<Rightarrow> nat \<Rightarrow> nat \<Rightarrow> nat \<Rightarrow> int \<Rightarrow> byte list option" where
  "insert_move zl p curlen reqlen nextdiff = do {
     b \<leftarrow> load zl p;
     if b \<noteq> ZIP_END then do {
       src \<leftarrow> ptr_sub p nextdiff;
       zl \<leftarrow> move_n zl (p + reqlen) src (nat ((int curlen - int p - 1 + nextdiff) mod 2 ^ 64));
       (zl, _) \<leftarrow> zipPrevEncodeLength zl (p + reqlen) (u32 reqlen);
       tailoff \<leftarrow> ZIPLIST_TAIL_OFFSET zl;
       zl \<leftarrow> set_ZIPLIST_TAIL_OFFSET zl (u32 (tailoff + reqlen));
       tail \<leftarrow> zipEntry zl (p + reqlen);
       b \<leftarrow> load zl (p + (reqlen + headersize tail + zl_len tail));
       if b \<noteq> ZIP_END then do {
         tailoff \<leftarrow> ZIPLIST_TAIL_OFFSET zl;
         set_ZIPLIST_TAIL_OFFSET zl (nat ((int tailoff + nextdiff) mod 2 ^ 32)) }
       else Some zl }
     else set_ZIPLIST_TAIL_OFFSET zl (u32 p) }"

definition insert_write :: "byte list \<Rightarrow> nat \<Rightarrow> nat \<Rightarrow> byte list \<Rightarrow> int \<Rightarrow> byte \<Rightarrow> byte list option" where
  "insert_write zl p prevlen s value encoding = do {
     (zl, n) \<leftarrow> zipPrevEncodeLength zl p prevlen;
     let p = p + n;
     (zl, n) \<leftarrow> zipEncodeLength_at zl p encoding (length s);
     let p = p + n;
     if ZIP_IS_STR encoding then store_n zl p s else zipSaveInteger zl p value encoding }"

definition ziplistInsert_at :: "(nat \<Rightarrow> byte) \<Rightarrow> byte list \<Rightarrow> nat \<Rightarrow> byte list \<Rightarrow> byte list option" where
  "ziplistInsert_at fill zl p s = do {
     curlen \<leftarrow> ZIPLIST_BYTES zl;
     prevlen \<leftarrow> insert_prevlen zl p;
     let (value, encoding) = (case zipTryEncoding s of Some ve \<Rightarrow> ve | None \<Rightarrow> (123456789, 0));
     let reqlen = (if zipTryEncoding s \<noteq> None then zipIntSize encoding else length s);
     let reqlen = reqlen + zipPrevEncodeLength_size prevlen;
     let reqlen = reqlen + fst (zipEncodeLength encoding (length s));
     b \<leftarrow> load zl p;
     nextdiff \<leftarrow> (if b \<noteq> ZIP_END then zipPrevLenByteDiff zl p (u32 reqlen) else Some 0);
     zl \<leftarrow> ziplistResize fill zl (nat ((int curlen + int reqlen + nextdiff) mod 2 ^ 32));
     zl \<leftarrow> insert_move zl p curlen reqlen nextdiff;
     zl \<leftarrow> (if nextdiff \<noteq> 0 then ziplistCascadeUpdate fill zl (p + reqlen) else Some zl);
     zl \<leftarrow> insert_write zl p prevlen s value encoding;
     ZIPLIST_INCR_LENGTH zl 1 }"

section \<open>Interface\<close>

datatype zl_where = ZIPLIST_HEAD | ZIPLIST_TAIL

definition ziplistPush :: "(nat \<Rightarrow> byte) \<Rightarrow> byte list \<Rightarrow> byte list \<Rightarrow> zl_where \<Rightarrow> byte list option" where
  "ziplistPush fill zl s whr = do {
     p \<leftarrow> (if whr = ZIPLIST_HEAD then Some ZIPLIST_ENTRY_HEAD else ZIPLIST_ENTRY_END zl);
     ziplistInsert_at fill zl p s }"

text \<open>
  The two loops of \<open>ziplistIndex\<close> give the position and what is left of \<open>index\<close>, which \<open>index--\<close> takes
  to \<open>-1\<close> when it was 0. A null pointer is the inner \<open>None\<close>.
\<close>

fun index_back :: "byte list \<Rightarrow> nat \<Rightarrow> nat \<Rightarrow> nat \<Rightarrow> (nat \<times> int) option" where
  "index_back zl p prevlen index =
     (if 0 < prevlen then
        (case index of
           0 \<Rightarrow> Some (p, -1)
         | Suc index \<Rightarrow> do {
             p \<leftarrow> ptr_sub p (int prevlen);
             (_, prevlen) \<leftarrow> ZIP_DECODE_PREVLEN zl p;
             index_back zl p prevlen index })
      else Some (p, int index))"

fun index_forth :: "byte list \<Rightarrow> nat \<Rightarrow> nat \<Rightarrow> (nat \<times> int) option" where
  "index_forth zl p index = do {
     b \<leftarrow> load zl p;
     if b \<noteq> ZIP_END then
       (case index of
          0 \<Rightarrow> Some (p, -1)
        | Suc index \<Rightarrow> do {
            raw \<leftarrow> zipRawEntryLength zl p;
            index_forth zl (p + raw) index })
     else Some (p, int index) }"

declare index_back.simps [simp del] index_forth.simps [simp del]

definition ziplistIndex :: "byte list \<Rightarrow> int \<Rightarrow> nat option option" where
  "ziplistIndex zl index = do {
     (p, index) \<leftarrow>
       (if index < 0 then do {
          let index = to_signed 32 (to_signed 32 (- index) - 1);
          p \<leftarrow> ZIPLIST_ENTRY_TAIL zl;
          b \<leftarrow> load zl p;
          if b \<noteq> ZIP_END then do {
            (_, prevlen) \<leftarrow> ZIP_DECODE_PREVLEN zl p;
            index_back zl p prevlen (nat index) }
          else Some (p, index) }
        else index_forth zl ZIPLIST_ENTRY_HEAD (nat index));
     b \<leftarrow> load zl p;
     Some (if b = ZIP_END \<or> 0 < index then None else Some p) }"

definition ziplistNext :: "byte list \<Rightarrow> nat \<Rightarrow> nat option option" where
  "ziplistNext zl p = do {
     b \<leftarrow> load zl p;
     if b = ZIP_END then Some None
     else do {
       raw \<leftarrow> zipRawEntryLength zl p;
       let p = p + raw;
       b \<leftarrow> load zl p;
       if b = ZIP_END then Some None else Some (Some p) } }"

definition ziplistPrev :: "byte list \<Rightarrow> nat \<Rightarrow> nat option option" where
  "ziplistPrev zl p = do {
     b \<leftarrow> load zl p;
     if b = ZIP_END then do {
       p \<leftarrow> ZIPLIST_ENTRY_TAIL zl;
       b \<leftarrow> load zl p;
       Some (if b = ZIP_END then None else Some p) }
     else if p = ZIPLIST_ENTRY_HEAD then Some None
     else do {
       (_, prevlen) \<leftarrow> ZIP_DECODE_PREVLEN zl p;
       if 0 < prevlen then do { q \<leftarrow> ptr_sub p (int prevlen); Some (Some q) } else None } }"

text \<open>
  \<open>ziplistGet\<close> with both result pointers given: 0 is the inner \<open>None\<close>, otherwise the result is a
  string in the block (position and length) or an integer.
\<close>

datatype zl_got = GotStr nat nat | GotInt int

definition ziplistGet :: "byte list \<Rightarrow> nat option \<Rightarrow> zl_got option option" where
  "ziplistGet zl p =
     (case p of
        None \<Rightarrow> Some None
      | Some p \<Rightarrow> do {
          b \<leftarrow> load zl p;
          if b = ZIP_END then Some None
          else do {
            entry \<leftarrow> zipEntry zl p;
            if ZIP_IS_STR (zl_encoding entry) then
              Some (Some (GotStr (p + headersize entry) (zl_len entry)))
            else do {
              v \<leftarrow> zipLoadInteger zl (p + headersize entry) (zl_encoding entry);
              Some (Some (GotInt v)) } } })"

definition ziplistInsert :: "(nat \<Rightarrow> byte) \<Rightarrow> byte list \<Rightarrow> nat \<Rightarrow> byte list \<Rightarrow> byte list option" where
  "ziplistInsert fill zl p s = ziplistInsert_at fill zl p s"

definition ziplistDelete :: "(nat \<Rightarrow> byte) \<Rightarrow> byte list \<Rightarrow> nat \<Rightarrow> (byte list \<times> nat) option" where
  "ziplistDelete fill zl p = do {
     let offset = p;
     zl \<leftarrow> ziplistDelete_num fill zl p 1;
     Some (zl, offset) }"

definition ziplistDeleteRange :: "(nat \<Rightarrow> byte) \<Rightarrow> byte list \<Rightarrow> nat \<Rightarrow> nat \<Rightarrow> byte list option" where
  "ziplistDeleteRange fill zl index num = do {
     p \<leftarrow> ziplistIndex zl (to_signed 32 (int index));
     case p of None \<Rightarrow> Some zl | Some p \<Rightarrow> ziplistDelete_num fill zl p num }"

definition ziplistCompare :: "byte list \<Rightarrow> nat \<Rightarrow> byte list \<Rightarrow> bool option" where
  "ziplistCompare zl p sstr = do {
     b \<leftarrow> load zl p;
     if b = ZIP_END then Some False
     else do {
       entry \<leftarrow> zipEntry zl p;
       if ZIP_IS_STR (zl_encoding entry) then
         if zl_len entry = length sstr then do {
           m \<leftarrow> load_n zl (p + headersize entry) (length sstr);
           Some (m = sstr) }
         else Some False
       else
         (case zipTryEncoding sstr of
            Some (sval, _) \<Rightarrow> do {
              zval \<leftarrow> zipLoadInteger zl (p + headersize entry) (zl_encoding entry);
              Some (zval = sval) }
          | None \<Rightarrow> Some False) } }"

text \<open>The search state \<open>vencoding\<close>, \<open>vll\<close> and the comparison of one entry; \<open>255\<close> is \<open>UCHAR_MAX\<close>.\<close>

definition find_encode :: "byte list \<Rightarrow> byte \<Rightarrow> int \<Rightarrow> (byte \<times> int) option" where
  "find_encode vstr vencoding vll =
     (if vencoding = 0 then
        case zipTryEncoding vstr of
          Some (v, e) \<Rightarrow> if e = 0 then None else Some (e, v)
        | None \<Rightarrow> Some (255, vll)
      else Some (vencoding, vll))"

definition find_compare ::
  "byte list \<Rightarrow> nat \<Rightarrow> byte \<Rightarrow> nat \<Rightarrow> byte list \<Rightarrow> byte \<Rightarrow> int \<Rightarrow> (bool \<times> byte \<times> int) option" where
  "find_compare zl q encoding len vstr vencoding vll =
     (if ZIP_IS_STR encoding then
        if len = length vstr then do {
          m \<leftarrow> load_n zl q (length vstr);
          Some (m = vstr, vencoding, vll) }
        else Some (False, vencoding, vll)
      else do {
        (vencoding, vll) \<leftarrow> find_encode vstr vencoding vll;
        if vencoding \<noteq> 255 then do {
          ll \<leftarrow> zipLoadInteger zl q encoding;
          Some (ll = vll, vencoding, vll) }
        else Some (False, vencoding, vll) })"

partial_function (option) find_loop ::
  "byte list \<Rightarrow> nat \<Rightarrow> byte list \<Rightarrow> nat \<Rightarrow> int \<Rightarrow> byte \<Rightarrow> int \<Rightarrow> nat option option" where
  "find_loop zl p vstr skip skipcnt vencoding vll = do {
     b \<leftarrow> load zl p;
     if b \<noteq> ZIP_END then do {
       prevlensize \<leftarrow> ZIP_DECODE_PREVLENSIZE zl p;
       (encoding, lensize, len) \<leftarrow> ZIP_DECODE_LENGTH zl (p + prevlensize);
       let q = p + prevlensize + lensize;
       if skipcnt = 0 then do {
         (found, vencoding, vll) \<leftarrow> find_compare zl q encoding len vstr vencoding vll;
         if found then Some (Some p)
         else find_loop zl (q + len) vstr skip (to_signed 32 (int skip)) vencoding vll }
       else find_loop zl (q + len) vstr skip (skipcnt - 1) vencoding vll }
     else Some None }"

definition ziplistFind :: "byte list \<Rightarrow> nat \<Rightarrow> byte list \<Rightarrow> nat \<Rightarrow> nat option option" where
  "ziplistFind zl p vstr skip = find_loop zl p vstr skip 0 0 0"

partial_function (option) len_loop :: "byte list \<Rightarrow> nat \<Rightarrow> nat \<Rightarrow> nat option" where
  "len_loop zl p len = do {
     b \<leftarrow> load zl p;
     if b \<noteq> ZIP_END then do {
       raw \<leftarrow> zipRawEntryLength zl p;
       len_loop zl (p + raw) (u32 (len + 1)) }
     else Some len }"

definition ziplistLen :: "byte list \<Rightarrow> (byte list \<times> nat) option" where
  "ziplistLen zl = do {
     n \<leftarrow> ZIPLIST_LENGTH zl;
     if n < UINT16_MAX then Some (zl, n)
     else do {
       len \<leftarrow> len_loop zl ZIPLIST_HEADER_SIZE 0;
       zl \<leftarrow> (if len < UINT16_MAX then set_ZIPLIST_LENGTH zl len else Some zl);
       Some (zl, len) } }"

definition ziplistBlobLen :: "byte list \<Rightarrow> nat option" where
  "ziplistBlobLen zl = ZIPLIST_BYTES zl"

end
