(* ===== verification/Ziplist_Entries.thy ===== *)
theory Ziplist_Entries
  imports Ziplist
begin

text \<open>
  Entries of a ziplist. A \<open>raw\<close> entry is what the bytes of an entry say: whether the length of the
  previous entry is kept in five bytes (\<open>big\<close>) or one, that length (\<open>prev\<close>), and a value. The
  lemmas evaluate the decoding and encoding functions of \<open>Ziplist\<close> on a block that holds an
  entry, and the header accesses and resizes on a whole block.
\<close>

unbundle bit_operations_syntax

section \<open>Values and entries\<close>

datatype zval = ZStr "byte list" | ZInt int

datatype raw = Raw (big: bool) (prev: nat) (zv: zval)

fun zip_text :: "zval \<Rightarrow> byte list" where
  "zip_text (ZStr s) = s"
| "zip_text (ZInt v) = ll_repr v"

fun zip_body :: "zval \<Rightarrow> byte list" where
  "zip_body (ZStr s) = snd (zipEncodeLength 0 (length s)) @ s"
| "zip_body (ZInt v) = zip_int_encoding v # le_bytes (zipIntSize (zip_int_encoding v)) v"

fun wf_val :: "zval \<Rightarrow> bool" where
  "wf_val (ZStr s) \<longleftrightarrow> length s < 2 ^ 32"
| "wf_val (ZInt v) \<longleftrightarrow> in_signed 64 v"

definition prev_field :: "bool \<Rightarrow> nat \<Rightarrow> byte list" where
  "prev_field b q = (if b then 254 # le_bytes 4 (int q) else [u8 q])"

definition raw_bytes :: "raw \<Rightarrow> byte list" where
  "raw_bytes r = prev_field (big r) (prev r) @ zip_body (zv r)"

definition prev_size :: "bool \<Rightarrow> nat" where
  "prev_size b = (if b then 5 else 1)"

definition rlen :: "raw \<Rightarrow> nat" where
  "rlen r = prev_size (big r) + length (zip_body (zv r))"

definition wf_raw :: "raw \<Rightarrow> bool" where
  "wf_raw r \<longleftrightarrow> prev r < (if big r then 2 ^ 32 else 254) \<and> wf_val (zv r)"

lemma length_prev_field [simp]: "length (prev_field b q) = prev_size b"
  by (simp add: prev_field_def prev_size_def)

lemma length_raw_bytes [simp]: "length (raw_bytes r) = rlen r"
  by (simp add: raw_bytes_def rlen_def)

section \<open>Headers of values\<close>

lemmas zip_consts = ZIP_END_def ZIP_STR_MASK_def ZIP_STR_06B_def ZIP_STR_14B_def ZIP_STR_32B_def
  ZIP_INT_16B_def ZIP_INT_32B_def ZIP_INT_64B_def ZIP_INT_24B_def ZIP_INT_8B_def ZIP_INT_IMM_MASK_def
  ZIP_INT_IMM_MIN_def ZIP_INT_IMM_MAX_def

definition val_encoding :: "zval \<Rightarrow> byte" where
  "val_encoding v = (case v of
     ZStr s \<Rightarrow> if length s \<le> 0x3f then ZIP_STR_06B else if length s \<le> 0x3fff then ZIP_STR_14B else ZIP_STR_32B
   | ZInt i \<Rightarrow> zip_int_encoding i)"

definition val_lensize :: "zval \<Rightarrow> nat" where
  "val_lensize v = (case v of
     ZStr s \<Rightarrow> if length s \<le> 0x3f then 1 else if length s \<le> 0x3fff then 2 else 5 | ZInt i \<Rightarrow> 1)"

definition val_len :: "zval \<Rightarrow> nat" where
  "val_len v = (case v of ZStr s \<Rightarrow> length s | ZInt i \<Rightarrow> zipIntSize (zip_int_encoding i))"

lemma ZIP_IS_STR_0 [simp]: "ZIP_IS_STR 0"
  by (simp add: ZIP_IS_STR_def zip_consts)

lemma length_zip_body: "length (zip_body v) = val_lensize v + val_len v"
  by (cases v) (simp_all add: val_lensize_def val_len_def zipEncodeLength_def)

lemma head_06: "n < 64 \<Longrightarrow> ZIP_STR_06B OR u8 n = u8 n \<and> u8 n < 0xc0 \<and> u8 n AND 0xc0 = 0 \<and> unat (u8 n AND 0x3f) = n"
proof -
  have "\<forall>n\<in>set [0..<64]. ZIP_STR_06B OR u8 n = u8 n \<and> u8 n < 0xc0 \<and> u8 n AND 0xc0 = 0 \<and> unat (u8 n AND 0x3f) = n"
    by code_simp
  then show "n < 64 \<Longrightarrow> ?thesis"
    by simp
qed

lemma head_14:
  "n < 64 \<Longrightarrow> ZIP_STR_14B OR u8 n < 0xc0 \<and> (ZIP_STR_14B OR u8 n) AND 0xc0 = 0x40 \<and> unat ((ZIP_STR_14B OR u8 n) AND 0x3f) = n"
proof -
  have "\<forall>n\<in>set [0..<64]. ZIP_STR_14B OR u8 n < 0xc0 \<and> (ZIP_STR_14B OR u8 n) AND 0xc0 = 0x40 \<and> unat ((ZIP_STR_14B OR u8 n) AND 0x3f) = n"
    by code_simp
  then show "n < 64 \<Longrightarrow> ?thesis"
    by simp
qed

lemma or_push_bit: "b < 2 ^ n \<Longrightarrow> push_bit n a OR b = a * 2 ^ n + (b :: nat)"
proof -
  assume "b < 2 ^ n"
  then have "take_bit n (int b) = int b"
    by (simp add: take_bit_int_eq_self_iff)
  then have "int (push_bit n a OR b) = int (a * 2 ^ n + b)"
    using concat_bit_eq [of n "int b" "int a"] concat_bit_def [of n "int b" "int a"]
    by (simp add: of_nat_or_eq of_nat_push_bit or.commute push_bit_eq_mult)
  then show ?thesis
    by (simp only: of_nat_eq_iff)
qed

lemma and_masks: "n AND 0x3f = n mod 64" "n AND 0xff = n mod (256 :: nat)"
  using take_bit_eq_mask [of 6 n] take_bit_eq_mask [of 8 n] by (simp_all add: take_bit_eq_mod mask_eq_exp_minus_1)

lemma or_byte: "push_bit k (n div 2 ^ k mod 256) OR n mod 2 ^ k = n mod (2 ^ (k + 8) :: nat)"
  using or_push_bit [of "n mod 2 ^ k" k "n div 2 ^ k mod 256"] mod_mult2_eq [of n "2 ^ k" 256]
  by (simp add: power_add)

lemma decode_str_length:
  assumes "holds zl p (snd (zipEncodeLength 0 (length s)))" "length s < 2 ^ 32"
  shows "ZIP_DECODE_LENGTH zl p = Some (val_encoding (ZStr s), val_lensize (ZStr s), length s)"
proof -
  let ?n = "length s"
  consider (s6) "?n \<le> 0x3f" | (s14) "0x3f < ?n" "?n \<le> 0x3fff" | (s32) "0x3fff < ?n"
    by linarith
  then show ?thesis
  proof cases
    case s6
    then show ?thesis
      using assms(1) head_06 [of ?n]
      by (simp add: zipEncodeLength_def holds_Cons ZIP_DECODE_LENGTH_def ZIP_ENTRY_ENCODING_def val_encoding_def val_lensize_def zip_consts)
  next
    case s14
    then have "?n div 256 < 64"
      by (simp add: less_mult_imp_div_less)
    then show ?thesis
      using s14 assms(1) head_14 [of "?n div 256"] or_push_bit [of "?n mod 256" 8 "?n div 256"]
      by (simp add: zipEncodeLength_def holds_Cons ZIP_DECODE_LENGTH_def ZIP_ENTRY_ENCODING_def val_encoding_def val_lensize_def
          and_masks drop_bit_eq_div zip_consts)
  next
    case s32
    let ?b = "\<lambda>k. ?n div 2 ^ k mod 256"
    have "push_bit 24 (?b 24) OR push_bit 16 (?b 16) OR push_bit 8 (?b 8) OR ?n mod 256 = ?n"
      using or_byte [of 8 ?n] or_byte [of 16 ?n] or_byte [of 24 ?n] assms(2) less_mult_imp_div_less [of ?n 256 "2 ^ 24"] by simp
    moreover have e: "p + 3 = Suc (Suc (Suc p))" "p + 4 = Suc (Suc (Suc (Suc p)))"
      by simp_all
    ultimately show ?thesis
      using s32 assms(1)
      by (simp add: zipEncodeLength_def holds_Cons ZIP_DECODE_LENGTH_def ZIP_ENTRY_ENCODING_def val_encoding_def val_lensize_def
          and_masks drop_bit_eq_div zip_consts e)
  qed
qed

lemma zip_int_encoding_cases:
  obtains (imm) "0 \<le> v" "v \<le> 12" "zip_int_encoding v = ZIP_INT_IMM_MIN + of_int v"
  | (i8) "in_signed 8 v" "zip_int_encoding v = ZIP_INT_8B"
  | (i16) "in_signed 16 v" "zip_int_encoding v = ZIP_INT_16B"
  | (i24) "in_signed 24 v" "zip_int_encoding v = ZIP_INT_24B"
  | (i32) "in_signed 32 v" "zip_int_encoding v = ZIP_INT_32B"
  | (i64) "\<not> in_signed 32 v" "zip_int_encoding v = ZIP_INT_64B"
proof -
  consider "0 \<le> v \<and> v \<le> 12" | "\<not> (0 \<le> v \<and> v \<le> 12)" "in_signed 8 v" | "\<not> in_signed 8 v" "in_signed 16 v"
    | "\<not> in_signed 16 v" "in_signed 24 v" | "\<not> in_signed 24 v" "in_signed 32 v" | "\<not> in_signed 32 v"
    by blast
  then show thesis
  proof cases
    case 1
    then show ?thesis
      by (intro imm) (auto simp: zip_int_encoding_def)
  next
    case 2
    then show ?thesis
      by (intro i8) (auto simp: zip_int_encoding_def)
  next
    case 3
    then have "\<not> (0 \<le> v \<and> v \<le> 12)" "\<not> (- 128 \<le> v \<and> v \<le> 127)"
      by auto
    then show ?thesis
      using 3 by (intro i16) (auto simp: zip_int_encoding_def)
  next
    case 4
    then have "\<not> (0 \<le> v \<and> v \<le> 12)" "\<not> (- 128 \<le> v \<and> v \<le> 127)" "\<not> (- 32768 \<le> v \<and> v \<le> 32767)"
      by auto
    then show ?thesis
      using 4 by (intro i24) (auto simp: zip_int_encoding_def INT24_MIN_def INT24_MAX_def)
  next
    case 5
    then have "\<not> (0 \<le> v \<and> v \<le> 12)" "\<not> (- 128 \<le> v \<and> v \<le> 127)" "\<not> (- 32768 \<le> v \<and> v \<le> 32767)"
      "\<not> (- 8388608 \<le> v \<and> v \<le> 8388607)"
      by auto
    then show ?thesis
      using 5 by (intro i32) (auto simp: zip_int_encoding_def INT24_MIN_def INT24_MAX_def)
  next
    case 6
    then have "\<not> (0 \<le> v \<and> v \<le> 12)" "\<not> (- 128 \<le> v \<and> v \<le> 127)" "\<not> (- 32768 \<le> v \<and> v \<le> 32767)"
      "\<not> (- 8388608 \<le> v \<and> v \<le> 8388607)" "\<not> (- 2147483648 \<le> v \<and> v \<le> 2147483647)"
      by auto
    then show ?thesis
      using 6 by (intro i64) (auto simp: zip_int_encoding_def INT24_MIN_def INT24_MAX_def)
  qed
qed

lemma imm_encoding:
  assumes "0 \<le> v" "v \<le> 12"
  shows "ZIP_INT_IMM_MIN + of_int v \<notin> {ZIP_INT_8B, ZIP_INT_16B, ZIP_INT_24B, ZIP_INT_32B, ZIP_INT_64B} \<and>
    \<not> ZIP_INT_IMM_MIN + of_int v < ZIP_STR_MASK \<and> \<not> ZIP_IS_STR (ZIP_INT_IMM_MIN + of_int v) \<and>
    ZIP_INT_IMM_MIN \<le> ZIP_INT_IMM_MIN + of_int v \<and> ZIP_INT_IMM_MIN + of_int v \<le> ZIP_INT_IMM_MAX \<and>
    int (unat ((ZIP_INT_IMM_MIN + of_int v) AND ZIP_INT_IMM_MASK)) - 1 = v"
proof -
  have "v \<in> set [0..12]"
    using assms by simp
  moreover have "\<forall>v\<in>set [0..12]. ZIP_INT_IMM_MIN + of_int v \<notin> {ZIP_INT_8B, ZIP_INT_16B, ZIP_INT_24B, ZIP_INT_32B, ZIP_INT_64B} \<and>
    \<not> ZIP_INT_IMM_MIN + of_int v < ZIP_STR_MASK \<and> \<not> ZIP_IS_STR (ZIP_INT_IMM_MIN + of_int v) \<and>
    ZIP_INT_IMM_MIN \<le> ZIP_INT_IMM_MIN + of_int v \<and> ZIP_INT_IMM_MIN + of_int v \<le> ZIP_INT_IMM_MAX \<and>
    int (unat ((ZIP_INT_IMM_MIN + of_int v) AND ZIP_INT_IMM_MASK)) - 1 = v"
    by code_simp
  ultimately show ?thesis
    by blast
qed

lemma int_encoding_not_str [simp]: "\<not> zip_int_encoding v < ZIP_STR_MASK" "\<not> ZIP_IS_STR (zip_int_encoding v)"
  using imm_encoding [of v] by (cases v rule: zip_int_encoding_cases; simp add: zip_consts ZIP_IS_STR_def)+

lemma decode_length:
  assumes "holds zl p (zip_body v)" "wf_val v"
  shows "ZIP_DECODE_LENGTH zl p = Some (val_encoding v, val_lensize v, val_len v)"
proof (cases v)
  case (ZStr s)
  then show ?thesis
    using assms decode_str_length [of zl p s] by (simp add: holds_append val_len_def)
next
  case (ZInt i)
  then show ?thesis
    using assms by (simp add: holds_Cons ZIP_DECODE_LENGTH_def ZIP_ENTRY_ENCODING_def val_encoding_def val_lensize_def val_len_def)
qed

lemma val_encoding_is_str: "ZIP_IS_STR (val_encoding v) \<longleftrightarrow> (\<exists>s. v = ZStr s)"
proof (cases v)
  case (ZStr s)
  then show ?thesis
    by (simp add: val_encoding_def ZIP_IS_STR_def zip_consts)
qed (simp add: val_encoding_def)

section \<open>Payload of integers\<close>

lemma le_bytes_of_signed: "le_bytes n (to_signed (8 * n) v) = le_bytes n v"
proof -
  have "le_uint (le_bytes n (to_signed (8 * n) v)) = le_uint (le_bytes n v)"
    by (simp add: to_signed_def mod_diff_left_eq)
  then show ?thesis
    using le_bytes_le_uint [of "le_bytes n (to_signed (8 * n) v)"] le_bytes_le_uint [of "le_bytes n v"] by simp
qed

lemma tl_le_bytes_24: "tl (le_bytes 4 (to_signed 32 (push_bit 8 v))) = le_bytes 3 v"
  using le_bytes_of_signed [of 4 "push_bit 8 v"] by (simp add: push_bit_eq_mult numeral_eq_Suc)

lemma zipSaveInteger_mid:
  assumes "length a = p" "length xs = zipIntSize (zip_int_encoding v)" "in_signed 64 v"
  shows "zipSaveInteger (a @ xs @ b) p v (zip_int_encoding v) = Some (a @ le_bytes (length xs) v @ b)"
proof (cases v rule: zip_int_encoding_cases)
  case imm
  then show ?thesis
    using assms(2) imm_encoding [of v] by (simp add: zipSaveInteger_def zipIntSize_def)
next
  case i8
  then obtain x where "xs = [x]"
    using assms(2) by (auto simp: zipIntSize_def length_Suc_conv)
  then show ?thesis
    using i8 assms(1) by (simp add: zipSaveInteger_def store_mid)
qed (use assms le_bytes_of_signed [of 2 v] le_bytes_of_signed [of 4 v] in
  \<open>simp_all add: zipSaveInteger_def zipIntSize_def store_n_mid tl_le_bytes_24 zip_consts\<close>)

lemma zipLoadInteger_holds:
  assumes "holds zl p (le_bytes (zipIntSize (zip_int_encoding v)) v)" "in_signed 64 v"
  shows "zipLoadInteger zl p (zip_int_encoding v) = Some v"
proof (cases v rule: zip_int_encoding_cases)
  case imm
  then show ?thesis
    using imm_encoding [of v] by (simp add: zipLoadInteger_def)
next
  case i8
  then show ?thesis
    using assms(1) by (simp add: zipLoadInteger_def zipIntSize_def holds_Cons signed_take_bit_int_eq_self sint_sbintrunc')
next
  case i24
  have "le_bytes 4 (v * 256) = 0 # le_bytes 3 v"
    by (simp add: numeral_eq_Suc byte_modulus_0)
  then have "le_sint (0 # le_bytes 3 v) = v * 256"
    using le_sint_le_bytes [of 4 "v * 256"] i24(1) by simp
  then show ?thesis
    using load_n_holds [OF assms(1)] i24(2) by (simp add: zipLoadInteger_def zipIntSize_def zip_consts drop_bit_eq_div)
qed (use load_n_holds [OF assms(1)] assms(2) le_sint_le_bytes [of 2 v] le_sint_le_bytes [of 4 v] le_sint_le_bytes [of 8 v] in
  \<open>simp_all add: zipLoadInteger_def zipIntSize_def zip_consts\<close>)

section \<open>Whole entries\<close>

definition entry_of :: "nat \<Rightarrow> raw \<Rightarrow> zlentry" where
  "entry_of p r = \<lparr>prevrawlensize = prev_size (big r), prevrawlen = prev r, lensize = val_lensize (zv r), zl_len = val_len (zv r),
     headersize = prev_size (big r) + val_lensize (zv r), zl_encoding = val_encoding (zv r), zl_p = p\<rparr>"

lemma entry_of_sel [simp]:
  "prevrawlensize (entry_of p r) = prev_size (big r)" "prevrawlen (entry_of p r) = prev r" "zl_p (entry_of p r) = p"
  "headersize (entry_of p r) + zl_len (entry_of p r) = rlen r" "zl_encoding (entry_of p r) = val_encoding (zv r)"
  by (simp_all add: entry_of_def rlen_def length_zip_body)

lemma unat_byte_less: "n < 256 \<Longrightarrow> unat (u8 n) = n"
  by simp

lemma holds_prev_field:
  assumes "holds zl p (prev_field b q)" "q < (if b then 2 ^ 32 else 254)"
  shows "ZIP_DECODE_PREVLEN zl p = Some (prev_size b, q)" "ZIP_DECODE_PREVLENSIZE zl p = Some (prev_size b)"
    "\<exists>c. load zl p = Some c \<and> c \<noteq> ZIP_END"
proof -
  show size: "ZIP_DECODE_PREVLENSIZE zl p = Some (prev_size b)"
    using assms by (auto simp: prev_field_def prev_size_def holds_Cons ZIP_DECODE_PREVLENSIZE_def ZIP_BIGLEN_def)
  show "ZIP_DECODE_PREVLEN zl p = Some (prev_size b, q)"
  proof (cases b)
    case True
    then have "load_n zl (p + 1) 4 = Some (le_bytes 4 (int q))"
      using assms(1) load_n_holds [of zl "p + 1" "le_bytes 4 (int q)"] by (simp add: prev_field_def holds_Cons)
    then show ?thesis
      using True size assms(2) by (simp add: ZIP_DECODE_PREVLEN_def prev_size_def)
  next
    case False
    then show ?thesis
      using assms size by (simp add: ZIP_DECODE_PREVLEN_def prev_size_def prev_field_def holds_Cons)
  qed
  show "\<exists>c. load zl p = Some c \<and> c \<noteq> ZIP_END"
  proof (cases b)
    case False
    then have "unat (u8 q) \<noteq> unat (255 :: byte)"
      using assms(2) by simp
    then have "u8 q \<noteq> 255"
      by metis
    then show ?thesis
      using False assms(1) by (auto simp: prev_field_def holds_Cons ZIP_END_def)
  qed (use assms(1) in \<open>auto simp: prev_field_def holds_Cons ZIP_END_def\<close>)
qed

lemma holds_entry:
  assumes "holds zl p (raw_bytes r)" "wf_raw r"
  shows "ZIP_DECODE_PREVLEN zl p = Some (prev_size (big r), prev r)" "ZIP_DECODE_PREVLENSIZE zl p = Some (prev_size (big r))"
    "\<exists>c. load zl p = Some c \<and> c \<noteq> ZIP_END" "zipEntry zl p = Some (entry_of p r)"
    "ZIP_DECODE_LENGTH zl (p + prev_size (big r)) = Some (val_encoding (zv r), val_lensize (zv r), val_len (zv r))"
    "rlen r < 2 ^ 32 \<Longrightarrow> zipRawEntryLength zl p = Some (rlen r)"
proof -
  have h: "holds zl p (prev_field (big r) (prev r))" "holds zl (p + prev_size (big r)) (zip_body (zv r))"
    using assms(1) by (simp_all add: raw_bytes_def holds_append)
  have q: "prev r < (if big r then 2 ^ 32 else 254)" and v: "wf_val (zv r)"
    using assms(2) by (simp_all add: wf_raw_def)
  note f = holds_prev_field [OF h(1) q] and l = decode_length [OF h(2) v]
  show "ZIP_DECODE_PREVLEN zl p = Some (prev_size (big r), prev r)" "ZIP_DECODE_PREVLENSIZE zl p = Some (prev_size (big r))"
    "\<exists>c. load zl p = Some c \<and> c \<noteq> ZIP_END"
    "ZIP_DECODE_LENGTH zl (p + prev_size (big r)) = Some (val_encoding (zv r), val_lensize (zv r), val_len (zv r))"
    by (fact f l)+
  show "zipEntry zl p = Some (entry_of p r)"
    using f(1) l by (simp add: zipEntry_def entry_of_def)
  show "rlen r < 2 ^ 32 \<Longrightarrow> zipRawEntryLength zl p = Some (rlen r)"
    using f(2) l by (simp add: zipRawEntryLength_def rlen_def length_zip_body u32_id)
qed

lemma zipPrevEncodeLength_mid:
  assumes "length a = p" "length xs = zipPrevEncodeLength_size q"
  shows "zipPrevEncodeLength (a @ xs @ b) p q = Some (a @ prev_field (254 \<le> q) q @ b, length xs)"
proof (cases "q < 254")
  case True
  then obtain x where "xs = [x]"
    using assms(2) by (auto simp: zipPrevEncodeLength_size_def ZIP_BIGLEN_def length_Suc_conv)
  then show ?thesis
    using True assms(1) by (simp add: zipPrevEncodeLength_def ZIP_BIGLEN_def prev_field_def store_mid)
next
  case False
  then obtain x xs' where "xs = x # xs'" "length xs' = 4"
    using assms(2) by (cases xs) (auto simp: zipPrevEncodeLength_size_def ZIP_BIGLEN_def)
  then show ?thesis
    using False assms(1) store_n_mid [of "a @ [254]" "Suc p" "le_bytes 4 (int q)" xs' b]
    by (simp add: zipPrevEncodeLength_def ZIP_BIGLEN_def prev_field_def store_mid u8_def)
qed

lemma zipPrevEncodeLengthForceLarge_mid:
  assumes "length a = p" "length xs = 5"
  shows "zipPrevEncodeLengthForceLarge (a @ xs @ b) p q = Some (a @ prev_field True q @ b)"
proof -
  obtain x xs' where "xs = x # xs'" "length xs' = 4"
    using assms(2) by (cases xs) auto
  then show ?thesis
    using assms(1) store_n_mid [of "a @ [254]" "Suc p" "le_bytes 4 (int q)" xs' b]
    by (simp add: zipPrevEncodeLengthForceLarge_def ZIP_BIGLEN_def prev_field_def store_mid u8_def)
qed

section \<open>Blocks\<close>

definition zl_hdr :: "nat \<Rightarrow> nat \<Rightarrow> nat \<Rightarrow> byte list" where
  "zl_hdr n t c = le_bytes 4 (int n) @ le_bytes 4 (int t) @ le_bytes 2 (int c)"

lemma length_zl_hdr [simp]: "length (zl_hdr n t c) = 10"
  by (simp add: zl_hdr_def)

lemma zl_hdr_get [simp]:
  "n < 2 ^ 32 \<Longrightarrow> ZIPLIST_BYTES (zl_hdr n t c @ x) = Some n"
  "t < 2 ^ 32 \<Longrightarrow> ZIPLIST_TAIL_OFFSET (zl_hdr n t c @ x) = Some t"
  "c < 2 ^ 16 \<Longrightarrow> ZIPLIST_LENGTH (zl_hdr n t c @ x) = Some c"
  by (simp_all add: zl_hdr_def ZIPLIST_BYTES_def ZIPLIST_TAIL_OFFSET_def ZIPLIST_LENGTH_def load_n_def slice_def)

lemma zl_hdr_set [simp]:
  "set_ZIPLIST_BYTES (zl_hdr n t c @ x) m = Some (zl_hdr m t c @ x)"
  "set_ZIPLIST_TAIL_OFFSET (zl_hdr n t c @ x) m = Some (zl_hdr n m c @ x)"
  "set_ZIPLIST_LENGTH (zl_hdr n t c @ x) m = Some (zl_hdr n t m @ x)"
  by (simp_all add: zl_hdr_def set_ZIPLIST_BYTES_def set_ZIPLIST_TAIL_OFFSET_def set_ZIPLIST_LENGTH_def store_n_def splice_at_def)

text \<open>Growing by \<open>d\<close> bytes puts a gap of \<open>d\<close> bytes before the end byte; shrinking keeps a prefix.\<close>

lemma ziplistResize_grow:
  assumes "n = 11 + length xs + d"
  shows "\<exists>gap. length gap = d \<and> hd (gap @ [255]) = 255 \<and>
    ziplistResize fill (zl_hdr m t c @ xs @ [255]) n = Some (zl_hdr n t c @ xs @ gap @ [255])"
proof -
  let ?w = "255 # map fill [11 + length xs..<n]"
  have w: "?w = butlast ?w @ [last ?w]" "length (butlast ?w) = d"
    using assms by simp_all
  have "zrealloc fill (zl_hdr m t c @ xs @ [255]) n = zl_hdr m t c @ xs @ butlast ?w @ [last ?w]"
    using assms w(1) by (simp add: zrealloc_def)
  moreover have "store ((zl_hdr n t c @ xs @ butlast ?w) @ [last ?w]) (n - 1) 255 = Some ((zl_hdr n t c @ xs @ butlast ?w) @ [255])"
    using assms w(2) by (intro store_mid) simp
  ultimately have "ziplistResize fill (zl_hdr m t c @ xs @ [255]) n = Some (zl_hdr n t c @ xs @ butlast ?w @ [255])"
    by (simp add: ziplistResize_def ZIP_END_def)
  moreover have "hd (butlast ?w @ [255]) = 255"
    by (cases "[11 + length xs..<n]") simp_all
  ultimately show ?thesis
    using w(2) by blast
qed

lemma ziplistResize_shrink:
  assumes "n = 11 + length xs"
  shows "ziplistResize fill (zl_hdr m t c @ xs @ y # ys) n = Some (zl_hdr n t c @ xs @ [255])"
proof -
  have "zrealloc fill (zl_hdr m t c @ xs @ y # ys) n = zl_hdr m t c @ xs @ [y]"
    using assms by (simp add: zrealloc_def)
  moreover have "store ((zl_hdr n t c @ xs) @ [y]) (n - 1) 255 = Some ((zl_hdr n t c @ xs) @ [255])"
    using assms by (intro store_mid) simp
  ultimately show ?thesis
    by (simp add: ziplistResize_def ZIP_END_def)
qed

end
