(* ===== verification/Ziplist_Updates.thy ===== *)
theory Ziplist_Updates
  imports Ziplist_Entries
begin

text \<open>
  What the updates of a ziplist do to its entries. \<open>blob\<close> is the block that holds given entries;
  \<open>cascade\<close> is the cascading update on a list of entries. The lemmas show that the cascading
  update, insertion and deletion map blocks to blocks, for every content of the bytes that a
  resize adds, and keep the back links consistent (\<open>chain\<close>).
\<close>

section \<open>Sequences of entries\<close>

definition raws :: "raw list \<Rightarrow> byte list" where
  "raws rs = concat (map raw_bytes rs)"

lemma raws_simps [simp]: "raws [] = []" "raws (r # rs) = raw_bytes r @ raws rs" "raws (rs @ rs') = raws rs @ raws rs'"
  by (simp_all add: raws_def)

text \<open>No entry takes more than ten bytes besides its text, whatever its previous entry is.\<close>

definition text_size :: "byte list list \<Rightarrow> nat" where
  "text_size ts = sum_list (map (\<lambda>t. 10 + length t) ts)"

lemma text_size_simps [simp]:
  "text_size [] = 0" "text_size (t # ts) = 10 + length t + text_size ts" "text_size (ts @ ts') = text_size ts + text_size ts'"
  by (simp_all add: text_size_def)

abbreviation raw_texts :: "raw list \<Rightarrow> byte list list" where
  "raw_texts rs \<equiv> map (\<lambda>r. zip_text (zv r)) rs"

lemma length_zip_body_le: "length (zip_body v) \<le> 5 + length (zip_text v)"
proof (cases v)
  case (ZStr s)
  then show ?thesis
    by (simp add: zipEncodeLength_def)
next
  case (ZInt i)
  have "length (zip_body v) \<le> 5 \<or> \<not> in_signed 32 i \<and> length (zip_body v) = 9"
    using imm_encoding [of i] unfolding ZInt
    by (cases i rule: zip_int_encoding_cases) (auto simp: zipIntSize_def zip_consts)
  moreover have "4 \<le> length (zip_text v)" if "\<not> in_signed 32 i"
    using that length_dec_le [of 3 "nat i"] length_dec_le [of 3 "nat (- i)"] by (auto simp: ZInt ll_repr_def)
  ultimately show ?thesis
    by linarith
qed

lemma rlen_le: "rlen r \<le> 10 + length (zip_text (zv r))"
  using length_zip_body_le [of "zv r"] by (simp add: rlen_def prev_size_def)

lemma rlen_pos: "2 \<le> rlen r"
proof -
  have "1 \<le> length (zip_body v)" for v
    by (cases v) (simp_all add: zipEncodeLength_def)
  from this [of "zv r"] show ?thesis
    by (simp add: rlen_def prev_size_def)
qed

lemma length_raws_le: "length (raws rs) \<le> text_size (raw_texts rs)"
proof (induction rs)
  case (Cons r rs)
  then show ?case
    using rlen_le [of r] by simp
qed simp

section \<open>The cascading update\<close>

lemma raw_bytes_Raw: "raw_bytes (Raw b q v) = prev_field b q @ zip_body v"
  by (simp add: raw_bytes_def)

lemma usub64_id: "b \<le> a \<Longrightarrow> a < 2 ^ 64 \<Longrightarrow> usub64 a b = a - b"
  by (simp add: usub64_def flip: of_nat_diff)

lemma cascade_grow_ok:
  assumes "\<not> big nxt" "254 \<le> rlen cur" "p = 10 + length pre" "N = 11 + length pre + rlen cur + rlen nxt + length xs"
    "N + 4 < 2 ^ 32" "T + 4 < 2 ^ 32"
  shows "cascade_grow fill (zl_hdr N T c @ pre @ raw_bytes cur @ raw_bytes nxt @ xs @ [255]) N p (rlen cur) 5 (entry_of q nxt) =
    Some (zl_hdr (N + 4) (if T = p + rlen cur then T else T + 4) c @ pre @ raw_bytes cur @
      raw_bytes (Raw True (rlen cur) (zv nxt)) @ xs @ [255])"
proof -
  define t where "t = (if T = p + rlen cur then T else T + 4)"
  let ?h = "zl_hdr (N + 4)" and ?b = "zip_body (zv nxt)"
  have nxt: "raw_bytes nxt = u8 (prev nxt) # ?b" "rlen nxt = 1 + length ?b"
    using assms(1) by (simp_all add: raw_bytes_def prev_field_def rlen_def prev_size_def)
  obtain gap where gap: "length gap = 4"
    "ziplistResize fill (zl_hdr N T c @ pre @ raw_bytes cur @ raw_bytes nxt @ xs @ [255]) (N + 4) =
      Some (?h T c @ pre @ raw_bytes cur @ raw_bytes nxt @ xs @ gap @ [255])"
    using ziplistResize_grow [of "N + 4" "pre @ raw_bytes cur @ raw_bytes nxt @ xs" 4 fill N T c] assms(4) by auto
  let ?m = "take 5 (u8 (prev nxt) # ?b @ xs @ gap)"
  have "usub64 N (p + rlen cur + 2) = length (?b @ xs)"
    using assms(3-5) nxt(2) by (simp add: usub64_id)
  then have mv: "move_n (?h t c @ pre @ raw_bytes cur @ raw_bytes nxt @ xs @ gap @ [255]) (p + rlen cur + 5) (p + rlen cur + 1)
      (usub64 N (p + rlen cur + 2)) = Some (?h t c @ pre @ raw_bytes cur @ ?m @ ?b @ xs @ [255])"
    using move_n_right [of "p + rlen cur + 5" "?h t c @ pre @ raw_bytes cur" "[u8 (prev nxt)]" gap "p + rlen cur + 1" _ "?b @ xs" "[255]"]
      gap(1) assms(3) by (simp add: nxt(1))
  have enc: "zipPrevEncodeLength (?h t c @ pre @ raw_bytes cur @ ?m @ ?b @ xs @ [255]) (p + rlen cur) (rlen cur) =
    Some (?h t c @ pre @ raw_bytes cur @ prev_field True (rlen cur) @ ?b @ xs @ [255], 5)"
    using zipPrevEncodeLength_mid [of "?h t c @ pre @ raw_bytes cur" "p + rlen cur" ?m "rlen cur" "?b @ xs @ [255]"]
      assms(2,3) gap(1) by (simp add: zipPrevEncodeLength_size_def ZIP_BIGLEN_def)
  have ps: "prev_size (big nxt) = 1" "u32 (N + 4) = N + 4" "u32 (T + 4) = T + 4"
    using assms by (simp_all add: prev_size_def u32_id)
  have tl: "(if T \<noteq> p + rlen cur then set_ZIPLIST_TAIL_OFFSET (?h T c @ x) (u32 (T + 4)) else Some (?h T c @ x)) = Some (?h t c @ x)" for x
    using ps(3) by (simp add: t_def)
  show ?thesis
    using gap(2) mv enc tl assms(6) by (simp add: cascade_grow_def ps(1,2) Let_def raw_bytes_Raw flip: t_def)
qed

text \<open>A block with the bytes \<open>pre\<close> before the entries \<open>rs\<close>, its tail offset at the last of them.\<close>

definition last_off :: "raw list \<Rightarrow> nat" where
  "last_off rs = length (raws (butlast rs))"

definition blob :: "byte list \<Rightarrow> raw list \<Rightarrow> nat \<Rightarrow> byte list" where
  "blob pre rs c = zl_hdr (11 + length pre + length (raws rs)) (10 + length pre + last_off rs) c @ pre @ raws rs @ [255]"

lemma blob_shift: "rs \<noteq> [] \<Longrightarrow> blob pre (r # rs) c = blob (pre @ raw_bytes r) rs c"
  by (simp add: blob_def last_off_def ac_simps)

lemma last_off_Cons: "last_off (r # rs) = (if rs = [] then 0 else rlen r + last_off rs)"
  by (simp add: last_off_def)

lemma last_off_le: "last_off rs \<le> length (raws rs)"
  by (induction rs) (simp_all add: last_off_def)

lemma last_off_pos: "rs \<noteq> [] \<Longrightarrow> last_off (r # rs) > 0"
  using rlen_pos [of r] by (simp add: last_off_Cons)

fun cascade :: "raw list \<Rightarrow> raw list" where
  "cascade (cur # nxt # rest) =
     (if prev nxt = rlen cur then cur # nxt # rest
      else if \<not> big nxt \<and> 254 \<le> rlen cur then cur # cascade (Raw True (rlen cur) (zv nxt) # rest)
      else cur # Raw (big nxt) (rlen cur) (zv nxt) # rest)"
| "cascade rs = rs"

lemma cascade_zv [simp]: "map zv (cascade rs) = map zv rs"
  by (induction rs rule: cascade.induct) simp_all

lemma cascade_Nil [simp]: "cascade rs = [] \<longleftrightarrow> rs = []"
  using cascade_zv [of rs] by (metis Nil_is_map_conv)

lemma holds_raws: "length a = p \<Longrightarrow> holds (a @ raw_bytes r @ b) p (raw_bytes r)"
  by (rule holds_mid)

lemma load_end: "length a = p \<Longrightarrow> load (a @ [255]) p = Some ZIP_END"
  by (auto simp: load_def ZIP_END_def)

lemma cascade_loop_ok:
  assumes "\<forall>r\<in>set (cur # rest). wf_raw r" "11 + length pre + text_size (raw_texts (cur # rest)) < 2 ^ 32"
  shows "cascade_loop fill (blob pre (cur # rest) c) (length (blob pre (cur # rest) c)) (10 + length pre) =
    Some (blob pre (cascade (cur # rest)) c)"
  using assms
proof (induction rest arbitrary: cur pre)
  case Nil
  let ?zl = "blob pre [cur] c" and ?p = "10 + length pre"
  have zl: "?zl = (zl_hdr (11 + length pre + rlen cur) ?p c @ pre) @ raw_bytes cur @ [255]"
    by (simp add: blob_def last_off_def)
  have e: "holds ?zl ?p (raw_bytes cur)"
    unfolding zl by (rule holds_raws) simp
  have "load ?zl (?p + rlen cur) = Some ZIP_END"
    using load_end [of "(zl_hdr (11 + length pre + rlen cur) ?p c @ pre) @ raw_bytes cur" "?p + rlen cur"] unfolding zl by simp
  moreover have "rlen cur < 2 ^ 32"
    using Nil(2) rlen_le [of cur] by simp
  ultimately show ?case
    using holds_entry(3,4) [OF e] Nil(1) by (auto simp: cascade_loop.simps [of fill ?zl] u32_id)
next
  case (Cons nxt rest)
  let ?zl = "blob pre (cur # nxt # rest) c" and ?p = "10 + length pre"
  let ?N = "11 + length pre + rlen cur + rlen nxt + length (raws rest)" and ?T = "?p + last_off (cur # nxt # rest)"
  have len: "length ?zl = ?N"
    by (simp add: blob_def)
  have zl: "?zl = zl_hdr ?N ?T c @ pre @ raw_bytes cur @ raw_bytes nxt @ raws rest @ [255]"
    by (simp add: blob_def ac_simps)
  have "holds ?zl ?p (raw_bytes cur)"
    using holds_mid [of "zl_hdr ?N ?T c @ pre" ?p "raw_bytes cur"] unfolding zl by simp
  note cur = holds_entry(3,4) [OF this]
  have "holds ?zl (?p + rlen cur) (raw_bytes nxt)"
    using holds_mid [of "zl_hdr ?N ?T c @ pre @ raw_bytes cur" "?p + rlen cur" "raw_bytes nxt"] unfolding zl by simp
  note nxt = holds_entry(3,4) [OF this]
  have wf: "wf_raw cur" "wf_raw nxt"
    using Cons.prems(1) by simp_all
  have r32: "rlen cur < 2 ^ 32"
    using Cons.prems(2) rlen_le [of cur] by simp
  obtain b1 b2 where loads: "load ?zl ?p = Some b1" "b1 \<noteq> ZIP_END" "load ?zl (?p + rlen cur) = Some b2" "b2 \<noteq> ZIP_END"
    using cur(1) nxt(1) wf by blast
  let ?size = "zipPrevEncodeLength_size (rlen cur)"
  have step: "cascade_loop fill ?zl ?N ?p =
    (if prev nxt = rlen cur then Some ?zl
     else if prev_size (big nxt) < ?size then do {
       zl \<leftarrow> cascade_grow fill ?zl ?N ?p (rlen cur) ?size (entry_of (?p + rlen cur) nxt);
       cascade_loop fill zl (?N + (?size - prev_size (big nxt))) (?p + rlen cur) }
     else if prev_size (big nxt) > ?size then zipPrevEncodeLengthForceLarge ?zl (?p + rlen cur) (rlen cur)
     else do { (zl, _) \<leftarrow> zipPrevEncodeLength ?zl (?p + rlen cur) (rlen cur); Some zl })"
    using loads cur(2) nxt(2) wf u32_id [OF r32] by (subst cascade_loop.simps) (simp add: Let_def)
  have upd: "blob pre (cur # r # rest) c = zl_hdr ?N ?T c @ pre @ raw_bytes cur @ raw_bytes r @ raws rest @ [255]" if "rlen r = rlen nxt" for r
    using that by (simp add: blob_def last_off_Cons ac_simps)
  consider (same) "prev nxt = rlen cur" | (grow) "prev nxt \<noteq> rlen cur" "\<not> big nxt" "254 \<le> rlen cur"
    | (force) "prev nxt \<noteq> rlen cur" "big nxt" "rlen cur < 254" | (field) "prev nxt \<noteq> rlen cur" "big nxt = (254 \<le> rlen cur)"
    by fastforce
  then show ?case
  proof cases
    case same
    then show ?thesis
      using step len by simp
  next
    case grow
    let ?nx = "Raw True (rlen cur) (zv nxt)"
    have sz: "?size = 5" "prev_size (big nxt) = 1"
      using grow by (simp_all add: zipPrevEncodeLength_size_def ZIP_BIGLEN_def prev_size_def)
    have "cascade_grow fill ?zl ?N ?p (rlen cur) 5 (entry_of (?p + rlen cur) nxt) = Some (blob pre (cur # ?nx # rest) c)"
    proof -
      have small: "?N + 4 < 2 ^ 32"
        using Cons.prems(2) length_raws_le [of rest] rlen_le [of cur] rlen_le [of ?nx] sz by (simp add: rlen_def prev_size_def)
      have T: "?T = ?p + rlen cur \<longleftrightarrow> rest = []" "?T + 4 < 2 ^ 32"
        using last_off_pos [of rest nxt] last_off_le [of "nxt # rest"] small by (auto simp: last_off_Cons)
      have nx: "rlen ?nx = rlen nxt + 4"
        using grow by (simp add: rlen_def prev_size_def)
      show ?thesis
        using cascade_grow_ok [of nxt cur ?p pre ?N "raws rest" ?T fill c "?p + rlen cur"] grow small T nx
        unfolding zl by (simp add: blob_def last_off_Cons)
    qed
    moreover have "blob pre (cur # ?nx # rest) c = blob (pre @ raw_bytes cur) (?nx # rest) c"
      by (rule blob_shift) simp
    moreover have "cascade_loop fill (blob (pre @ raw_bytes cur) (?nx # rest) c) (length (blob (pre @ raw_bytes cur) (?nx # rest) c)) (10 + length (pre @ raw_bytes cur)) =
      Some (blob (pre @ raw_bytes cur) (cascade (?nx # rest)) c)"
      using Cons.prems rlen_le [of cur] r32 by (intro Cons.IH) (auto simp: wf_raw_def)
    moreover have "length (blob (pre @ raw_bytes cur) (?nx # rest) c) = ?N + 4"
      using grow by (simp add: blob_def rlen_def prev_size_def)
    ultimately show ?thesis
      using step sz grow len by (simp add: blob_shift add.assoc)
  next
    case force
    have "raw_bytes nxt = prev_field True (prev nxt) @ zip_body (zv nxt)"
      using force by (simp add: raw_bytes_def)
    then have "zipPrevEncodeLengthForceLarge ?zl (?p + rlen cur) (rlen cur) = Some (blob pre (cur # Raw True (rlen cur) (zv nxt) # rest) c)"
      using zipPrevEncodeLengthForceLarge_mid [of "zl_hdr ?N ?T c @ pre @ raw_bytes cur" "?p + rlen cur" "prev_field True (prev nxt)"
          "zip_body (zv nxt) @ raws rest @ [255]" "rlen cur"] upd [of "Raw True (rlen cur) (zv nxt)"] force
      unfolding zl by (simp add: prev_size_def raw_bytes_Raw rlen_def)
    then show ?thesis
      using step force len by (simp add: zipPrevEncodeLength_size_def ZIP_BIGLEN_def prev_size_def)
  next
    case field
    let ?b = "254 \<le> rlen cur"
    have "raw_bytes nxt = prev_field ?b (prev nxt) @ zip_body (zv nxt)"
      using field by (simp add: raw_bytes_def)
    moreover have "prev_size ?b = ?size" "rlen (Raw ?b (rlen cur) (zv nxt)) = rlen nxt"
      using field(2) by (simp_all add: prev_size_def zipPrevEncodeLength_size_def ZIP_BIGLEN_def rlen_def)
    ultimately have "zipPrevEncodeLength ?zl (?p + rlen cur) (rlen cur) = Some (blob pre (cur # Raw ?b (rlen cur) (zv nxt) # rest) c, prev_size ?b)"
      using zipPrevEncodeLength_mid [of "zl_hdr ?N ?T c @ pre @ raw_bytes cur" "?p + rlen cur" "prev_field ?b (prev nxt)" "rlen cur"
          "zip_body (zv nxt) @ raws rest @ [255]"] upd [of "Raw ?b (rlen cur) (zv nxt)"]
      unfolding zl by (simp add: raw_bytes_Raw)
    then show ?thesis
      using step field len by (simp add: zipPrevEncodeLength_size_def ZIP_BIGLEN_def prev_size_def)
  qed
qed

section \<open>Consistent back links\<close>

fun chain :: "nat \<Rightarrow> raw list \<Rightarrow> bool" where
  "chain q [] \<longleftrightarrow> True"
| "chain q (r # rs) \<longleftrightarrow> prev r = q \<and> (254 \<le> q \<longrightarrow> big r) \<and> chain (rlen r) rs"

definition tail_len :: "nat \<Rightarrow> raw list \<Rightarrow> nat" where
  "tail_len q rs = (if rs = [] then q else rlen (last rs))"

lemma chain_append: "chain q (rs @ rs') \<longleftrightarrow> chain q rs \<and> chain (tail_len q rs) rs'"
  by (induction rs arbitrary: q) (auto simp: tail_len_def)

lemma cascade_chain:
  assumes "prev cur = q" "254 \<le> q \<longrightarrow> big cur" "rest \<noteq> [] \<Longrightarrow> wf_raw (hd rest) \<and> chain (rlen (hd rest)) (tl rest)"
    "\<forall>r\<in>set rest. wf_raw r"
  shows "chain q (cascade (cur # rest))"
  using assms
proof (induction rest arbitrary: cur q)
  case (Cons nxt rest)
  have rest: "chain (rlen nxt) rest"
    using Cons.prems(3) by simp
  show ?case
  proof (cases "prev nxt \<noteq> rlen cur \<and> \<not> big nxt \<and> 254 \<le> rlen cur")
    case True
    have "chain (rlen cur) (cascade (Raw True (rlen cur) (zv nxt) # rest))"
      using rest Cons.prems(4) by (intro Cons.IH) (cases rest; simp)+
    then show ?thesis
      using True Cons.prems(1,2) by simp
  next
    case False
    have "big nxt \<or> prev nxt < 254"
      using Cons.prems(4) by (auto simp: wf_raw_def split: if_splits)
    then show ?thesis
      using False rest Cons.prems(1,2) by (auto simp: rlen_def)
  qed
qed simp

lemma cascade_wf:
  assumes "\<forall>r\<in>set rs. wf_raw r" "text_size (raw_texts rs) < 2 ^ 32"
  shows "\<forall>r\<in>set (cascade rs). wf_raw r"
  using assms
proof (induction rs rule: cascade.induct)
  case (1 cur nxt rest)
  have "rlen cur < 2 ^ 32"
    using 1(3) rlen_le [of cur] by simp
  then have "wf_raw (Raw True (rlen cur) (zv nxt))" "wf_raw (Raw (big nxt) (rlen cur) (zv nxt)) \<or> \<not> big nxt \<and> 254 \<le> rlen cur"
    using 1(2) by (auto simp: wf_raw_def)
  then show ?case
    using 1 by auto
qed simp_all

section \<open>Insertion\<close>

definition val_of :: "byte list \<Rightarrow> zval" where
  "val_of s = (case zipTryEncoding s of Some (v, _) \<Rightarrow> ZInt v | None \<Rightarrow> ZStr s)"

lemma zipTryEncoding_Some: "zipTryEncoding s = Some (v, e) \<Longrightarrow> in_signed 64 v \<and> s = ll_repr v \<and> e = zip_int_encoding v"
  using string2ll_inv by (auto simp: zipTryEncoding_def split: if_splits option.splits)

lemma zip_text_val_of [simp]: "zip_text (val_of s) = s"
  using zipTryEncoding_Some [of s] by (auto simp: val_of_def split: option.splits)

lemma wf_val_of: "length s < 2 ^ 32 \<Longrightarrow> wf_val (val_of s)"
  using zipTryEncoding_Some [of s] by (auto simp: val_of_def split: option.splits)

lemma insert_shift:
  assumes "length fld = prev_size b" "length gap + prev_size b = req + zipPrevEncodeLength_size req"
    "int (zipPrevEncodeLength_size req) - int (prev_size b) = d" "4 \<le> length a" "4 \<le> req \<or> \<not> b"
    "int src = int (length a) - d" "int n = int (prev_size b + length y) + d"
  shows "\<exists>gar fld'. length gar = req \<and> length fld' = zipPrevEncodeLength_size req \<and>
    move_n (a @ fld @ y @ gap @ z) (length a + req) src n = Some (a @ gar @ fld' @ y @ z)"
proof -
  consider (eq) "d = 0" "length gap = req" | (grow) "d = 4" "\<not> b" "zipPrevEncodeLength_size req = 5" "length gap = req + 4"
    | (shrink) "d = -4" "b" "zipPrevEncodeLength_size req = 1" "length gap + 4 = req"
    using assms(2,3,5) by (cases b) (auto simp: zipPrevEncodeLength_size_def prev_size_def split: if_splits)
  then show ?thesis
  proof cases
    case eq
    let ?xs = "fld @ y"
    have "src = length a" "n = length ?xs"
      using eq assms(1,6,7) by simp_all
    then have "move_n (a @ [] @ ?xs @ gap @ z) (length a + req) src n = Some (a @ take req (?xs @ gap) @ ?xs @ z)"
      using eq move_n_right [of "length a + req" a "[]" gap src n ?xs z] by simp
    moreover have "length (take req (?xs @ gap)) = req" "length fld = zipPrevEncodeLength_size req"
      using eq assms(1,3) by simp_all
    ultimately show ?thesis
      by (intro exI [of _ "take req (?xs @ gap)"] exI [of _ fld] conjI) simp_all
  next
    case grow
    let ?a = "take (length a - 4) a" and ?w = "drop (length a - 4) a"
    let ?xs = "?w @ fld @ y"
    have a: "a = ?a @ ?w" "length ?w = 4" "length ?a + 4 = length a"
      using assms(4) by simp_all
    have "src = length ?a" "n = length ?xs" "length a + req = length ?a + length gap"
      using grow assms(1,4,6,7) by (simp_all add: prev_size_def)
    then have "move_n (?a @ [] @ ?xs @ gap @ z) (length a + req) src n = Some (?a @ take (length gap) (?xs @ gap) @ ?xs @ z)"
      using move_n_right [of "length a + req" ?a "[]" gap src n ?xs z] by (simp only: append_Nil list.size add_0_right add_0)
    moreover have "take (length gap) (?xs @ gap) = ?w @ take req (fld @ y @ gap)"
      using a(2) grow(4) by simp
    ultimately have "move_n (a @ fld @ y @ gap @ z) (length a + req) src n = Some (a @ take req (fld @ y @ gap) @ (?w @ fld) @ y @ z)"
      by (simp only: append.assoc [symmetric] append_take_drop_id append_Nil2)
    moreover have "length (take req (fld @ y @ gap)) = req" "length (?w @ fld) = zipPrevEncodeLength_size req"
      using grow a(2) assms(1) by (simp_all add: prev_size_def)
    ultimately show ?thesis
      by (blast intro: exI [of _ "take req (fld @ y @ gap)"])
  next
    case shrink
    then have fld: "fld = take 4 fld @ drop 4 fld" "length (take 4 fld) = 4" "length (drop 4 fld) = 1"
      using assms(1) by (simp_all add: prev_size_def)
    let ?xs = "drop 4 fld @ y"
    have "src = length a + length (take 4 fld)" "n = length ?xs" "length a + req = length a + length (take 4 fld) + length gap"
      "length (take 4 fld) + length gap = req"
      using shrink assms(6,7) fld(2,3) by (simp_all add: prev_size_def)
    then have "move_n (a @ take 4 fld @ ?xs @ gap @ z) (length a + req) src n = Some (a @ take req (take 4 fld @ ?xs @ gap) @ ?xs @ z)"
      using move_n_right [of "length a + req" a "take 4 fld" gap src n ?xs z] by simp
    moreover have "length (take req (take 4 fld @ ?xs @ gap)) = req"
      using shrink fld by simp
    ultimately show ?thesis
      using fld(3) shrink
      by (intro exI [of _ "take req (take 4 fld @ ?xs @ gap)"] exI [of _ "drop 4 fld"] conjI)
        (simp_all only: append.assoc [symmetric] append_take_drop_id)
  qed
qed

lemma blob_append: "rs \<noteq> [] \<Longrightarrow> blob pre (rs' @ rs) c = blob (pre @ raws rs') rs c"
  by (simp add: blob_def last_off_def butlast_append ac_simps)

lemma insert_prevlen_middle:
  assumes "wf_raw nxt" "p = 10 + length pre"
  shows "insert_prevlen (blob pre (nxt # rest) c) p = Some (prev nxt)"
proof -
  have "holds (blob pre (nxt # rest) c) p (raw_bytes nxt)"
    using holds_mid [of "zl_hdr (11 + length pre + length (raws (nxt # rest))) (10 + length pre + last_off (nxt # rest)) c @ pre" p "raw_bytes nxt" "raws rest @ [255]"]
      assms(2) by (simp add: blob_def)
  then show ?thesis
    using holds_entry(1,3) [OF _ assms(1)] by (force simp: insert_prevlen_def)
qed

lemma insert_prevlen_end:
  assumes "\<forall>r\<in>set rs. wf_raw r" "11 + text_size (raw_texts rs) < 2 ^ 32" "p = 10 + length (raws rs)"
  shows "insert_prevlen (blob [] rs c) p = Some (tail_len 0 rs)"
proof -
  let ?zl = "blob [] rs c" and ?t = "10 + last_off rs"
  have zl: "?zl = zl_hdr (11 + length (raws rs)) ?t c @ raws rs @ [255]"
    by (simp add: blob_def)
  have len: "11 + length (raws rs) < 2 ^ 32" "?t < 2 ^ 32"
    using assms(2) length_raws_le [of rs] last_off_le [of rs] by simp_all
  have "load ?zl p = Some ZIP_END"
    using load_end [of "zl_hdr (11 + length (raws rs)) ?t c @ raws rs" p] assms(3) unfolding zl by simp
  moreover have "ZIPLIST_ENTRY_TAIL ?zl = Some ?t"
    using len(2) unfolding zl ZIPLIST_ENTRY_TAIL_def by simp
  moreover have "(do { b \<leftarrow> load ?zl ?t; if b \<noteq> ZIP_END then zipRawEntryLength ?zl ?t else Some 0 }) = Some (tail_len 0 rs)"
  proof (cases rs rule: rev_cases)
    case Nil
    then show ?thesis
      using load_end [of "zl_hdr 11 10 c" 10] by (simp add: blob_def tail_len_def last_off_def)
  next
    case (snoc rs' r)
    then have "holds ?zl ?t (raw_bytes r)"
      using holds_mid [of "zl_hdr (11 + length (raws rs)) ?t c @ raws rs'" ?t "raw_bytes r" "[255]"]
      unfolding zl by (simp add: last_off_def)
    moreover have "wf_raw r" "rlen r < 2 ^ 32"
      using assms(1,2) snoc rlen_le [of r] by simp_all
    ultimately show ?thesis
      using holds_entry(3,6) [of ?zl ?t r] snoc by (auto simp: tail_len_def)
  qed
  ultimately show ?thesis
    by (simp add: insert_prevlen_def)
qed

lemma last_off_text: "rs \<noteq> [] \<Longrightarrow> last_off rs + 10 \<le> text_size (raw_texts rs)"
  by (cases rs rule: rev_cases) (use length_raws_le in \<open>auto simp: last_off_def add_increasing2\<close>)

text \<open>The move makes room for an entry of \<open>req\<close> bytes before \<open>nxt\<close> and sets the back link of \<open>nxt\<close>.\<close>

lemma insert_move_ok:
  assumes wfs: "\<forall>r\<in>set (nxt # rest). wf_raw r" "p = 10 + length pre" "N = length (blob pre (nxt # rest) c)"
    "length gap + prev_size (big nxt) = req + zipPrevEncodeLength_size req"
    "d = int (zipPrevEncodeLength_size req) - int (prev_size (big nxt))" "4 \<le> req \<or> \<not> big nxt"
    "11 + length pre + req + text_size (raw_texts (nxt # rest)) < 2 ^ 32"
    "M = N + length gap"
  shows "\<exists>gar. length gar = req \<and>
    insert_move (zl_hdr M (p + last_off (nxt # rest)) c @ pre @ raws (nxt # rest) @ gap @ [255]) p N req d =
      Some (blob (pre @ gar) (Raw (254 \<le> req) req (zv nxt) # rest) c)"
proof -
  have wf: "wf_raw nxt"
    using assms(1) by simp
  let ?nx = "Raw (254 \<le> req) req (zv nxt)" and ?y = "zip_body (zv nxt) @ raws rest"
  define T where "T = p + last_off (nxt # rest)"
  define fld where "fld = prev_field (big nxt) (prev nxt)"
  let ?zl = "(zl_hdr M T c @ pre) @ fld @ ?y @ gap @ [255]"
  have nxt: "raw_bytes nxt = fld @ zip_body (zv nxt)" "length fld = prev_size (big nxt)"
    by (simp_all add: raw_bytes_def fld_def)
  have N: "N = p + 1 + (prev_size (big nxt) + length ?y)"
    using assms(2,3) by (simp add: blob_def rlen_def)
  have nx: "int (rlen ?nx) = int (rlen nxt) + d" "prev_size (254 \<le> req) = zipPrevEncodeLength_size req"
    using assms(5) by (simp_all add: rlen_def prev_size_def zipPrevEncodeLength_size_def ZIP_BIGLEN_def)
  have d: "- 4 \<le> d" "d \<le> 4" "0 \<le> int (prev_size (big nxt)) + d"
    using assms(5) by (simp_all add: prev_size_def zipPrevEncodeLength_size_def)
  have req: "req < 2 ^ 32" "wf_raw ?nx"
    using assms(1,7) by (simp_all add: wf_raw_def)
  define src n where "src = nat (int p - d)" and "n = nat (int (prev_size (big nxt) + length ?y) + d)"
  have "holds ?zl p (raw_bytes nxt)"
    using holds_mid [of "zl_hdr M T c @ pre" p "raw_bytes nxt"] assms(2) by (simp add: nxt(1))
  then obtain b where b: "load ?zl p = Some b" "b \<noteq> ZIP_END"
    using holds_entry(3) [OF _ wf] by blast
  have small: "N < 2 ^ 32"
    using N assms(2,7) length_raws_le [of "nxt # rest"] by (simp add: rlen_def)
  have src: "ptr_sub p d = Some src" "int src = int p - d"
    using d(2) assms(2) by (simp_all add: ptr_sub_def src_def)
  have n: "nat ((int N - int p - 1 + d) mod 2 ^ 64) = n" "int n = int (prev_size (big nxt) + length ?y) + d"
    using d small by (simp_all add: N n_def)
  obtain gar fld' where mv: "length gar = req" "length fld' = zipPrevEncodeLength_size req"
    "move_n ?zl (p + req) src n = Some ((zl_hdr M T c @ pre) @ gar @ fld' @ ?y @ [255])"
    using insert_shift [of fld "big nxt" gap req d "zl_hdr M T c @ pre" src n ?y "[255]"] nxt(2) assms(2,4,5,6) src(2) n(2) by auto
  let ?out = "\<lambda>t. (zl_hdr M t c @ pre @ gar) @ raw_bytes ?nx @ raws rest @ [255]"
  have enc: "zipPrevEncodeLength ((zl_hdr M T c @ pre) @ gar @ fld' @ ?y @ [255]) (p + req) req = Some (?out T, length fld')"
    using zipPrevEncodeLength_mid [of "zl_hdr M T c @ pre @ gar" "p + req" fld' req "?y @ [255]"] mv(1,2) assms(2)
    by (simp add: raw_bytes_Raw)
  have "holds (?out t) (p + req) (raw_bytes ?nx)" for t
    using assms(2) mv(1) by (intro holds_mid) simp
  note entry = holds_entry(4) [OF this req(2)]
  have T: "T + 4 + req < 2 ^ 32"
    using last_off_text [of "nxt # rest"] assms(2,7) by (simp add: T_def)
  then have T': "T < 2 ^ 32" "T + req < 2 ^ 32"
    by simp_all
  have u32': "u32 (T + req) = T + req" "u32 req = req"
    using T' req(1) by (simp_all add: u32_id)
  have M: "M = 11 + length (pre @ gar) + length (raws (?nx # rest))"
    using nx(1) assms(2,4,5,8) N mv(1) by (simp add: rlen_def)
  have fin: "?out t = blob (pre @ gar) (?nx # rest) c" if "t = p + req + last_off (?nx # rest)" for t
    using that assms(2) mv(1) unfolding blob_def M by (simp add: add.assoc)
  have size: "req + headersize (entry_of q r) + zl_len (entry_of q r) = req + rlen r" for q r
    by (metis add.assoc entry_of_sel(4))
  have "insert_move ?zl p N req d = Some (blob (pre @ gar) (?nx # rest) c)"
  proof (cases rest)
    case Nil
    have "load (?out (T + req)) (p + (req + rlen ?nx)) = Some ZIP_END"
      using load_end [of "(zl_hdr M (T + req) c @ pre @ gar) @ raw_bytes ?nx" "p + (req + rlen ?nx)"] Nil assms(2) mv(1) by simp
    then have "insert_move ?zl p N req d = Some (?out (T + req))"
      using b src(1) n(1) mv(3) enc entry [of "T + req"] T' by (simp add: insert_move_def size u32')
    then show ?thesis
      using fin [of "T + req"] Nil by (simp add: T_def last_off_Cons)
  next
    case (Cons r rest')
    have "holds (?out (T + req)) (p + (req + rlen ?nx)) (raw_bytes r)"
      using holds_mid [of "(zl_hdr M (T + req) c @ pre @ gar) @ raw_bytes ?nx" "p + (req + rlen ?nx)" "raw_bytes r"] Cons assms(2) mv(1) by simp
    then obtain b' where b': "load (?out (T + req)) (p + (req + rlen ?nx)) = Some b'" "b' \<noteq> ZIP_END"
      using holds_entry(3) [of _ _ r] assms(1) Cons by force
    have "nat ((int (T + req) + d) mod 2 ^ 32) = p + req + last_off (?nx # rest)"
      using nx(1) T d Cons by (simp add: last_off_Cons T_def)
    moreover have "insert_move ?zl p N req d = Some (?out (nat ((int (T + req) + d) mod 2 ^ 32)))"
      using b src(1) n(1) mv(3) enc entry [of "T + req"] T' b' by (simp add: insert_move_def size u32')
    ultimately show ?thesis
      using fin by simp
  qed
  then show ?thesis
    using mv(1) nxt(1) by (auto simp: T_def)
qed

text \<open>What \<open>__ziplistInsert\<close> computes of the string before it touches the block.\<close>

lemma split_length3:
  assumes "length xs = i + j + k"
  shows "\<exists>a b c. xs = a @ b @ c \<and> length a = i \<and> length b = j \<and> length c = k"
proof -
  have "xs = take i xs @ take j (drop i xs) @ drop j (drop i xs)"
    by (simp del: drop_drop)
  moreover have "length (take i xs) = i" "length (take j (drop i xs)) = j" "length (drop j (drop i xs)) = k"
    using assms by simp_all
  ultimately show ?thesis
    by blast
qed

lemma insert_encoding:
  assumes "(v, encoding) = (case zipTryEncoding s of Some ve \<Rightarrow> ve | None \<Rightarrow> (123456789, 0))"
  obtains (str) "zipTryEncoding s = None" "encoding = 0" "val_of s = ZStr s"
  | (int) "zipTryEncoding s \<noteq> None" "encoding = zip_int_encoding v" "val_of s = ZInt v" "in_signed 64 v"
proof (cases "zipTryEncoding s")
  case None
  then show ?thesis
    using assms str by (simp add: val_of_def)
next
  case (Some ve)
  then show ?thesis
    using assms int zipTryEncoding_Some [of s v encoding] by (auto simp: val_of_def)
qed

lemma insert_header:
  assumes "(v, encoding) = (case zipTryEncoding s of Some ve \<Rightarrow> ve | None \<Rightarrow> (123456789, 0))"
  shows "(if zipTryEncoding s \<noteq> None then zipIntSize encoding else length s) + fst (zipEncodeLength encoding (length s)) =
      length (zip_body (val_of s))"
    and "zip_body (val_of s) = snd (zipEncodeLength encoding (length s)) @
      (if ZIP_IS_STR encoding then s else le_bytes (zipIntSize encoding) v)"
    and "length (snd (zipEncodeLength encoding (length s))) = fst (zipEncodeLength encoding (length s))"
  using assms by (cases rule: insert_encoding; simp add: zipEncodeLength_def)+

lemma insert_write_ok:
  assumes e: "(v, encoding) = (case zipTryEncoding s of Some ve \<Rightarrow> ve | None \<Rightarrow> (123456789, 0))"
    and "length a = p" "length gar = zipPrevEncodeLength_size q + length (zip_body (val_of s))"
  shows "insert_write (a @ gar @ b) p q s v encoding = Some (a @ raw_bytes (Raw (254 \<le> q) q (val_of s)) @ b)"
proof -
  let ?h = "snd (zipEncodeLength encoding (length s))" and ?n = "zipPrevEncodeLength_size q"
  define d where "d = (if ZIP_IS_STR encoding then s else le_bytes (zipIntSize encoding) v)"
  note hd = insert_header(2,3) [OF e, folded d_def]
  obtain g1 g2 g3 where g: "gar = g1 @ g2 @ g3" "length g1 = ?n" "length g2 = length ?h" "length g3 = length d"
    using split_length3 [of gar ?n "length ?h" "length d"] assms(3) hd by auto
  have 1: "zipPrevEncodeLength (a @ gar @ b) p q = Some (a @ prev_field (254 \<le> q) q @ g2 @ g3 @ b, ?n)"
    using zipPrevEncodeLength_mid [of a p g1 q "g2 @ g3 @ b"] assms(2) g(1,2) by simp
  have sz: "prev_size (254 \<le> q) = ?n"
    by (simp add: prev_size_def zipPrevEncodeLength_size_def ZIP_BIGLEN_def)
  have 2: "zipEncodeLength_at (a @ prev_field (254 \<le> q) q @ g2 @ g3 @ b) (p + ?n) encoding (length s) =
      Some (a @ prev_field (254 \<le> q) q @ ?h @ g3 @ b, length ?h)"
    using store_n_mid [of "a @ prev_field (254 \<le> q) q" "p + ?n" ?h g2 "g3 @ b"] assms(2) g(3) hd(2) sz
    by (simp add: zipEncodeLength_at_def)
  let ?a = "a @ prev_field (254 \<le> q) q @ ?h" and ?p = "p + ?n + length ?h"
  have "length ?a = ?p"
    using assms(2) sz by simp
  have 3: "(if ZIP_IS_STR encoding then store_n (?a @ g3 @ b) ?p s else zipSaveInteger (?a @ g3 @ b) ?p v encoding) = Some (?a @ d @ b)"
    using e
  proof (cases rule: insert_encoding)
    case str
    then have "d = s" "ZIP_IS_STR encoding"
      by (simp_all add: d_def)
    then show ?thesis
      using store_n_mid [OF \<open>length ?a = ?p\<close>, of s g3 b] g(4) by simp
  next
    case int
    then have "d = le_bytes (length g3) v" "\<not> ZIP_IS_STR encoding" "length g3 = zipIntSize encoding"
      using g(4) by (simp_all add: d_def)
    then show ?thesis
      using zipSaveInteger_mid [OF \<open>length ?a = ?p\<close>, of g3 v b] int(2,4) by simp
  qed
  show ?thesis
    unfolding insert_write_def using 1 2 3 [unfolded append.assoc] hd(1) by (simp add: raw_bytes_Raw Let_def)
qed

definition count_add :: "nat \<Rightarrow> int \<Rightarrow> nat" where
  "count_add c k = (if c < UINT16_MAX then nat ((int c + k) mod 2 ^ 16) else c)"

lemma ZIPLIST_INCR_LENGTH_blob:
  "c < 2 ^ 16 \<Longrightarrow> ZIPLIST_INCR_LENGTH (blob pre rs c) k = Some (blob pre rs (count_add c k))"
  by (simp add: ZIPLIST_INCR_LENGTH_def blob_def count_add_def)

definition new_raw :: "nat \<Rightarrow> byte list \<Rightarrow> raw" where
  "new_raw q s = Raw (254 \<le> q) q (val_of s)"

lemma rlen_new_raw: "rlen (new_raw q s) = length (zip_body (val_of s)) + zipPrevEncodeLength_size q"
  by (simp add: rlen_def new_raw_def prev_size_def zipPrevEncodeLength_size_def ZIP_BIGLEN_def)

lemma rlen_new_raw_le: "rlen (new_raw q s) \<le> 10 + length s"
  using rlen_le [of "new_raw q s"] by (simp add: new_raw_def)

lemma ziplistCascadeUpdate_blob:
  assumes "\<forall>r\<in>set (cur # rest). wf_raw r" "11 + length pre + text_size (raw_texts (cur # rest)) < 2 ^ 32" "p = 10 + length pre"
  shows "ziplistCascadeUpdate fill (blob pre (cur # rest) c) p = Some (blob pre (cascade (cur # rest)) c)"
proof -
  have "ZIPLIST_BYTES (blob pre (cur # rest) c) = Some (length (blob pre (cur # rest) c))"
    using assms(2) length_raws_le [of "cur # rest"] by (simp add: blob_def)
  then show ?thesis
    using cascade_loop_ok [OF assms(1,2)] assms(3) by (simp add: ziplistCascadeUpdate_def)
qed

lemma cascade_same: "chain (rlen cur) rest \<Longrightarrow> cascade (cur # rest) = cur # rest"
  by (cases rest) simp_all

lemma insert_write_blob:
  assumes "(v, e) = (case zipTryEncoding s of Some ve \<Rightarrow> ve | None \<Rightarrow> (123456789, 0))"
    "length gar = rlen (new_raw q s)" "p = 10 + length pre" "rs \<noteq> []"
  shows "insert_write (blob (pre @ gar) rs c) p q s v e = Some (blob pre (new_raw q s # rs) c)"
proof -
  let ?h = "zl_hdr (11 + length (pre @ gar) + length (raws rs)) (10 + length (pre @ gar) + last_off rs) c @ pre"
  have "insert_write (?h @ gar @ raws rs @ [255]) p q s v e = Some (?h @ raw_bytes (Raw (254 \<le> q) q (val_of s)) @ raws rs @ [255])"
    using assms(2,3) by (intro insert_write_ok [OF assms(1)]) (simp_all add: rlen_new_raw)
  then show ?thesis
    using assms(2,4) by (simp add: blob_def last_off_Cons ac_simps flip: new_raw_def)
qed

lemma ziplistInsert_at_steps:
  assumes ve: "(v, e) = (case zipTryEncoding s of Some ve \<Rightarrow> ve | None \<Rightarrow> (123456789, 0))"
    and "ZIPLIST_BYTES zl = Some N" "insert_prevlen zl p = Some q" "req = rlen (new_raw q s)" "load zl p = Some b"
    "(if b \<noteq> ZIP_END then zipPrevLenByteDiff zl p (u32 req) else Some 0) = Some d"
  shows "ziplistInsert_at fill zl p s = do {
     zl \<leftarrow> ziplistResize fill zl (nat ((int N + int req + d) mod 2 ^ 32));
     zl \<leftarrow> insert_move zl p N req d;
     zl \<leftarrow> (if d \<noteq> 0 then ziplistCascadeUpdate fill zl (p + req) else Some zl);
     zl \<leftarrow> insert_write zl p q s v e;
     ZIPLIST_INCR_LENGTH zl 1 }"
proof -
  have req: "(if zipTryEncoding s \<noteq> None then zipIntSize e else length s) + zipPrevEncodeLength_size q + fst (zipEncodeLength e (length s)) = req"
    using insert_header(1) [OF ve] assms(4) by (simp add: rlen_new_raw)
  then show ?thesis
    unfolding ziplistInsert_at_def by (simp only: assms(2,3,5,6) Let_def ve [symmetric] prod.case Option.bind.simps req)
qed

lemma ziplistInsert_at_middle:
  assumes wf: "\<forall>r\<in>set (nxt # rest). wf_raw r" and ch: "chain (rlen nxt) rest"
    and size: "11 + length pre + text_size (raw_texts (nxt # rest)) + 10 + length s < 2 ^ 32"
    and fits: "4 \<le> rlen (new_raw (prev nxt) s) \<or> \<not> big nxt" and c: "c < 2 ^ 16" and p: "p = 10 + length pre"
  shows "ziplistInsert_at fill (blob pre (nxt # rest) c) p s =
    Some (blob pre (new_raw (prev nxt) s # cascade (Raw (254 \<le> rlen (new_raw (prev nxt) s)) (rlen (new_raw (prev nxt) s)) (zv nxt) # rest))
      (count_add c 1))"
proof -
  let ?zl = "blob pre (nxt # rest) c" and ?q = "prev nxt"
  define req where "req = rlen (new_raw ?q s)"
  define N where "N = length ?zl"
  define d where "d = int (zipPrevEncodeLength_size req) - int (prev_size (big nxt))"
  let ?nx = "Raw (254 \<le> req) req (zv nxt)"
  obtain v e where ve: "(v, e) = (case zipTryEncoding s of Some ve \<Rightarrow> ve | None \<Rightarrow> (123456789, 0))"
    by (metis surj_pair)
  have zl: "?zl = zl_hdr N (p + last_off (nxt # rest)) c @ pre @ raws (nxt # rest) @ [255]"
    using p by (simp add: blob_def N_def add.assoc)
  have wfn: "wf_raw nxt"
    using wf by simp
  have "holds ?zl p (raw_bytes nxt)"
    using holds_mid [of "zl_hdr N (p + last_off (nxt # rest)) c @ pre" p "raw_bytes nxt"] p unfolding zl by simp
  note entry = holds_entry(2,3) [OF this wfn]
  obtain b where b: "load ?zl p = Some b" "b \<noteq> ZIP_END"
    using entry(2) by blast
  have req: "req \<le> 10 + length s" "req < 2 ^ 32" "req = length (zip_body (val_of s)) + zipPrevEncodeLength_size ?q"
    using rlen_new_raw_le [of ?q s] size by (simp_all add: req_def rlen_new_raw)
  have N: "N = 11 + length pre + length (raws (nxt # rest))"
    by (simp add: N_def blob_def)
  define g where "g = nat (int req + d)"
  have g: "int g = int req + d" "g + prev_size (big nxt) = req + zipPrevEncodeLength_size req"
    using fits rlen_pos [of "new_raw ?q s"] by (auto simp: g_def d_def prev_size_def zipPrevEncodeLength_size_def ZIP_BIGLEN_def req_def)
  have lim: "N + g < 2 ^ 32"
    using size length_raws_le [of rest] length_zip_body_le [of "zv nxt"] req(1) g(2)
    by (simp add: N rlen_def zipPrevEncodeLength_size_def split: if_splits)
  obtain gap where gap: "length gap = g"
    "ziplistResize fill ?zl (N + g) = Some (zl_hdr (N + g) (p + last_off (nxt # rest)) c @ pre @ raws (nxt # rest) @ gap @ [255])"
    using ziplistResize_grow [of "N + g" "pre @ raws (nxt # rest)" g fill N "p + last_off (nxt # rest)" c] N unfolding zl by auto
  have "11 + length pre + req + text_size (raw_texts (nxt # rest)) < 2 ^ 32"
    using size req(1) by simp
  then obtain gar where gar: "length gar = req"
    "insert_move (zl_hdr (N + g) (p + last_off (nxt # rest)) c @ pre @ raws (nxt # rest) @ gap @ [255]) p N req d =
      Some (blob (pre @ gar) (?nx # rest) c)"
    using insert_move_ok [OF wf p N_def _ d_def, of gap "N + g"] g(2) gap(1) fits by (auto simp: req_def)
  have casc: "(if d \<noteq> 0 then ziplistCascadeUpdate fill (blob (pre @ gar) (?nx # rest) c) (p + req) else Some (blob (pre @ gar) (?nx # rest) c)) =
    Some (blob (pre @ gar) (cascade (?nx # rest)) c)"
  proof (cases "d = 0")
    case True
    then have "rlen ?nx = rlen nxt"
      by (simp add: d_def rlen_def prev_size_def zipPrevEncodeLength_size_def ZIP_BIGLEN_def split: if_splits)
    then show ?thesis
      using True ch cascade_same [of ?nx rest] by simp
  next
    case False
    have "wf_raw ?nx"
      using wfn req(2) by (simp add: wf_raw_def)
    then show ?thesis
      using False ziplistCascadeUpdate_blob [of ?nx rest "pre @ gar" "p + req" fill c] wf size req(1) gar(1) p by simp
  qed
  have fin: "insert_write (blob (pre @ gar) (cascade (?nx # rest)) c) p ?q s v e = Some (blob pre (new_raw ?q s # cascade (?nx # rest)) c)"
    using insert_write_blob [OF ve, of gar ?q p pre] gar(1) p by (simp add: req_def)
  have bytes: "ZIPLIST_BYTES ?zl = Some N"
    using lim unfolding zl by simp
  have diff: "(if b \<noteq> ZIP_END then zipPrevLenByteDiff ?zl p (u32 req) else Some 0) = Some d"
    using entry(1) u32_id [OF req(2)] b(2) by (simp add: zipPrevLenByteDiff_def d_def)
  have new_size: "nat ((int N + int req + d) mod 2 ^ 32) = N + g"
    using g(1) lim by (simp add: add.assoc flip: g(1))
  show ?thesis
    unfolding ziplistInsert_at_steps [OF ve bytes insert_prevlen_middle [OF wfn p] req_def b(1) diff] req_def [symmetric]
    by (simp only: new_size gap(2) gar(2) casc fin ZIPLIST_INCR_LENGTH_blob [OF c] Option.bind.simps)
qed

lemma ziplistInsert_at_end:
  assumes wf: "\<forall>r\<in>set rs. wf_raw r" and size: "11 + text_size (raw_texts rs) + 10 + length s < 2 ^ 32"
    and c: "c < 2 ^ 16" and p: "p = 10 + length (raws rs)"
  shows "ziplistInsert_at fill (blob [] rs c) p s = Some (blob [] (rs @ [new_raw (tail_len 0 rs) s]) (count_add c 1))"
proof -
  let ?zl = "blob [] rs c" and ?q = "tail_len 0 rs" and ?T = "10 + last_off rs" and ?x = "raws rs"
  define req where "req = rlen (new_raw ?q s)"
  define N where "N = length ?zl"
  obtain v e where ve: "(v, e) = (case zipTryEncoding s of Some ve \<Rightarrow> ve | None \<Rightarrow> (123456789, 0))"
    by (metis surj_pair)
  have N: "N = 11 + length ?x" and zl: "?zl = zl_hdr N ?T c @ ?x @ [255]"
    by (simp_all add: blob_def N_def)
  have req: "req \<le> 10 + length s" "req < 2 ^ 32" "2 \<le> req"
    using rlen_new_raw_le [of ?q s] rlen_pos size by (simp_all add: req_def)
  have lim: "N + req < 2 ^ 32" "p < 2 ^ 32"
    using N size req(1) length_raws_le [of rs] p by simp_all
  have b: "load ?zl p = Some ZIP_END"
    using load_end [of "zl_hdr N ?T c @ ?x" p] p unfolding zl by simp
  have bytes: "ZIPLIST_BYTES ?zl = Some N"
    using lim unfolding zl by simp
  have "11 + text_size (raw_texts rs) < 2 ^ 32"
    using size by simp
  note prevlen = insert_prevlen_end [OF wf this p]
  obtain gap where gap: "length gap = req" "hd (gap @ [255]) = 255" and
    grow: "ziplistResize fill ?zl (N + req) = Some (zl_hdr (N + req) ?T c @ ?x @ gap @ [255])"
    using ziplistResize_grow [of "N + req" ?x req fill N ?T c] N unfolding zl by auto
  obtain gap' where "gap = 255 # gap'"
    using gap req(3) by (cases gap) auto
  then have "load (zl_hdr (N + req) ?T c @ ?x @ gap @ [255]) p = Some ZIP_END"
    using p by (simp add: load_def ZIP_END_def nth_append)
  then have mv: "insert_move (zl_hdr (N + req) ?T c @ ?x @ gap @ [255]) p N req 0 = Some (zl_hdr (N + req) p c @ ?x @ gap @ [255])"
    using lim(2) by (simp add: insert_move_def u32_id)
  have "insert_write ((zl_hdr (N + req) p c @ ?x) @ gap @ [255]) p ?q s v e = Some ((zl_hdr (N + req) p c @ ?x) @ raw_bytes (new_raw ?q s) @ [255])"
    using p gap(1) unfolding new_raw_def by (intro insert_write_ok [OF ve]) (simp_all add: req_def rlen_new_raw)
  then have fin: "insert_write (zl_hdr (N + req) p c @ ?x @ gap @ [255]) p ?q s v e = Some (blob [] (rs @ [new_raw ?q s]) c)"
    using p N by (simp add: blob_def last_off_def req_def add.assoc)
  have diff: "(if ZIP_END \<noteq> ZIP_END then zipPrevLenByteDiff ?zl p (u32 req) else Some 0) = Some (0 :: int)"
    by simp
  have new_size: "nat ((int N + int req + 0) mod 2 ^ 32) = N + req"
    using lim(1) by (simp add: nat_mod_distrib flip: of_nat_add)
  show ?thesis
    unfolding ziplistInsert_at_steps [OF ve bytes prevlen req_def b diff]
    by (simp only: new_size grow mv fin if_False simp_thms ZIPLIST_INCR_LENGTH_blob [OF c] Option.bind.simps)
qed

section \<open>Deletion\<close>

lemma skip_entries_raws:
  assumes "\<forall>r\<in>set xs. wf_raw r" "text_size (raw_texts xs) < 2 ^ 32" "length a = q"
  shows "skip_entries (a @ raws xs @ [255]) q k n = Some (q + length (raws (take n xs)), k + min n (length xs))"
  using assms
proof (induction xs arbitrary: a q k n)
  case Nil
  then show ?case
    using load_end [of a q] by (simp add: skip_entries.simps)
next
  case (Cons r xs)
  let ?zl = "a @ raws (r # xs) @ [255]"
  have "holds ?zl q (raw_bytes r)"
    using holds_mid [of a q "raw_bytes r" "raws xs @ [255]"] Cons.prems(3) by simp
  moreover have "wf_raw r" "rlen r < 2 ^ 32"
    using Cons.prems(1,2) rlen_le [of r] by simp_all
  ultimately obtain b where b: "load ?zl q = Some b" "b \<noteq> ZIP_END" "zipRawEntryLength ?zl q = Some (rlen r)"
    using holds_entry(3,6) by blast
  show ?case
  proof (cases n)
    case 0
    then show ?thesis
      using b(1,2) by (simp add: skip_entries.simps)
  next
    case (Suc m)
    have "skip_entries ((a @ raw_bytes r) @ raws xs @ [255]) (q + rlen r) (k + 1) m =
        Some (q + rlen r + length (raws (take m xs)), k + 1 + min m (length xs))"
      using Cons.prems by (intro Cons.IH) simp_all
    then show ?thesis
      using b Suc by (subst skip_entries.simps) simp
  qed
qed

lemma split_length2:
  assumes "length xs = i + j"
  shows "\<exists>a b. xs = a @ b \<and> length a = i \<and> length b = j"
  using split_length3 [of xs i j 0] assms by auto

lemma delete_move_ok:
  assumes wf: "\<forall>r\<in>set (nx # rest). wf_raw r" and first: "zl_p first = 10 + length a" "prevrawlen first = q"
    and N: "N = 11 + length a + length del + length (raws (nx # rest))" "N < 2 ^ 32"
    and p: "p = 10 + length a + length del" and q: "q < 2 ^ 32" "254 \<le> q \<longrightarrow> 4 \<le> length del" "del \<noteq> []"
    and d: "d = int (zipPrevEncodeLength_size q) - int (prev_size (big nx))"
    and lim: "p + last_off (nx # rest) + 4 < 2 ^ 32"
  shows "\<exists>y ys. delete_move (zl_hdr N (p + last_off (nx # rest)) c @ a @ del @ raws (nx # rest) @ [255]) first p (length del) =
    Some (zl_hdr N (10 + length a + last_off (Raw (254 \<le> q) q (zv nx) # rest)) c @ a @
      raws (Raw (254 \<le> q) q (zv nx) # rest) @ y # ys, d)"
proof -
  let ?nx = "Raw (254 \<le> q) q (zv nx)"
  define T where "T = p + last_off (nx # rest)"
  define fld where "fld = prev_field (big nx) (prev nx)"
  define k where "k = nat (int (length del) - d)"
  let ?y = "zip_body (zv nx) @ raws rest @ [255]"
  let ?zl = "zl_hdr N T c @ a @ del @ fld @ ?y"
  have wfn: "wf_raw nx"
    using wf by simp
  have nx: "raw_bytes nx = fld @ zip_body (zv nx)" "length fld = prev_size (big nx)"
    by (simp_all add: raw_bytes_def fld_def)
  have ds: "- 4 \<le> d" "d \<le> 4" "d \<le> int (length del)" "int (rlen ?nx) = int (rlen nx) + d"
    using q(2,3) by (auto simp: d prev_size_def zipPrevEncodeLength_size_def ZIP_BIGLEN_def rlen_def)
  have k: "int k = int (length del) - d"
    using ds by (simp add: k_def)
  have kl: "k + zipPrevEncodeLength_size q = length (del @ fld)"
    using k nx(2) by (simp add: d)
  obtain del' fld' where split: "del @ fld = del' @ fld'" "length del' = k" "length fld' = zipPrevEncodeLength_size q"
    using split_length2 [OF kl [symmetric]] by blast
  let ?out = "\<lambda>t. (zl_hdr N t c @ a) @ del' @ raws (?nx # rest) @ [255]"
  have zl_eq: "?zl = (zl_hdr N T c @ a @ del') @ fld' @ ?y"
    using split(1) by (metis append.assoc)
  have enc: "zipPrevEncodeLength ?zl (10 + length a + k) q = Some (?out T, zipPrevEncodeLength_size q)"
    unfolding zl_eq using zipPrevEncodeLength_mid [of "zl_hdr N T c @ a @ del'" "10 + length a + k" fld' q ?y] split(2,3) by (simp add: raw_bytes_Raw)
  have "holds ?zl p (raw_bytes nx)"
    using holds_mid [of "zl_hdr N T c @ a @ del" p "raw_bytes nx" "raws rest @ [255]"] p by (simp add: nx(1))
  then have diff: "zipPrevLenByteDiff ?zl p q = Some d"
    using holds_entry(2) [OF _ wfn] by (simp add: zipPrevLenByteDiff_def d)
  have sub: "ptr_sub p d = Some (10 + length a + k)"
    using k ds(3) by (simp add: ptr_sub_def p)
  have "wf_raw ?nx"
    using q(1) wfn by (simp add: wf_raw_def)
  moreover have "holds (?out t) (10 + length a + k) (raw_bytes ?nx)" for t
    using holds_mid [of "zl_hdr N t c @ a @ del'" "10 + length a + k" "raw_bytes ?nx" "raws rest @ [255]"] split(2) by simp
  ultimately have entry: "zipEntry (?out t) (10 + length a + k) = Some (entry_of (10 + length a + k) ?nx)" for t
    using holds_entry(4) by blast
  have r32: "rlen ?nx < 2 ^ 32"
    using ds(3,4) N by simp
  have size: "u32 (headersize (entry_of t ?nx) + zl_len (entry_of t ?nx)) = rlen ?nx" for t
    using u32_id [OF r32] by simp
  define T1 where "T1 = T - length del"
  have T1: "usub32 T (length del) = T1" "T < 2 ^ 32" "T1 < 2 ^ 32"
    using lim p by (simp_all add: usub32_id T_def T1_def)
  define T' where "T' = 10 + length a + last_off (?nx # rest)"
  have "\<exists>b. load (?out T1) (10 + length a + k + rlen ?nx) = Some b \<and>
      (if b \<noteq> ZIP_END then do {
         tailoff \<leftarrow> ZIPLIST_TAIL_OFFSET (?out T1);
         set_ZIPLIST_TAIL_OFFSET (?out T1) (nat ((int tailoff + d) mod 2 ^ 32)) }
       else Some (?out T1)) = Some (?out T')"
  proof (cases rest)
    case Nil
    then have "load (?out T1) (10 + length a + k + rlen ?nx) = Some ZIP_END"
      using load_end [of "zl_hdr N T1 c @ a @ del' @ raw_bytes ?nx" "10 + length a + k + rlen ?nx"] split(2) by simp
    moreover have "T1 = T'"
      using Nil p by (simp add: T1_def T'_def T_def last_off_Cons)
    ultimately show ?thesis
      by simp
  next
    case (Cons r rest')
    then have "holds (?out T1) (10 + length a + k + rlen ?nx) (raw_bytes r)"
      using holds_mid [of "zl_hdr N T1 c @ a @ del' @ raw_bytes ?nx" "10 + length a + k + rlen ?nx" "raw_bytes r" "raws rest' @ [255]"] split(2) by simp
    then obtain b where "load (?out T1) (10 + length a + k + rlen ?nx) = Some b" "b \<noteq> ZIP_END"
      using holds_entry(3) [of _ _ r] wf Cons by force
    moreover have "nat ((int T1 + d) mod 2 ^ 32) = T'"
      using Cons p ds lim by (simp add: T1_def T'_def T_def last_off_Cons)
    ultimately show ?thesis
      using T1(3) by simp
  qed
  then obtain b where set_tail: "load (?out T1) (10 + length a + k + rlen ?nx) = Some b"
      "(if b \<noteq> ZIP_END then do {
         tailoff \<leftarrow> ZIPLIST_TAIL_OFFSET (?out T1);
         set_ZIPLIST_TAIL_OFFSET (?out T1) (nat ((int tailoff + d) mod 2 ^ 32)) }
       else Some (?out T1)) = Some (?out T')"
    by blast
  have "usub64 N (10 + length a + k + 1) = length (raws (?nx # rest))"
    using N k ds(3,4) by (simp add: usub64_id)
  then have mv: "move_n (?out T') (10 + length a) (10 + length a + k) (usub64 N (10 + length a + k + 1)) =
      Some ((zl_hdr N T' c @ a) @ raws (?nx # rest) @ drop (length (raws (?nx # rest))) (del' @ raws (?nx # rest)) @ [255])"
    using split(2) by (intro move_n_left) simp_all
  obtain y ys where ys: "drop (length (raws (?nx # rest))) (del' @ raws (?nx # rest)) @ [255] = y # ys"
    by (meson list.exhaust snoc_eq_iff_butlast)
  have bytes: "ZIPLIST_BYTES (?out T') = Some N"
    using N(2) by simp
  have tail1: "ZIPLIST_TAIL_OFFSET (?out T) = Some T" "set_ZIPLIST_TAIL_OFFSET (?out T) T1 = Some (?out T1)"
    using T1(2) by simp_all
  have "delete_move ?zl first p (length del) = Some ((zl_hdr N T' c @ a) @ raws (?nx # rest) @ y # ys, d)"
    unfolding delete_move_def first
    by (simp only: diff sub enc tail1 T1(1) entry size set_tail bytes mv ys Option.bind.simps prod.case)
  then show ?thesis
    by (auto simp: nx(1) T_def T'_def)
qed

lemma ziplistDelete_num_steps:
  assumes wf: "\<forall>r\<in>set (ds @ bs). wf_raw r" and ds: "ds = take num (ds @ bs)" "ds \<noteq> []"
    and size: "11 + length pre + text_size (raw_texts (ds @ bs)) < 2 ^ 32" and p: "p = 10 + length pre"
  shows "ziplistDelete_num fill (blob pre (ds @ bs) c) p num = do {
    (zl, nextdiff) \<leftarrow> (if bs \<noteq> [] then delete_move (blob pre (ds @ bs) c) (entry_of p (hd ds)) (p + length (raws ds)) (length (raws ds))
      else delete_tail (blob pre (ds @ bs) c) (entry_of p (hd ds)));
    bytes \<leftarrow> ZIPLIST_BYTES zl;
    zl \<leftarrow> ziplistResize fill zl (nat ((int bytes - int (length (raws ds)) + nextdiff) mod 2 ^ 32));
    zl \<leftarrow> ZIPLIST_INCR_LENGTH zl (- int (length ds));
    if nextdiff \<noteq> 0 then ziplistCascadeUpdate fill zl p else Some zl }"
proof -
  let ?zl = "blob pre (ds @ bs) c"
  define h where "h = zl_hdr (11 + length pre + length (raws (ds @ bs))) (10 + length pre + last_off (ds @ bs)) c @ pre"
  have zl: "?zl = h @ raws (ds @ bs) @ [255]" and h: "length h = p"
    by (simp_all add: blob_def h_def p)
  obtain d ds' where d: "ds = d # ds'"
    using ds(2) by (cases ds) auto
  have "holds ?zl p (raw_bytes d)"
    using holds_mid [of h p "raw_bytes d" "raws (ds' @ bs) @ [255]"] h unfolding zl by (simp add: d)
  then have first: "zipEntry ?zl p = Some (entry_of p (hd ds))"
    using holds_entry(4) [of ?zl p d] wf d by simp
  have "text_size (raw_texts (ds @ bs)) < 2 ^ 32"
    using size by simp
  then have "skip_entries ?zl p 0 num = Some (p + length (raws (take num (ds @ bs))), 0 + min num (length (ds @ bs)))"
    unfolding zl using wf h by (intro skip_entries_raws) simp_all
  then have skip: "skip_entries ?zl p 0 num = Some (p + length (raws ds), length ds)"
    using ds(1) by (metis add_0 length_take min.commute)
  have l: "u32 (p + length (raws ds) - p) = length (raws ds)" "0 < length (raws ds)"
    using size length_raws_le [of ds] rlen_pos [of d] by (simp_all add: u32_id d)
  have "\<exists>b. load ?zl (p + length (raws ds)) = Some b \<and> (b \<noteq> ZIP_END \<longleftrightarrow> bs \<noteq> [])"
  proof (cases bs)
    case Nil
    then show ?thesis
      using load_end [of "h @ raws ds" "p + length (raws ds)"] h unfolding zl by simp
  next
    case (Cons r bs')
    then have "holds ?zl (p + length (raws ds)) (raw_bytes r)"
      using holds_mid [of "h @ raws ds" "p + length (raws ds)" "raw_bytes r" "raws bs' @ [255]"] h unfolding zl by simp
    then show ?thesis
      using holds_entry(3) [of ?zl _ r] wf Cons by force
  qed
  then obtain b where b: "load ?zl (p + length (raws ds)) = Some b" "(b \<noteq> ZIP_END) = (bs \<noteq> [])"
    by blast
  show ?thesis
    unfolding ziplistDelete_num_def
    by (simp only: first skip l b entry_of_sel(3) Let_def Option.bind.simps prod.case if_True)
qed

lemma last_off_append: "rs' \<noteq> [] \<Longrightarrow> last_off (rs @ rs') = length (raws rs) + last_off rs'"
  by (simp add: last_off_def butlast_append)

lemma ziplistDelete_num_middle:
  assumes wf: "\<forall>r\<in>set (ds @ nx # rest). wf_raw r" and ds: "ds = take num (ds @ nx # rest)" "ds \<noteq> []"
    and size: "11 + length pre + text_size (raw_texts (ds @ nx # rest)) < 2 ^ 32" and p: "p = 10 + length pre"
    and q: "q = prev (hd ds)" "254 \<le> q \<longrightarrow> big (hd ds)" and ch: "chain (rlen nx) rest" and c: "c < 2 ^ 16"
  shows "ziplistDelete_num fill (blob pre (ds @ nx # rest) c) p num =
    Some (blob pre (cascade (Raw (254 \<le> q) q (zv nx) # rest)) (count_add c (- int (length ds))))"
proof -
  let ?nx = "Raw (254 \<le> q) q (zv nx)" and ?del = "raws ds"
  define d where "d = int (zipPrevEncodeLength_size q) - int (prev_size (big nx))"
  define N where "N = 11 + length pre + length ?del + length (raws (nx # rest))"
  obtain e ds' where e: "ds = e # ds'"
    using ds(2) by (cases ds) auto
  have wfs: "\<forall>r\<in>set (nx # rest). wf_raw r" "wf_raw e"
    using wf e by simp_all
  have q32: "q < 2 ^ 32"
    using wfs(2) e q(1) by (auto simp: wf_raw_def split: if_splits)
  have q4: "254 \<le> q \<longrightarrow> 4 \<le> length ?del" "?del \<noteq> []"
    using q(2) e rlen_pos [of e] by (auto simp: rlen_def prev_size_def simp flip: length_greater_0_conv)
  have N: "N < 2 ^ 32" "p + length ?del + last_off (nx # rest) + 4 < 2 ^ 32"
    using size length_raws_le [of "ds @ nx # rest"] last_off_text [of "nx # rest"] length_raws_le [of ds] p by (simp_all add: N_def)
  have zl: "blob pre (ds @ nx # rest) c = zl_hdr N (p + length ?del + last_off (nx # rest)) c @ pre @ ?del @ raws (nx # rest) @ [255]"
    using p by (simp add: blob_def N_def last_off_def butlast_append ac_simps)
  obtain y ys where mv: "delete_move (blob pre (ds @ nx # rest) c) (entry_of p (hd ds)) (p + length ?del) (length ?del) =
      Some (zl_hdr N (p + last_off (?nx # rest)) c @ pre @ raws (?nx # rest) @ y # ys, d)"
    using delete_move_ok [OF wfs(1), of "entry_of p (hd ds)" pre q N ?del "p + length ?del" d c] q(1) q32 q4 N p
    unfolding zl d_def N_def by auto
  have nx: "int (rlen ?nx) = int (rlen nx) + d"
    by (simp add: d_def rlen_def prev_size_def zipPrevEncodeLength_size_def ZIP_BIGLEN_def)
  define M where "M = 11 + length pre + length (raws (?nx # rest))"
  have M: "nat ((int N - int (length ?del) + d) mod 2 ^ 32) = M"
  proof -
    have "int N - int (length ?del) + d = int M"
      using nx by (simp add: N_def M_def)
    moreover have "M < 2 ^ 32"
      using size length_raws_le [of "?nx # rest"] by (simp add: M_def)
    ultimately show ?thesis
      by simp
  qed
  have rs: "ziplistResize fill (zl_hdr N (p + last_off (?nx # rest)) c @ pre @ raws (?nx # rest) @ y # ys) M = Some (blob pre (?nx # rest) c)"
    using ziplistResize_shrink [of M "pre @ raws (?nx # rest)" fill N "p + last_off (?nx # rest)" c y ys] p
    by (simp add: M_def blob_def)
  have wfn: "wf_raw ?nx"
    using q32 wfs(1) by (simp add: wf_raw_def)
  have casc: "(if d \<noteq> 0 then ziplistCascadeUpdate fill (blob pre (?nx # rest) k) p else Some (blob pre (?nx # rest) k)) =
    Some (blob pre (cascade (?nx # rest)) k)" for k
  proof (cases "d = 0")
    case True
    then show ?thesis
      using ch nx cascade_same [of ?nx rest] by simp
  next
    case False
    then show ?thesis
      using ziplistCascadeUpdate_blob [of ?nx rest pre p fill k] wfn wfs(1) size p by simp
  qed
  have bytes: "ZIPLIST_BYTES (zl_hdr N (p + last_off (?nx # rest)) c @ pre @ raws (?nx # rest) @ y # ys) = Some N"
    using N(1) by simp
  have "nx # rest \<noteq> []"
    by simp
  then show ?thesis
    unfolding ziplistDelete_num_steps [OF wf ds size p]
    by (simp only: mv bytes M rs casc ZIPLIST_INCR_LENGTH_blob [OF c] Option.bind.simps prod.case if_True simp_thms)
qed

lemma ziplistDelete_num_tail:
  assumes wf: "\<forall>r\<in>set (as @ ds). wf_raw r" and ds: "ds = take num ds" "ds \<noteq> []"
    and size: "11 + text_size (raw_texts (as @ ds)) < 2 ^ 32" and p: "p = 10 + length (raws as)"
    and q: "prev (hd ds) = tail_len 0 as" and c: "c < 2 ^ 16"
  shows "ziplistDelete_num fill (blob [] (as @ ds) c) p num = Some (blob [] as (count_add c (- int (length ds))))"
proof -
  let ?N = "11 + length (raws as) + length (raws ds)" and ?T = "p + last_off ds"
  have zl: "blob [] (as @ ds) c = blob (raws as) (ds @ []) c" "blob [] (as @ ds) c = zl_hdr ?N ?T c @ raws as @ raws ds @ [255]"
    using ds(2) p by (simp_all add: last_off_append blob_def ac_simps)
  have N: "?N < 2 ^ 32" "p < 2 ^ 32"
    using size length_raws_le [of "as @ ds"] p by simp_all
  have T': "usub32 p (tail_len 0 as) = 10 + last_off as"
    using N(2) by (cases as rule: rev_cases) (simp_all add: p tail_len_def last_off_def usub32_id)
  have tl: "delete_tail (blob (raws as) (ds @ []) c) (entry_of p (hd ds)) = Some (zl_hdr ?N (10 + last_off as) c @ raws as @ raws ds @ [255], 0)"
    unfolding zl(1) [symmetric] zl(2) using q T' by (simp add: delete_tail_def)
  obtain y ys where y: "raws ds @ [255] = y # ys"
    by (meson list.exhaust snoc_eq_iff_butlast)
  have bytes: "ZIPLIST_BYTES (zl_hdr ?N (10 + last_off as) c @ raws as @ raws ds @ [255]) = Some ?N"
    using N(1) by simp
  have M: "nat ((int ?N - int (length (raws ds)) + 0) mod 2 ^ 32) = 11 + length (raws as)"
    using N(1) by (simp add: nat_mod_distrib flip: of_nat_add)
  have rs: "ziplistResize fill (zl_hdr ?N (10 + last_off as) c @ raws as @ raws ds @ [255]) (11 + length (raws as)) = Some (blob [] as c)"
    unfolding y using ziplistResize_shrink [of "11 + length (raws as)" "raws as" fill ?N "10 + last_off as" c y ys] by (simp add: blob_def)
  have a: "\<forall>r\<in>set (ds @ []). wf_raw r" "ds = take num (ds @ [])" "11 + length (raws as) + text_size (raw_texts (ds @ [])) < 2 ^ 32"
    using wf ds(1) size length_raws_le [of as] by auto
  show ?thesis
    unfolding zl(1) ziplistDelete_num_steps [OF a(1,2) ds(2) a(3) p]
    by (simp only: tl bytes M rs ZIPLIST_INCR_LENGTH_blob [OF c] Option.bind.simps prod.case if_False simp_thms)
qed

end
