(* ===== verification/Ziplist_Refinement.thy ===== *)
theory Ziplist_Refinement
  imports Ziplist_Updates
begin

text \<open>
  A ziplist is a list of byte strings. \<open>zl_rep\<close> relates a block to its entries, with consistent back
  links, header fields and integer encodings; every operation is shown to do to the texts of
  the entries what it should, and the one insertion that destroys the block is exhibited.
\<close>

section \<open>Representation\<close>

definition count_ok :: "nat \<Rightarrow> nat \<Rightarrow> bool" where
  "count_ok c n \<longleftrightarrow> c \<le> UINT16_MAX \<and> (c = n \<or> c = UINT16_MAX)"

definition zl_rep :: "byte list \<Rightarrow> raw list \<Rightarrow> bool" where
  "zl_rep zl rs \<longleftrightarrow> (\<exists>c. zl = blob [] rs c \<and> count_ok c (length rs)) \<and> chain 0 rs \<and> (rs \<noteq> [] \<longrightarrow> \<not> big (hd rs)) \<and>
     (\<forall>r\<in>set rs. wf_raw r \<and> zv r = val_of (zip_text (zv r))) \<and> 11 + text_size (raw_texts rs) < 2 ^ 32"

definition pos :: "raw list \<Rightarrow> nat \<Rightarrow> nat" where
  "pos rs i = 10 + length (raws (take i rs))"

lemma count_ok_add: "count_ok c n \<Longrightarrow> count_ok (count_add c 1) (n + 1)"
  by (auto simp: count_ok_def count_add_def UINT16_MAX_def nat_add_distrib)

lemma count_ok_sub: "count_ok c n \<Longrightarrow> k \<le> n \<Longrightarrow> count_ok (count_add c (- int k)) (n - k)"
  by (auto simp: count_ok_def count_add_def UINT16_MAX_def)

lemma count_ok_16: "count_ok c n \<Longrightarrow> c < 2 ^ 16"
  by (simp add: count_ok_def UINT16_MAX_def)

lemma zl_rep_blob:
  assumes "zl_rep zl rs"
  obtains c where "zl = blob [] rs c" "count_ok c (length rs)"
  using assms by (auto simp: zl_rep_def)

lemma zl_repI:
  assumes "count_ok c (length rs)" "chain 0 rs" "rs \<noteq> [] \<Longrightarrow> \<not> big (hd rs)"
    "\<forall>r\<in>set rs. wf_raw r \<and> zv r = val_of (zip_text (zv r))" "11 + text_size (raw_texts rs) < 2 ^ 32"
  shows "zl_rep (blob [] rs c) rs"
  using assms by (auto simp: zl_rep_def)

lemma length_cascade [simp]: "length (cascade rs) = length rs"
  using arg_cong [OF cascade_zv, of length rs] by (simp del: cascade_zv)

lemma raw_texts_cascade [simp]: "raw_texts (cascade rs) = raw_texts rs"
proof -
  have "raw_texts xs = map zip_text (map zv xs)" for xs
    by simp
  then show ?thesis
    by (simp only: cascade_zv)
qed

lemma hd_cascade [simp]: "rs \<noteq> [] \<Longrightarrow> hd (cascade rs) = hd rs"
  by (cases rs rule: cascade.cases) simp_all

lemma cascade_canon: "\<forall>r\<in>set rs. P (zv r) \<Longrightarrow> \<forall>r\<in>set (cascade rs). P (zv r)"
proof -
  assume "\<forall>r\<in>set rs. P (zv r)"
  then have "\<forall>v\<in>set (map zv (cascade rs)). P v"
    unfolding cascade_zv by simp
  then show ?thesis
    by (simp del: cascade_zv)
qed

lemma ziplistNew_rep: "\<exists>zl. ziplistNew fill = Some zl \<and> zl_rep zl []"
proof -
  obtain a b d where m: "map fill [0..<11] = a @ b @ d" "length a = 4" "length b = 4" "length d = 3"
    using split_length3 [of "map fill [0..<11]" 4 4 3] by auto
  obtain c e where d: "d = c @ e" "length c = 2" "length e = 1"
    using split_length2 [of d 2 1] m(4) by auto
  obtain x where x: "e = [x]"
    using d(3) by (auto simp: length_Suc_conv)
  have "set_ZIPLIST_BYTES (map fill [0..<11]) 11 = Some (le_bytes 4 11 @ b @ c @ [x])"
    using m d x store_n_mid [of "[]" 0 "le_bytes 4 11" a "b @ c @ [x]"] by (simp add: set_ZIPLIST_BYTES_def)
  moreover have "set_ZIPLIST_TAIL_OFFSET (le_bytes 4 11 @ b @ c @ [x]) 10 = Some (le_bytes 4 11 @ le_bytes 4 10 @ c @ [x])"
    using m(3) store_n_mid [of "le_bytes 4 11" 4 "le_bytes 4 10" b "c @ [x]"] by (simp add: set_ZIPLIST_TAIL_OFFSET_def)
  moreover have "set_ZIPLIST_LENGTH (le_bytes 4 11 @ le_bytes 4 10 @ c @ [x]) 0 = Some (le_bytes 4 11 @ le_bytes 4 10 @ le_bytes 2 0 @ [x])"
    using d(2) store_n_mid [of "le_bytes 4 11 @ le_bytes 4 10" 8 "le_bytes 2 0" c "[x]"] by (simp add: set_ZIPLIST_LENGTH_def)
  moreover have "store (le_bytes 4 11 @ le_bytes 4 10 @ le_bytes 2 0 @ [x]) 10 255 = Some (blob [] [] 0)"
    using store_mid [of "le_bytes 4 11 @ le_bytes 4 10 @ le_bytes 2 0" 10 x "[]" 255] by (simp add: blob_def last_off_def zl_hdr_def)
  ultimately have "ziplistNew fill = Some (blob [] [] 0)"
    by (simp add: ziplistNew_def ZIPLIST_HEADER_SIZE_def ZIP_END_def)
  then show ?thesis
    by (auto simp: zl_rep_def count_ok_def)
qed

text \<open>Inserting before entry \<open>i\<close>, or at the end. The condition excludes the one case the code gets wrong.\<close>

definition raw_insert :: "nat \<Rightarrow> byte list \<Rightarrow> raw list \<Rightarrow> raw list" where
  "raw_insert i s rs =
     (let new = new_raw (tail_len 0 (take i rs)) s in
      case drop i rs of
        [] \<Rightarrow> rs @ [new]
      | nxt # rest \<Rightarrow> take i rs @ new # cascade (Raw (254 \<le> rlen new) (rlen new) (zv nxt) # rest))"

definition insert_fits :: "nat \<Rightarrow> byte list \<Rightarrow> raw list \<Rightarrow> bool" where
  "insert_fits i s rs \<longleftrightarrow> i < length rs \<longrightarrow> big (rs ! i) \<longrightarrow> 4 \<le> rlen (new_raw (prev (rs ! i)) s)"

definition raw_delete :: "nat \<Rightarrow> nat \<Rightarrow> raw list \<Rightarrow> raw list" where
  "raw_delete i n rs =
     (case drop (i + n) rs of
        [] \<Rightarrow> take i rs
      | nx # rest \<Rightarrow> let q = prev (rs ! i) in take i rs @ cascade (Raw (254 \<le> q) q (zv nx) # rest))"

lemma raw_texts_insert: "raw_texts (raw_insert i s rs) = take i (raw_texts rs) @ s # drop i (raw_texts rs)"
proof (cases "drop i rs")
  case Nil
  then show ?thesis
    by (simp add: raw_insert_def new_raw_def take_map drop_map)
next
  case (Cons nxt rest)
  then show ?thesis
    by (simp add: raw_insert_def new_raw_def take_map drop_map Let_def)
qed

lemma raw_texts_delete: "raw_texts (raw_delete i n rs) = take i (raw_texts rs) @ drop (i + n) (raw_texts rs)"
  by (cases "drop (i + n) rs") (simp_all add: raw_delete_def take_map drop_map Let_def)

lemma tail_len_less: "text_size (raw_texts rs) < 2 ^ 32 \<Longrightarrow> tail_len 0 rs < 2 ^ 32"
proof (cases rs rule: rev_cases)
  case (snoc rs' r)
  moreover assume "text_size (raw_texts rs) < 2 ^ 32"
  ultimately show ?thesis
    using rlen_le [of r] by (simp add: tail_len_def)
qed (simp add: tail_len_def)

lemma insert_rep:
  assumes "zl_rep zl rs" "i \<le> length rs" "11 + text_size (raw_texts rs) + 10 + length s < 2 ^ 32" "insert_fits i s rs"
  shows "\<exists>zl'. ziplistInsert_at fill zl (pos rs i) s = Some zl' \<and> zl_rep zl' (raw_insert i s rs)"
proof -
  obtain c where c: "zl = blob [] rs c" "count_ok c (length rs)"
    using assms(1) by (rule zl_rep_blob)
  let ?as = "take i rs" and ?q = "tail_len 0 (take i rs)" and ?c = "count_add c 1"
  define new where "new = new_raw ?q s"
  have rep: "chain 0 rs" "rs \<noteq> [] \<longrightarrow> \<not> big (hd rs)" "\<forall>r\<in>set rs. wf_raw r \<and> zv r = val_of (zip_text (zv r))"
    using assms(1) by (simp_all add: zl_rep_def)
  have "text_size (raw_texts ?as) \<le> text_size (raw_texts rs)"
    by (metis append_take_drop_id le_add1 map_append text_size_simps(3))
  then have "?q < 2 ^ 32"
    using assms(3) tail_len_less [of ?as] by simp
  then have new: "wf_raw new" "zv new = val_of (zip_text (zv new))" "prev new = ?q" "254 \<le> ?q \<longrightarrow> big new" "big new \<longrightarrow> 254 \<le> ?q"
    using wf_val_of [of s] assms(3) by (simp_all add: new_def new_raw_def wf_raw_def)
  show ?thesis
  proof (cases "drop i rs")
    case Nil
    then have i: "take i rs = rs" "pos rs i = 10 + length (raws rs)"
      using assms(2) by (simp_all add: pos_def)
    have "ziplistInsert_at fill zl (pos rs i) s = Some (blob [] (rs @ [new]) ?c)"
      unfolding c(1) new_def i(1) using rep(3) assms(3) count_ok_16 [OF c(2)] i(2) by (intro ziplistInsert_at_end) simp_all
    moreover have "zl_rep (blob [] (rs @ [new]) ?c) (rs @ [new])"
      using rep new count_ok_add [OF c(2)] assms(3) i(1)
      by (auto simp: zl_rep_def chain_append hd_append tail_len_def new_def new_raw_def)
    ultimately show ?thesis
      using Nil by (simp add: raw_insert_def new_def)
  next
    case (Cons nxt rest)
    let ?nx = "Raw (254 \<le> rlen new) (rlen new) (zv nxt)"
    have rs: "rs = ?as @ nxt # rest" "nxt = rs ! i"
      using Cons assms(2) by (metis append_take_drop_id, metis nth_via_drop)
    have ch: "chain 0 ?as" "prev nxt = ?q" "chain (rlen nxt) rest" "254 \<le> ?q \<longrightarrow> big nxt"
      using rep(1) rs(1) chain_append [of 0 ?as "nxt # rest"] by simp_all
    have wf: "\<forall>r\<in>set ?as. wf_raw r" "\<forall>r\<in>set (nxt # rest). wf_raw r"
      "\<forall>r\<in>set ?as. zv r = val_of (zip_text (zv r))" "\<forall>r\<in>set (nxt # rest). zv r = val_of (zip_text (zv r))"
      using rep(3) rs(1) by (metis Un_iff set_append)+
    have size: "11 + text_size (raw_texts ?as) + text_size (raw_texts (nxt # rest)) + 10 + length s < 2 ^ 32"
      using assms(3) rs(1) by (metis add.assoc map_append text_size_simps(3))
    have fits: "4 \<le> rlen (new_raw (prev nxt) s) \<or> \<not> big nxt"
      using assms(4) rs(2) Cons by (auto simp: insert_fits_def)
    have "ziplistInsert_at fill (blob (raws ?as) (nxt # rest) c) (pos rs i) s = Some (blob (raws ?as) (new # cascade (?nx # rest)) ?c)"
      unfolding new_def ch(2) [symmetric]
      using size length_raws_le [of ?as] fits count_ok_16 [OF c(2)] by (intro ziplistInsert_at_middle [OF wf(2) ch(3)]) (simp_all add: pos_def)
    moreover have "blob (raws ?as) (nxt # rest) c = zl"
      unfolding c(1) by (subst rs(1)) (simp add: blob_append)
    moreover have "blob (raws ?as) (new # cascade (?nx # rest)) ?c = blob [] (?as @ new # cascade (?nx # rest)) ?c"
      by (simp add: blob_append)
    moreover have "zl_rep (blob [] (?as @ new # cascade (?nx # rest)) ?c) (?as @ new # cascade (?nx # rest))"
    proof -
      have r32: "rlen new < 2 ^ 32" "zip_text (zv new) = s"
        using rlen_new_raw_le [of ?q s] assms(3) by (simp_all add: new_def new_raw_def)
      then have nx: "wf_raw ?nx"
        using wf(2) by (simp add: wf_raw_def)
      have "chain (rlen new) (cascade (?nx # rest))"
        using ch(3) wf(2) by (intro cascade_chain) (cases rest; simp)+
      then have chain: "chain 0 (?as @ new # cascade (?nx # rest))"
        using ch(1) new(3,4) by (simp add: chain_append)
      have hd: "\<not> big (hd (?as @ new # cascade (?nx # rest)))"
        using rep(2) rs(1) new(5) by (cases ?as) (auto simp: tail_len_def)
      have "\<forall>r\<in>set (cascade (?nx # rest)). wf_raw r"
        using nx wf(2) size by (intro cascade_wf) simp_all
      moreover have "\<forall>r\<in>set (cascade (?nx # rest)). zv r = val_of (zip_text (zv r))"
        using wf(4) by (intro cascade_canon) simp
      ultimately have all: "\<forall>r\<in>set (?as @ new # cascade (?nx # rest)). wf_raw r \<and> zv r = val_of (zip_text (zv r))"
        using wf(1,3) new(1,2) by (metis Un_iff set_ConsD set_append)
      have "length (?as @ new # cascade (?nx # rest)) = length rs + 1"
        using arg_cong [OF rs(1), of length] by simp
      then have "count_ok ?c (length (?as @ new # cascade (?nx # rest)))"
        by (simp only: count_ok_add [OF c(2)])
      then show ?thesis
        using chain hd all size r32(2) by (intro zl_repI) simp_all
    qed
    ultimately show ?thesis
      using Cons by (simp add: raw_insert_def new_def Let_def)
  qed
qed

lemma delete_rep:
  assumes "zl_rep zl rs" "i < length rs" "0 < n"
  shows "\<exists>zl'. ziplistDelete_num fill zl (pos rs i) n = Some zl' \<and> zl_rep zl' (raw_delete i n rs)"
proof -
  obtain c where c: "zl = blob [] rs c" "count_ok c (length rs)"
    using assms(1) by (rule zl_rep_blob)
  have rep: "chain 0 rs" "rs \<noteq> [] \<longrightarrow> \<not> big (hd rs)" "\<forall>r\<in>set rs. wf_raw r \<and> zv r = val_of (zip_text (zv r))"
    "11 + text_size (raw_texts rs) < 2 ^ 32"
    using assms(1) by (simp_all add: zl_rep_def)
  define as ds bs where "as = take i rs" and "ds = take n (drop i rs)" and "bs = drop (i + n) rs"
  let ?q = "prev (rs ! i)"
  let ?c = "count_add c (- int (length ds))"
  have "ds @ bs = drop i rs"
    unfolding ds_def bs_def by (metis append_take_drop_id drop_drop add.commute)
  then have rs: "rs = as @ ds @ bs" "ds \<noteq> []" "hd ds = rs ! i"
    using assms(2,3) by (simp_all add: as_def ds_def hd_drop_conv_nth)
  have rd: "raw_delete i n rs = (case bs of [] \<Rightarrow> as | nx # rest \<Rightarrow> as @ cascade (Raw (254 \<le> ?q) ?q (zv nx) # rest))"
    by (simp add: raw_delete_def as_def bs_def Let_def split: list.split)
  have pos: "pos rs i = 10 + length (raws as)"
    by (simp add: pos_def as_def)
  have ch: "chain 0 as" "chain (tail_len 0 as) ds" "chain (tail_len (tail_len 0 as) ds) bs"
    using rep(1) by (simp_all add: rs(1) chain_append)
  have d: "prev (hd ds) = tail_len 0 as" "254 \<le> ?q \<longrightarrow> big (hd ds)"
    using ch(2) rs(2,3) by (cases ds; simp)+
  have n: "ds = take n ds"
    by (simp add: ds_def)
  have wf: "\<forall>r\<in>set as. wf_raw r \<and> zv r = val_of (zip_text (zv r))" "\<forall>r\<in>set ds. wf_raw r"
    "\<forall>r\<in>set bs. wf_raw r \<and> zv r = val_of (zip_text (zv r))"
    using rep(3) rs(1) by (metis Un_iff set_append)+
  have size: "11 + text_size (raw_texts as) + text_size (raw_texts ds) + text_size (raw_texts bs) < 2 ^ 32"
    using rep(4) rs(1) by (metis add.assoc map_append text_size_simps(3))
  have len: "length rs = length as + length ds + length bs"
    using arg_cong [OF rs(1), of length] by simp
  have cnt: "count_ok ?c (length as + length bs)"
    using count_ok_sub [OF c(2), of "length ds"] len by simp
  have hd: "as \<noteq> [] \<Longrightarrow> \<not> big (hd as)"
    using rep(2) unfolding as_def by (cases rs; cases i) auto
  show ?thesis
  proof (cases bs)
    case Nil
    have "ziplistDelete_num fill (blob [] (as @ ds) c) (pos rs i) n = Some (blob [] as ?c)"
      using wf size d n rs(2) Nil pos count_ok_16 [OF c(2)] by (intro ziplistDelete_num_tail) auto
    moreover have "zl_rep (blob [] as ?c) as"
      using cnt Nil ch(1) hd wf(1) size by (intro zl_repI) simp_all
    moreover have "zl = blob [] (as @ ds) c" "raw_delete i n rs = as"
      using c(1) rs(1) rd Nil by simp_all
    ultimately show ?thesis
      by simp
  next
    case (Cons nx rest)
    let ?nx = "Raw (254 \<le> ?q) ?q (zv nx)"
    have len_n: "i + n < length rs"
      using Cons unfolding bs_def by (metis drop_all leI list.distinct(1))
    have nxt: "wf_raw nx" "\<forall>r\<in>set rest. wf_raw r" "chain (rlen nx) rest"
      using wf(3) ch(3) Cons by simp_all
    have "ziplistDelete_num fill (blob (raws as) (ds @ nx # rest) c) (pos rs i) n = Some (blob (raws as) (cascade (?nx # rest)) ?c)"
    proof (rule ziplistDelete_num_middle)
      show "ds = take n (ds @ nx # rest)"
        using len_n by (simp add: ds_def)
      show "11 + length (raws as) + text_size (raw_texts (ds @ nx # rest)) < 2 ^ 32"
        using size length_raws_le [of as] Cons by simp
    qed (use wf(2) nxt rs d count_ok_16 [OF c(2)] pos in \<open>auto simp: rs(3)\<close>)
    moreover have "blob (raws as) (ds @ nx # rest) c = zl"
      unfolding c(1) by (subst rs(1)) (simp add: blob_append Cons)
    moreover have "blob (raws as) (cascade (?nx # rest)) ?c = blob [] (as @ cascade (?nx # rest)) ?c"
      by (simp add: blob_append)
    moreover have "zl_rep (blob [] (as @ cascade (?nx # rest)) ?c) (as @ cascade (?nx # rest))"
    proof (rule zl_repI)
      have q32: "?q < 2 ^ 32" "?q = tail_len 0 as"
        using tail_len_less [of as] size d(1) rs(3) by simp_all
      then have nx: "wf_raw ?nx"
        using nxt(1) by (simp add: wf_raw_def)
      have "chain ?q (cascade (?nx # rest))"
        using nxt by (intro cascade_chain) (cases rest; simp)+
      then show "chain 0 (as @ cascade (?nx # rest))"
        using ch(1) q32(2) by (simp add: chain_append)
      show "count_ok ?c (length (as @ cascade (?nx # rest)))"
        using cnt Cons by simp
      show "\<not> big (hd (as @ cascade (?nx # rest)))"
        using hd q32(2) by (cases as) (auto simp: tail_len_def)
      have "\<forall>r\<in>set (cascade (?nx # rest)). wf_raw r"
        using nx nxt(2) size Cons by (intro cascade_wf) simp_all
      moreover have "\<forall>r\<in>set (cascade (?nx # rest)). zv r = val_of (zip_text (zv r))"
        using wf(3) Cons by (intro cascade_canon) simp
      ultimately show "\<forall>r\<in>set (as @ cascade (?nx # rest)). wf_raw r \<and> zv r = val_of (zip_text (zv r))"
        using wf(1) by (metis Un_iff set_append)
      show "11 + text_size (raw_texts (as @ cascade (?nx # rest))) < 2 ^ 32"
        using size Cons by simp
    qed
    ultimately show ?thesis
      using rd Cons by simp
  qed
qed

section \<open>Reading\<close>

lemma pos_Suc: "i < length rs \<Longrightarrow> pos rs (Suc i) = pos rs i + rlen (rs ! i)"
  by (simp add: pos_def take_Suc_conv_app_nth)

lemma rep_entry:
  assumes "zl_rep zl rs" "i < length rs"
  shows "holds zl (pos rs i) (raw_bytes (rs ! i))" "wf_raw (rs ! i)" "rlen (rs ! i) < 2 ^ 32"
proof -
  obtain c where c: "zl = blob [] rs c"
    using assms(1) by (rule zl_rep_blob)
  have rs: "rs = take i rs @ rs ! i # drop (Suc i) rs"
    using assms(2) by (rule id_take_nth_drop)
  have "zl = (zl_hdr (11 + length (raws rs)) (10 + last_off rs) c @ raws (take i rs)) @ raw_bytes (rs ! i) @ raws (drop (Suc i) rs) @ [255]"
    unfolding c blob_def by (subst (3) rs) simp
  then show "holds zl (pos rs i) (raw_bytes (rs ! i))"
    using holds_mid [of "zl_hdr (11 + length (raws rs)) (10 + last_off rs) c @ raws (take i rs)" "pos rs i"] by (simp add: pos_def)
  show "wf_raw (rs ! i)"
    using assms by (simp add: zl_rep_def)
  have "10 + length (zip_text (zv (rs ! i))) \<le> text_size (raw_texts rs)"
    by (subst rs) simp
  then show "rlen (rs ! i) < 2 ^ 32"
    using rlen_le [of "rs ! i"] assms(1) by (simp add: zl_rep_def)
qed

lemma rep_end:
  assumes "zl_rep zl rs"
  shows "load zl (pos rs (length rs)) = Some ZIP_END" "ZIPLIST_ENTRY_TAIL zl = Some (pos rs (length rs - 1))"
    "ZIPLIST_ENTRY_END zl = Some (pos rs (length rs))" "ZIPLIST_BYTES zl = Some (length zl)"
proof -
  obtain c where c: "zl = blob [] rs c"
    using assms(1) by (rule zl_rep_blob)
  have lim: "11 + length (raws rs) < 2 ^ 32" "10 + last_off rs < 2 ^ 32"
    using assms length_raws_le [of rs] last_off_le [of rs] by (simp_all add: zl_rep_def)
  show "load zl (pos rs (length rs)) = Some ZIP_END"
    using load_end [of "zl_hdr (11 + length (raws rs)) (10 + last_off rs) c @ raws rs" "pos rs (length rs)"]
    by (simp add: c blob_def pos_def)
  show "ZIPLIST_ENTRY_TAIL zl = Some (pos rs (length rs - 1))"
    using lim(2) by (simp add: ZIPLIST_ENTRY_TAIL_def c blob_def pos_def last_off_def butlast_conv_take)
  show "ZIPLIST_BYTES zl = Some (length zl)" "ZIPLIST_ENTRY_END zl = Some (pos rs (length rs))"
    using lim(1) by (simp_all add: ZIPLIST_ENTRY_END_def c blob_def pos_def)
qed

lemma rep_prev:
  assumes "zl_rep zl rs" "i < length rs"
  shows "prev (rs ! i) = (if i = 0 then 0 else rlen (rs ! (i - 1)))"
proof -
  have "chain 0 (take i rs @ rs ! i # drop (Suc i) rs)"
    using assms id_take_nth_drop [of i rs] by (simp add: zl_rep_def)
  then have "prev (rs ! i) = tail_len 0 (take i rs)"
    by (simp add: chain_append)
  then show ?thesis
    using assms(2) by (auto simp: tail_len_def last_conv_nth)
qed

lemma rep_decode:
  assumes "zl_rep zl rs" "i < length rs"
  shows "\<exists>b. load zl (pos rs i) = Some b \<and> b \<noteq> ZIP_END" "zipRawEntryLength zl (pos rs i) = Some (rlen (rs ! i))"
    "ZIP_DECODE_PREVLEN zl (pos rs i) = Some (prev_size (big (rs ! i)), if i = 0 then 0 else rlen (rs ! (i - 1)))"
    "zipEntry zl (pos rs i) = Some (entry_of (pos rs i) (rs ! i))"
  using holds_entry [OF rep_entry(1,2) [OF assms]] rep_entry(3) [OF assms] rep_prev [OF assms] by simp_all

lemma index_forth_rep:
  assumes "zl_rep zl rs" "i \<le> length rs"
  shows "index_forth zl (pos rs i) k =
    Some (if i + k < length rs then (pos rs (i + k), -1) else (pos rs (length rs), int (i + k - length rs)))"
  using assms(2)
proof (induction k arbitrary: i)
  case 0
  show ?case
  proof (cases "i < length rs")
    case True
    then show ?thesis
      using rep_decode(1) [OF assms(1) True] by (auto simp: index_forth.simps)
  next
    case False
    then show ?thesis
      using rep_end(1) [OF assms(1)] 0 by (simp add: index_forth.simps)
  qed
next
  case (Suc k)
  show ?case
  proof (cases "i < length rs")
    case True
    then show ?thesis
      using rep_decode(1,2) [OF assms(1) True] Suc.IH [of "Suc i"] by (auto simp: index_forth.simps [of _ _ "Suc k"] pos_Suc)
  next
    case False
    then show ?thesis
      using rep_end(1) [OF assms(1)] Suc.prems by (simp add: index_forth.simps)
  qed
qed

lemma index_back_rep:
  assumes "zl_rep zl rs" "i < length rs"
  shows "index_back zl (pos rs i) (if i = 0 then 0 else rlen (rs ! (i - 1))) k =
    Some (pos rs (i - k), if k < i then -1 else int (k - i))"
  using assms(2)
proof (induction k arbitrary: i)
  case 0
  then show ?case
    using rlen_pos [of "rs ! (i - 1)"] by (simp add: index_back.simps)
next
  case (Suc k)
  show ?case
  proof (cases i)
    case 0
    then show ?thesis
      by (simp add: index_back.simps)
  next
    case (Suc j)
    have "ptr_sub (pos rs i) (int (rlen (rs ! j))) = Some (pos rs j)"
      using Suc Suc.prems pos_Suc [of j rs] by (simp add: ptr_sub_def)
    then show ?thesis
      using Suc Suc.prems Suc.IH [of j] rlen_pos [of "rs ! j"] rep_decode(3) [OF assms(1), of j]
      by (simp add: index_back.simps [of _ _ _ "Suc k"])
  qed
qed

lemma ziplistIndex_forth:
  assumes "zl_rep zl rs"
  shows "ziplistIndex zl (int i) = Some (if i < length rs then Some (pos rs i) else None)"
proof -
  have "pos rs 0 = ZIPLIST_ENTRY_HEAD"
    by (simp add: pos_def ZIPLIST_ENTRY_HEAD_def ZIPLIST_HEADER_SIZE_def)
  then show ?thesis
    using index_forth_rep [OF assms, of 0 i] rep_end(1) [OF assms] rep_decode(1) [OF assms, of i] by (auto simp: ziplistIndex_def)
qed

lemma ziplistIndex_back:
  assumes "zl_rep zl rs" "i < 2 ^ 31"
  shows "ziplistIndex zl (- 1 - int i) = Some (if i < length rs then Some (pos rs (length rs - 1 - i)) else None)"
proof (cases "rs = []")
  case True
  then show ?thesis
    using rep_end [OF assms(1)] by (simp add: ziplistIndex_def Let_def split_beta)
next
  case False
  let ?n = "length rs - 1"
  have n: "?n < length rs"
    using False by simp
  have idx: "to_signed 32 (to_signed 32 (- (- 1 - int i)) - 1) = int i"
  proof (cases "i = 2 ^ 31 - 1")
    case True
    then show ?thesis
      by (simp add: to_signed_def)
  next
    case False
    then have "int i < 2 ^ 31 - 1"
      using assms(2) by simp
    then show ?thesis
      by (simp add: to_signed_id)
  qed
  have neg: "(- 1 - int i < 0) = True"
    by simp
  have "ziplistIndex zl (- 1 - int i) = do {
      (p, index) \<leftarrow> Some (pos rs (?n - i), if i < ?n then -1 else int (i - ?n));
      b \<leftarrow> load zl p;
      Some (if b = ZIP_END \<or> 0 < index then None else Some p) }"
  proof -
    obtain b where "load zl (pos rs ?n) = Some b" "(b \<noteq> ZIP_END) = True"
      using rep_decode(1) [OF assms(1) n] by blast
    then show ?thesis
      unfolding ziplistIndex_def Let_def idx
      by (simp only: neg rep_end(2) [OF assms(1)] rep_decode(3) [OF assms(1) n] index_back_rep [OF assms(1) n, of i] nat_int
          Option.bind.simps prod.case if_True)
  qed
  moreover obtain b where "load zl (pos rs (?n - i)) = Some b" "b \<noteq> ZIP_END"
    using rep_decode(1) [OF assms(1), of "?n - i"] n by fastforce
  ultimately show ?thesis
    using n by auto
qed

text \<open>What \<open>ziplistGet\<close> hands out, as text.\<close>

definition got_text :: "byte list \<Rightarrow> zl_got \<Rightarrow> byte list" where
  "got_text zl g = (case g of GotStr p n \<Rightarrow> slice zl p n | GotInt v \<Rightarrow> ll_repr v)"

lemma rep_payload:
  assumes "zl_rep zl rs" "i < length rs"
  shows "case zv (rs ! i) of ZStr s \<Rightarrow> holds zl (pos rs i + headersize (entry_of (pos rs i) (rs ! i))) s
    | ZInt v \<Rightarrow> zipLoadInteger zl (pos rs i + headersize (entry_of (pos rs i) (rs ! i))) (val_encoding (zv (rs ! i))) = Some v"
proof -
  let ?r = "rs ! i"
  have "holds zl (pos rs i + prev_size (big ?r)) (zip_body (zv ?r))"
    using rep_entry(1) [OF assms] by (simp add: raw_bytes_def holds_append)
  moreover have "wf_val (zv ?r)"
    using rep_entry(2) [OF assms] by (simp add: wf_raw_def)
  moreover have "length (snd (zipEncodeLength 0 (length s))) = val_lensize (ZStr s)" for s
    by (simp add: zipEncodeLength_def val_lensize_def)
  ultimately show ?thesis
    by (cases "zv ?r")
      (auto simp: holds_append holds_Cons entry_of_def val_lensize_def val_encoding_def add.assoc intro!: zipLoadInteger_holds)
qed

lemma ziplistGet_rep:
  assumes "zl_rep zl rs" "i < length rs"
  shows "\<exists>g. ziplistGet zl (Some (pos rs i)) = Some (Some g) \<and> got_text zl g = zip_text (zv (rs ! i)) \<and>
    (\<forall>v. g = GotInt v \<longleftrightarrow> zv (rs ! i) = ZInt v)"
proof -
  let ?r = "rs ! i" and ?e = "entry_of (pos rs i) (rs ! i)"
  obtain b where b: "load zl (pos rs i) = Some b" "b \<noteq> ZIP_END"
    using rep_decode(1) [OF assms] by blast
  show ?thesis
  proof (cases "zv ?r")
    case (ZStr s)
    have "holds zl (pos rs i + headersize ?e) s" "zl_len ?e = length s"
      using rep_payload [OF assms] ZStr by (simp_all add: entry_of_def val_len_def)
    then have "slice zl (pos rs i + headersize ?e) (zl_len ?e) = s"
      using load_n_holds by (force simp: load_n_def split: if_splits)
    then show ?thesis
      using b rep_decode(4) [OF assms] ZStr
      by (intro exI [of _ "GotStr (pos rs i + headersize ?e) (zl_len ?e)"]) (simp add: ziplistGet_def got_text_def val_encoding_is_str)
  next
    case (ZInt v)
    then show ?thesis
      using b rep_decode(4) [OF assms] rep_payload [OF assms]
      by (intro exI [of _ "GotInt v"]) (simp add: ziplistGet_def got_text_def val_encoding_is_str)
  qed
qed

lemma ziplistNext_rep:
  assumes "zl_rep zl rs" "i \<le> length rs"
  shows "ziplistNext zl (pos rs i) = Some (if i + 1 < length rs then Some (pos rs (i + 1)) else None)"
proof (cases "i < length rs")
  case True
  obtain b where "load zl (pos rs (Suc i)) = Some b" "b \<noteq> ZIP_END \<longleftrightarrow> Suc i < length rs"
  proof (cases "Suc i < length rs")
    case False
    then have "Suc i = length rs"
      using True by simp
    then show thesis
      using that [of ZIP_END] rep_end(1) [OF assms(1)] by simp
  qed (use rep_decode(1) [OF assms(1)] that in blast)
  then show ?thesis
    using rep_decode(1,2) [OF assms(1) True] True by (auto simp: ziplistNext_def pos_Suc)
next
  case False
  then show ?thesis
    using rep_end(1) [OF assms(1)] assms(2) by (simp add: ziplistNext_def)
qed

lemma ziplistPrev_rep:
  assumes "zl_rep zl rs" "i \<le> length rs"
  shows "ziplistPrev zl (pos rs i) = Some (if 0 < i then Some (pos rs (i - 1)) else None)"
proof (cases "i < length rs")
  case True
  then show ?thesis
  proof (cases i)
    case 0
    then show ?thesis
      using rep_decode(1) [OF assms(1) True] by (auto simp: ziplistPrev_def pos_def ZIPLIST_ENTRY_HEAD_def ZIPLIST_HEADER_SIZE_def)
  next
    case (Suc j)
    have "pos rs i = pos rs j + rlen (rs ! j)" "pos rs i \<noteq> ZIPLIST_ENTRY_HEAD"
      using Suc True pos_Suc [of j rs] rlen_pos [of "rs ! j"]
      by (simp_all add: pos_def ZIPLIST_ENTRY_HEAD_def ZIPLIST_HEADER_SIZE_def)
    then show ?thesis
      using Suc rep_decode(1,3) [OF assms(1) True] rlen_pos [of "rs ! j"] by (auto simp: ziplistPrev_def ptr_sub_def)
  qed
next
  case False
  then have i: "i = length rs"
    using assms(2) by simp
  show ?thesis
  proof (cases "rs = []")
    case True
    then show ?thesis
      using rep_end(1,2) [OF assms(1)] i by (simp add: ziplistPrev_def)
  next
    case False
    then show ?thesis
      using rep_end(1,2) [OF assms(1)] rep_decode(1) [OF assms(1), of "length rs - 1"] i by (auto simp: ziplistPrev_def)
  qed
qed

lemma zipTryEncoding_ll_repr:
  assumes "in_signed 64 v"
  shows "zipTryEncoding (ll_repr v) = Some (v, zip_int_encoding v)"
proof -
  have "length (ll_repr v) < 32" "ll_repr v \<noteq> []"
    using assms length_dec_le [of 30 "nat v"] length_dec_le [of 30 "nat (- v)"] by (auto simp: ll_repr_def)
  then show ?thesis
    using string2ll_ll_repr [OF assms] by (simp add: zipTryEncoding_def)
qed

lemma zipTryEncoding_eq:
  assumes "in_signed 64 v"
  shows "ll_repr v = s \<longleftrightarrow> (case zipTryEncoding s of Some (sval, _) \<Rightarrow> v = sval | None \<Rightarrow> False)"
  using zipTryEncoding_Some [of s] zipTryEncoding_ll_repr [OF assms] by (auto split: option.splits)

lemma zip_int_encoding_distinct: "zip_int_encoding v \<noteq> 0" "zip_int_encoding v \<noteq> 255"
proof -
  have "\<forall>v\<in>set [0..12]. ZIP_INT_IMM_MIN + of_int v \<noteq> 0 \<and> ZIP_INT_IMM_MIN + of_int v \<noteq> 255"
    by code_simp
  then show "zip_int_encoding v \<noteq> 0" "zip_int_encoding v \<noteq> 255"
    by (cases v rule: zip_int_encoding_cases; auto simp: zip_consts)+
qed

lemma len_loop_rep:
  assumes "zl_rep zl rs" "i \<le> length rs" "k + (length rs - i) < 2 ^ 32"
  shows "len_loop zl (pos rs i) k = Some (k + (length rs - i))"
  using assms(2,3)
proof (induction "length rs - i" arbitrary: i k)
  case 0
  then show ?case
    using rep_end(1) [OF assms(1)] by (simp add: len_loop.simps)
next
  case (Suc n)
  then have i: "i < length rs"
    by simp
  have "len_loop zl (pos rs (Suc i)) (k + 1) = Some (k + 1 + (length rs - Suc i))"
    using Suc i by (intro Suc.hyps(1)) simp_all
  then show ?case
    using rep_decode(1,2) [OF assms(1) i] i Suc.prems(2) by (auto simp: len_loop.simps [of zl "pos rs i"] pos_Suc u32_id)
qed

lemma length_le_text_size: "length ts \<le> text_size ts"
  by (induction ts) simp_all

lemma ziplistLen_rep:
  assumes "zl_rep zl rs"
  shows "\<exists>zl'. ziplistLen zl = Some (zl', length rs) \<and> zl_rep zl' rs"
proof -
  obtain c where c: "zl = blob [] rs c" "count_ok c (length rs)"
    using assms(1) by (rule zl_rep_blob)
  have len: "ZIPLIST_LENGTH zl = Some c"
    using count_ok_16 [OF c(2)] by (simp add: c(1) blob_def)
  show ?thesis
  proof (cases "c < UINT16_MAX")
    case True
    then show ?thesis
      using len c(2) assms by (auto simp: ziplistLen_def count_ok_def)
  next
    case False
    have "length rs < 2 ^ 32"
      using assms length_le_text_size [of "raw_texts rs"] by (simp add: zl_rep_def)
    then have "len_loop zl ZIPLIST_HEADER_SIZE 0 = Some (length rs)"
      using len_loop_rep [OF assms, of 0 0] by (simp add: pos_def ZIPLIST_HEADER_SIZE_def)
    moreover have "set_ZIPLIST_LENGTH zl n = Some (blob [] rs n)" for n
      by (simp add: c(1) blob_def)
    moreover have "zl_rep (blob [] rs (length rs)) rs" if "length rs < UINT16_MAX"
      using that assms by (intro zl_repI) (simp_all add: zl_rep_def count_ok_def)
    ultimately show ?thesis
      using False len assms by (auto simp: ziplistLen_def)
  qed
qed

lemma ziplistCompare_rep:
  assumes "zl_rep zl rs" "i < length rs"
  shows "ziplistCompare zl (pos rs i) s = Some (zip_text (zv (rs ! i)) = s)"
proof -
  let ?e = "entry_of (pos rs i) (rs ! i)"
  obtain b where b: "load zl (pos rs i) = Some b" "b \<noteq> ZIP_END"
    using rep_decode(1) [OF assms] by blast
  show ?thesis
  proof (cases "zv (rs ! i)")
    case (ZStr t)
    have "holds zl (pos rs i + headersize ?e) t" "zl_len ?e = length t"
      using rep_payload [OF assms] ZStr by (simp_all add: entry_of_def val_len_def)
    then show ?thesis
      using b rep_decode(4) [OF assms] ZStr load_n_holds [of zl _ t] by (auto simp: ziplistCompare_def val_encoding_is_str)
  next
    case (ZInt v)
    then have "in_signed 64 v"
      using rep_entry(2) [OF assms] by (simp add: wf_raw_def)
    then show ?thesis
      using b rep_decode(4) [OF assms] rep_payload [OF assms] ZInt zipTryEncoding_eq [of v s]
      by (auto simp: ziplistCompare_def val_encoding_is_str split: option.splits)
  qed
qed

section \<open>Searching\<close>

text \<open>The first element equal to \<open>v\<close>, looking at every \<open>skip + 1\<close>-th one after the first \<open>cnt\<close>.\<close>

fun find_index :: "byte list list \<Rightarrow> byte list \<Rightarrow> nat \<Rightarrow> nat \<Rightarrow> nat option" where
  "find_index [] v skip cnt = None"
| "find_index (t # ts) v skip 0 = (if t = v then Some 0 else map_option Suc (find_index ts v skip skip))"
| "find_index (t # ts) v skip (Suc cnt) = map_option Suc (find_index ts v skip cnt)"

definition find_state :: "byte list \<Rightarrow> byte \<Rightarrow> int \<Rightarrow> bool" where
  "find_state vstr e v \<longleftrightarrow> e = 0 \<or> e = 255 \<and> zipTryEncoding vstr = None \<or> e \<noteq> 0 \<and> e \<noteq> 255 \<and> zipTryEncoding vstr = Some (v, e)"

lemma find_encode_ok:
  assumes "find_state vstr e v"
  obtains e' v' where "find_encode vstr e v = Some (e', v')" "find_state vstr e' v'" "e' \<noteq> 0"
    "e' = 255 \<longleftrightarrow> zipTryEncoding vstr = None" "e' \<noteq> 255 \<longrightarrow> zipTryEncoding vstr = Some (v', e')"
proof (cases "e = 0")
  case True
  show ?thesis
  proof (cases "zipTryEncoding vstr")
    case None
    then show ?thesis
      using True that [of 255 v] by (simp add: find_encode_def find_state_def)
  next
    case (Some ve)
    then obtain v' e' where ve: "zipTryEncoding vstr = Some (v', e')"
      by (cases ve) auto
    then have "e' \<noteq> 0" "e' \<noteq> 255"
      using zipTryEncoding_Some [OF ve] zip_int_encoding_distinct by auto
    then show ?thesis
      using True that [of e' v'] ve by (simp add: find_encode_def find_state_def)
  qed
next
  case False
  then have "find_encode vstr e v = Some (e, v)" "e = 255 \<longleftrightarrow> zipTryEncoding vstr = None" "e \<noteq> 255 \<longrightarrow> zipTryEncoding vstr = Some (v, e)"
    using assms unfolding find_encode_def find_state_def by auto
  then show ?thesis
    by (rule that [OF _ assms False])
qed

lemma find_compare_rep:
  assumes "zl_rep zl rs" "i < length rs" "find_state vstr e v"
  shows "\<exists>e' v'. find_compare zl (pos rs i + headersize (entry_of (pos rs i) (rs ! i))) (val_encoding (zv (rs ! i))) (val_len (zv (rs ! i))) vstr e v =
    Some (zip_text (zv (rs ! i)) = vstr, e', v') \<and> find_state vstr e' v'"
proof (cases "zv (rs ! i)")
  case (ZStr t)
  then have "holds zl (pos rs i + headersize (entry_of (pos rs i) (rs ! i))) t"
    using rep_payload [OF assms(1,2)] by simp
  from load_n_holds [OF this] show ?thesis
    using assms(3) ZStr by (auto simp: find_compare_def val_encoding_is_str val_len_def)
next
  case (ZInt w)
  have "in_signed 64 w"
    using ZInt rep_entry(2) [OF assms(1,2)] by (simp add: wf_raw_def)
  note eq = zipTryEncoding_eq [OF this, of vstr]
  obtain e' v' where "find_encode vstr e v = Some (e', v')" "find_state vstr e' v'" "e' = 255 \<longleftrightarrow> zipTryEncoding vstr = None"
    "e' \<noteq> 255 \<longrightarrow> zipTryEncoding vstr = Some (v', e')"
    using assms(3) by (rule find_encode_ok)
  then show ?thesis
    using eq ZInt rep_payload [OF assms(1,2)] by (cases "e' = 255") (auto simp: find_compare_def val_encoding_is_str)
qed

lemma find_loop_rep:
  assumes "zl_rep zl rs" "skip < 2 ^ 31"
  shows "i \<le> length rs \<Longrightarrow> find_state vstr e v \<Longrightarrow>
    find_loop zl (pos rs i) vstr skip (int cnt) e v = Some (map_option (\<lambda>j. pos rs (i + j)) (find_index (drop i (raw_texts rs)) vstr skip cnt))"
proof (induction "length rs - i" arbitrary: i cnt e v)
  case 0
  then show ?case
    using rep_end(1) [OF assms(1)] by (simp add: find_loop.simps)
next
  case (Suc n)
  then have i: "i < length rs"
    by simp
  let ?r = "rs ! i"
  have dr: "drop i (raw_texts rs) = zip_text (zv ?r) # drop (Suc i) (raw_texts rs)"
    using i by (simp add: Cons_nth_drop_Suc [symmetric])
  have nxt: "pos rs i + prev_size (big ?r) + val_lensize (zv ?r) + val_len (zv ?r) = pos rs (Suc i)"
    using i by (simp add: pos_Suc rlen_def length_zip_body)
  have q: "pos rs i + headersize (entry_of (pos rs i) ?r) = pos rs i + prev_size (big ?r) + val_lensize (zv ?r)"
    by (simp add: entry_of_def)
  obtain e' v' where cmp: "find_compare zl (pos rs i + prev_size (big ?r) + val_lensize (zv ?r)) (val_encoding (zv ?r)) (val_len (zv ?r)) vstr e v =
      Some (zip_text (zv ?r) = vstr, e', v')" "find_state vstr e' v'"
    using find_compare_rep [OF assms(1) i Suc.prems(2)] unfolding q by blast
  have IH: "find_loop zl (pos rs (Suc i)) vstr skip (int k) f w =
      Some (map_option (\<lambda>j. pos rs (Suc i + j)) (find_index (drop (Suc i) (raw_texts rs)) vstr skip k))" if "find_state vstr f w" for k f w
    using Suc(2) i that by (intro Suc.hyps(1)) simp_all
  have sk: "to_signed 32 (int skip) = int skip"
    using assms(2) by (intro to_signed_id) simp_all
  note dec = holds_entry(2,5) [OF rep_entry(1,2) [OF assms(1) i]]
  obtain b where b: "load zl (pos rs i) = Some b" "b \<noteq> ZIP_END"
    using rep_decode(1) [OF assms(1) i] by blast
  show ?case
  proof (cases cnt)
    case 0
    then show ?thesis
      using b dec cmp IH [of e' v' skip] sk by (subst find_loop.simps) (simp add: dr nxt option.map_comp comp_def)
  next
    case (Suc k)
    then show ?thesis
      using b dec IH [OF Suc.prems(2), of k] by (subst find_loop.simps) (simp add: dr nxt option.map_comp comp_def)
  qed
qed

definition visited :: "nat \<Rightarrow> nat \<Rightarrow> nat \<Rightarrow> bool" where
  "visited skip cnt j \<longleftrightarrow> cnt \<le> j \<and> (j - cnt) mod (skip + 1) = 0"

lemma visited_simps [simp]:
  "visited skip 0 0" "visited skip 0 (Suc j) \<longleftrightarrow> visited skip skip j"
  "visited skip (Suc cnt) (Suc j) \<longleftrightarrow> visited skip cnt j" "\<not> visited skip (Suc cnt) 0"
proof -
  show "visited skip 0 (Suc j) \<longleftrightarrow> visited skip skip j"
  proof (cases "skip \<le> j")
    case True
    then have "Suc j = (j - skip) + (skip + 1)"
      by simp
    then have "Suc j mod (skip + 1) = (j - skip) mod (skip + 1)"
      by (metis mod_add_self2)
    then show ?thesis
      using True by (simp add: visited_def)
  qed (simp add: visited_def)
qed (simp_all add: visited_def)

lemma find_index_Some:
  "find_index ts v skip cnt = Some j \<Longrightarrow>
    j < length ts \<and> visited skip cnt j \<and> ts ! j = v \<and> (\<forall>k<j. visited skip cnt k \<longrightarrow> ts ! k \<noteq> v)"
proof (induction ts v skip cnt arbitrary: j rule: find_index.induct)
  case (2 t ts v skip)
  show ?case
  proof (cases "t = v")
    case False
    then obtain z where z: "find_index ts v skip skip = Some z" "j = Suc z"
      using "2.prems" by auto
    show ?thesis
      unfolding z(2) using "2.IH" [OF False z(1)] False by (simp add: All_less_Suc2)
  qed (use "2.prems" in simp)
next
  case (3 t ts v skip cnt)
  then obtain z where z: "find_index ts v skip cnt = Some z" "j = Suc z"
    by auto
  show ?case
    unfolding z(2) using "3.IH" [OF z(1)] by (simp add: All_less_Suc2)
qed simp

lemma find_index_None:
  "find_index ts v skip cnt = None \<Longrightarrow> \<forall>k<length ts. visited skip cnt k \<longrightarrow> ts ! k \<noteq> v"
  by (induction ts v skip cnt rule: find_index.induct) (simp_all add: All_less_Suc2 split: if_splits)

section \<open>Insertion before an oversized back link\<close>

lemma insert_overread:
  assumes wf: "\<forall>r\<in>set (nxt # rest). wf_raw r" and big: "big nxt" and req: "rlen (new_raw (prev nxt) s) = 2"
    and size: "11 + length pre + text_size (raw_texts (nxt # rest)) < 2 ^ 32" and p: "p = 10 + length pre"
  shows "ziplistInsert_at fill (blob pre (nxt # rest) c) p s = None"
proof -
  let ?zl = "blob pre (nxt # rest) c" and ?T = "10 + length pre + last_off (nxt # rest)"
  define N where "N = length ?zl"
  obtain v e where ve: "(v, e) = (case zipTryEncoding s of Some ve \<Rightarrow> ve | None \<Rightarrow> (123456789, 0))"
    by (metis surj_pair)
  have wfn: "wf_raw nxt"
    using wf by simp
  have N: "N = 11 + length pre + length (raws (nxt # rest))" "N < 2 ^ 32"
    using size length_raws_le [of "nxt # rest"] by (simp_all add: N_def blob_def)
  have zl: "?zl = zl_hdr N ?T c @ pre @ raws (nxt # rest) @ [255]"
    by (simp add: blob_def N)
  have "holds ?zl p (raw_bytes nxt)"
    using holds_mid [of "zl_hdr N ?T c @ pre" p "raw_bytes nxt"] p unfolding zl by simp
  note entry = holds_entry(2,3) [OF this wfn]
  obtain b where b: "load ?zl p = Some b" "b \<noteq> ZIP_END"
    using entry(2) by blast
  have bytes: "ZIPLIST_BYTES ?zl = Some N"
    using N(2) unfolding zl by simp
  have diff: "(if b \<noteq> ZIP_END then zipPrevLenByteDiff ?zl p (u32 2) else Some 0) = Some (- 4)"
    using entry(1) b(2) big by (simp add: zipPrevLenByteDiff_def zipPrevEncodeLength_size_def ZIP_BIGLEN_def prev_size_def u32_def)
  have len6: "6 \<le> rlen nxt"
    using rlen_pos [of "Raw False 0 (zv nxt)"] big by (simp add: rlen_def prev_size_def)
  let ?body = "pre @ raws (nxt # rest) @ [255]"
  obtain ys y zs where ys: "?body = ys @ y # zs" "length ys + 13 = N"
  proof -
    have "length ?body = (N - 13) + 3" "13 \<le> N"
      using N(1) len6 by simp_all
    then obtain ys zs where "?body = ys @ zs" "length ys = N - 13" "length zs = 3"
      using split_length2 [of ?body "N - 13" 3] by blast
    then show ?thesis
      using that \<open>13 \<le> N\<close> by (cases zs) auto
  qed
  have res: "ziplistResize fill ?zl (N - 2) = Some (zl_hdr (N - 2) ?T c @ ys @ [255])"
    unfolding zl ys(1) using ys(2) by (intro ziplistResize_shrink) simp
  have new_size: "nat ((int N + int 2 + (- 4)) mod 2 ^ 32) = N - 2"
    using N by simp
  have "load (zl_hdr (N - 2) ?T c @ ys @ [255]) p = Some 254"
  proof -
    have "raws (nxt # rest) = 254 # le_bytes 4 (int (prev nxt)) @ zip_body (zv nxt) @ raws rest"
      using big by (simp add: raw_bytes_def prev_field_def)
    then have "(ys @ y # zs) ! length pre = 254"
      unfolding ys(1) [symmetric] by (simp add: nth_append)
    moreover have "length pre < length ys"
      using ys(2) N(1) len6 by simp
    ultimately show ?thesis
      using p by (simp add: load_def nth_append)
  qed
  moreover have "ptr_sub p (- 4) = Some (p + 4)"
    by (simp add: ptr_sub_def)
  moreover have "nat ((int N - int p - 1 + (- 4)) mod 2 ^ 64) = length (raws (nxt # rest)) - 4"
    using N p len6 by simp
  moreover have "move_n (zl_hdr (N - 2) ?T c @ ys @ [255]) (p + 2) (p + 4) (length (raws (nxt # rest)) - 4) = None"
    using N ys(2) p len6 by (simp add: move_n_def load_n_def)
  ultimately have mv: "insert_move (zl_hdr (N - 2) ?T c @ ys @ [255]) p N 2 (- 4) = None"
    by (simp add: insert_move_def ZIP_END_def)
  show ?thesis
    unfolding ziplistInsert_at_steps [OF ve bytes insert_prevlen_middle [OF wfn p] req [symmetric] b(1) diff]
    by (simp only: new_size res mv Option.bind.simps)
qed

section \<open>Histories\<close>

datatype zl_op = ZPush "byte list" zl_where | ZInsert nat "byte list" | ZDelete int | ZDeleteRange nat nat | ZLen

definition zl_exec :: "(nat \<Rightarrow> byte) \<Rightarrow> zl_op \<Rightarrow> byte list \<Rightarrow> byte list option" where
  "zl_exec fill op zl = (case op of
     ZPush s w \<Rightarrow> ziplistPush fill zl s w
   | ZInsert i s \<Rightarrow> do { p \<leftarrow> ziplistIndex zl (int i); case p of None \<Rightarrow> Some zl | Some p \<Rightarrow> ziplistInsert fill zl p s }
   | ZDelete i \<Rightarrow> do { p \<leftarrow> ziplistIndex zl i; case p of None \<Rightarrow> Some zl | Some p \<Rightarrow> map_option fst (ziplistDelete fill zl p) }
   | ZDeleteRange i n \<Rightarrow> ziplistDeleteRange fill zl i n
   | ZLen \<Rightarrow> map_option fst (ziplistLen zl))"

fun zl_run :: "(nat \<Rightarrow> byte) \<Rightarrow> zl_op list \<Rightarrow> byte list \<Rightarrow> byte list option" where
  "zl_run fill [] zl = Some zl"
| "zl_run fill (op # ops) zl = do { zl \<leftarrow> zl_exec fill op zl; zl_run fill ops zl }"

text \<open>An index from the end counts from \<open>-1\<close>; \<open>del_at\<close> leaves the list alone when the index is outside.\<close>

definition norm_index :: "int \<Rightarrow> nat \<Rightarrow> int" where
  "norm_index i n = (if i < 0 then i + int n else i)"

definition del_at :: "int \<Rightarrow> 'a list \<Rightarrow> 'a list" where
  "del_at i xs = (let j = norm_index i (length xs) in
     if 0 \<le> j \<and> j < int (length xs) then take (nat j) xs @ drop (nat j + 1) xs else xs)"

definition list_exec :: "zl_op \<Rightarrow> byte list list \<Rightarrow> byte list list" where
  "list_exec op ts = (case op of
     ZPush s w \<Rightarrow> (if w = ZIPLIST_HEAD then s # ts else ts @ [s])
   | ZInsert i s \<Rightarrow> (if i < length ts then take i ts @ s # drop i ts else ts)
   | ZDelete i \<Rightarrow> del_at i ts
   | ZDeleteRange i n \<Rightarrow> take i ts @ drop (i + n) ts
   | ZLen \<Rightarrow> ts)"

definition raw_exec :: "zl_op \<Rightarrow> raw list \<Rightarrow> raw list" where
  "raw_exec op rs = (case op of
     ZPush s w \<Rightarrow> raw_insert (if w = ZIPLIST_HEAD then 0 else length rs) s rs
   | ZInsert i s \<Rightarrow> (if i < length rs then raw_insert i s rs else rs)
   | ZDelete i \<Rightarrow> (let j = norm_index i (length rs) in if 0 \<le> j \<and> j < int (length rs) then raw_delete (nat j) 1 rs else rs)
   | ZDeleteRange i n \<Rightarrow> (if i < length rs \<and> 0 < n then raw_delete i n rs else rs)
   | ZLen \<Rightarrow> rs)"

text \<open>
  Limits: the list stays below 4 GB, indices are C integers, and what \<open>ZInsert\<close> puts at an index has an
  encoding and contents of at least three bytes, so that its entry takes four. Pushes at the two ends have no such
  limit: the first entry never has a wide back link. For smaller values in the middle of the list the
  over-read shown at the end of this theory is possible.
\<close>

fun op_ok :: "zl_op \<Rightarrow> byte list list \<Rightarrow> bool" where
  "op_ok (ZPush s w) ts \<longleftrightarrow> 11 + text_size ts + 10 + length s < 2 ^ 32"
| "op_ok (ZInsert i s) ts \<longleftrightarrow> 11 + text_size ts + 10 + length s < 2 ^ 32 \<and> 3 \<le> length (zip_body (val_of s))"
| "op_ok (ZDelete i) ts \<longleftrightarrow> in_signed 32 i"
| "op_ok (ZDeleteRange i n) ts \<longleftrightarrow> i < 2 ^ 31"
| "op_ok ZLen ts \<longleftrightarrow> True"

fun ops_ok :: "zl_op list \<Rightarrow> byte list list \<Rightarrow> bool" where
  "ops_ok [] ts \<longleftrightarrow> True"
| "ops_ok (op # ops) ts \<longleftrightarrow> op_ok op ts \<and> ops_ok ops (list_exec op ts)"

lemma raw_exec_texts: "raw_texts (raw_exec op rs) = list_exec op (raw_texts rs)"
proof (cases op)
  case (ZDelete i)
  let ?j = "norm_index i (length rs)"
  show ?thesis
  proof (cases "0 \<le> ?j \<and> ?j < int (length rs)")
    case True
    then show ?thesis
      using ZDelete raw_texts_delete [of "nat ?j" 1 rs] by (simp add: raw_exec_def list_exec_def del_at_def Let_def)
  next
    case False
    then show ?thesis
      using ZDelete by (auto simp: raw_exec_def list_exec_def del_at_def)
  qed
next
  case (ZDeleteRange i n)
  then show ?thesis
    by (cases "n = 0") (simp_all add: raw_exec_def list_exec_def raw_texts_delete)
qed (simp_all add: raw_exec_def list_exec_def raw_texts_insert)

lemma ziplistIndex_norm:
  assumes "zl_rep zl rs" "in_signed 32 i"
  shows "ziplistIndex zl i = Some (let j = norm_index i (length rs) in if 0 \<le> j \<and> j < int (length rs) then Some (pos rs (nat j)) else None)"
proof (cases "i < 0")
  case True
  define k where "k = nat (- 1 - i)"
  have k: "i = - 1 - int k"
    using True by (simp add: k_def)
  have "nat (- 1 - int k + int n) = n - Suc k" for n
    by simp
  then show ?thesis
    using ziplistIndex_back [OF assms(1), of k] assms(2) k by (auto simp: norm_index_def Let_def)
next
  case False
  then show ?thesis
    using ziplistIndex_forth [OF assms(1), of "nat i"] by (auto simp: norm_index_def Let_def)
qed

lemma delete_none:
  assumes "zl_rep zl rs" "i < length rs"
  shows "ziplistDelete_num fill zl (pos rs i) 0 = Some zl"
  using rep_decode(1,4) [OF assms] by (auto simp: ziplistDelete_num_def skip_entries.simps u32_def)

lemma zl_exec_rep:
  assumes "zl_rep zl rs" "op_ok op (raw_texts rs)"
  shows "\<exists>zl'. zl_exec fill op zl = Some zl' \<and> zl_rep zl' (raw_exec op rs)"
proof (cases op)
  case (ZPush s w)
  show ?thesis
  proof (cases w)
    case ZIPLIST_HEAD
    have "insert_fits 0 s rs"
      using assms(1) by (auto simp: insert_fits_def zl_rep_def hd_conv_nth)
    then show ?thesis
      using insert_rep [OF assms(1), of 0 s fill] assms(2) ZPush ZIPLIST_HEAD
      by (simp add: zl_exec_def raw_exec_def ziplistPush_def pos_def ZIPLIST_ENTRY_HEAD_def ZIPLIST_HEADER_SIZE_def)
  next
    case ZIPLIST_TAIL
    then show ?thesis
      using insert_rep [OF assms(1), of "length rs" s fill] assms(2) ZPush rep_end(3) [OF assms(1)]
      by (simp add: zl_exec_def raw_exec_def ziplistPush_def insert_fits_def)
  qed
next
  case (ZInsert i s)
  have "insert_fits i s rs"
    using assms(2) ZInsert by (simp add: insert_fits_def rlen_new_raw zipPrevEncodeLength_size_def)
  then show ?thesis
    using insert_rep [OF assms(1), of i s fill] assms ZInsert ziplistIndex_forth [OF assms(1), of i]
    by (auto simp: zl_exec_def raw_exec_def ziplistInsert_def)
next
  case (ZDelete i)
  let ?j = "norm_index i (length rs)"
  show ?thesis
  proof (cases "0 \<le> ?j \<and> ?j < int (length rs)")
    case True
    then have "nat ?j < length rs"
      by (simp add: nat_less_iff)
    then obtain zl' where "ziplistDelete_num fill zl (pos rs (nat ?j)) 1 = Some zl'" "zl_rep zl' (raw_delete (nat ?j) 1 rs)"
      using delete_rep [OF assms(1), of "nat ?j" 1 fill] by auto
    then show ?thesis
      using True ziplistIndex_norm [OF assms(1), of i] assms(2) ZDelete by (simp add: zl_exec_def raw_exec_def ziplistDelete_def Let_def)
  next
    case False
    then show ?thesis
      using ziplistIndex_norm [OF assms(1), of i] assms ZDelete by (auto simp: zl_exec_def raw_exec_def Let_def)
  qed
next
  case (ZDeleteRange i n)
  have "ziplistIndex zl (to_signed 32 (int i)) = Some (if i < length rs then Some (pos rs i) else None)"
    using ziplistIndex_forth [OF assms(1), of i] assms(2) ZDeleteRange by (simp add: to_signed_id)
  then show ?thesis
    using delete_rep [OF assms(1), of i n fill] delete_none [OF assms(1), of i fill] assms(1) ZDeleteRange
    by (cases "n = 0") (auto simp: zl_exec_def raw_exec_def ziplistDeleteRange_def)
next
  case ZLen
  then show ?thesis
    using ziplistLen_rep [OF assms(1)] by (auto simp: zl_exec_def raw_exec_def)
qed

lemma zl_run_rep:
  assumes "zl_rep zl rs" "ops_ok ops (raw_texts rs)"
  shows "\<exists>zl'. zl_run fill ops zl = Some zl' \<and> zl_rep zl' (fold raw_exec ops rs)"
  using assms
proof (induction ops arbitrary: zl rs)
  case (Cons op ops)
  obtain zl' where "zl_exec fill op zl = Some zl'" "zl_rep zl' (raw_exec op rs)"
    using zl_exec_rep [OF Cons.prems(1), of op fill] Cons.prems(2) by auto
  then show ?case
    using Cons.IH [of zl' "raw_exec op rs"] Cons.prems(2) by (auto simp: raw_exec_texts)
qed simp

lemma fold_raw_exec_texts: "raw_texts (fold raw_exec ops rs) = fold list_exec ops (raw_texts rs)"
  by (induction ops arbitrary: rs) (simp_all add: raw_exec_texts)

section \<open>Properties\<close>

text \<open>A list of an integer and a string, for concrete instances.\<close>

definition sample :: "raw list" where
  "sample = [Raw False 0 (ZInt 5), Raw False 2 (ZStr [97])]"

lemma sample_rep: "zl_rep (blob [] sample 2) sample"
proof (rule zl_repI)
  have "zipIntSize (zip_int_encoding 5) = 0"
    by (simp add: zipIntSize_def zip_int_encoding_def zip_consts)
  then show "chain 0 sample"
    by (simp add: sample_def rlen_def prev_size_def)
  have "val_of (ll_repr 5) = ZInt 5" "val_of [97] = ZStr [97]"
    using zipTryEncoding_ll_repr [of 5] by (simp_all add: val_of_def zipTryEncoding_def string2ll_def)
  then show "\<forall>r\<in>set sample. wf_raw r \<and> zv r = val_of (zip_text (zv r))"
    by (simp add: sample_def wf_raw_def)
  show "11 + text_size (raw_texts sample) < 2 ^ 32"
    by (simp add: sample_def ll_repr_def dec_small)
qed (simp_all add: sample_def count_ok_def UINT16_MAX_def)

lemma sample_pos: "length sample = 2" "pos sample 0 = 10" "pos sample (Suc 0) = 12" "pos sample 2 = 15"
  by (simp_all add: pos_def sample_def rlen_def prev_size_def zipEncodeLength_def zipIntSize_def zip_int_encoding_def zip_consts)

text \<open>A client sees \<open>ts\<close>: the length, and every element by its index from either end.\<close>

definition zl_reads :: "byte list \<Rightarrow> byte list list \<Rightarrow> bool" where
  "zl_reads zl ts \<longleftrightarrow> map_option snd (ziplistLen zl) = Some (length ts) \<and>
     (\<forall>i<length ts. \<exists>p g. ziplistIndex zl (int i) = Some (Some p) \<and> ziplistIndex zl (int i - int (length ts)) = Some (Some p) \<and>
        ziplistGet zl (Some p) = Some (Some g) \<and> got_text zl g = ts ! i)"

lemma rep_length:
  assumes "zl_rep zl rs"
  shows "length rs < 2 ^ 31"
proof -
  have "10 * length ts \<le> text_size ts" for ts
    by (induction ts) simp_all
  from this [of "raw_texts rs"] show ?thesis
    using assms by (simp add: zl_rep_def)
qed

lemma rep_reads:
  assumes "zl_rep zl rs"
  shows "zl_reads zl (raw_texts rs)"
proof -
  have "\<exists>p g. ziplistIndex zl (int i) = Some (Some p) \<and> ziplistIndex zl (int i - int (length rs)) = Some (Some p) \<and>
        ziplistGet zl (Some p) = Some (Some g) \<and> got_text zl g = raw_texts rs ! i" if "i < length rs" for i
  proof -
    have "ziplistIndex zl (int i - int (length rs)) = Some (Some (pos rs i))"
      using that rep_length [OF assms] ziplistIndex_norm [OF assms, of "int i - int (length rs)"] by (simp add: norm_index_def Let_def)
    then show ?thesis
      using that ziplistIndex_forth [OF assms, of i] ziplistGet_rep [OF assms that] by auto
  qed
  then show ?thesis
    using ziplistLen_rep [OF assms] by (auto simp: zl_reads_def)
qed

text \<open>C13:
  Any history of pushes at both ends, insertions, deletions by index from either end, range
  deletions and length queries runs without touching a byte outside the block, through every
  resize and cascading update, and afterwards the block reads, by index from the front and
  from the back, as the list of byte strings that the same history makes of an empty list.
  The history keeps the block below 4 GB and its indices in the range of C integers, and it
  inserts by index only values whose encoding and contents take at least three bytes:
  a smaller one, put before an entry with a wide back link, can make the code
  read behind the block. Pushes at either end take values of any size.
\<close>

theorem ziplist_history_refines_list:
  assumes "ops_ok ops []"
  shows "\<exists>zl0 zl. ziplistNew fill = Some zl0 \<and> zl_run fill ops zl0 = Some zl \<and> zl_reads zl (fold list_exec ops [])"
proof -
  obtain zl0 where new: "ziplistNew fill = Some zl0" "zl_rep zl0 []"
    using ziplistNew_rep by blast
  obtain zl where "zl_run fill ops zl0 = Some zl" "zl_rep zl (fold raw_exec ops [])"
    using zl_run_rep [OF new(2), of ops fill] assms by auto
  then show ?thesis
    using new(1) rep_reads [of zl "fold raw_exec ops []"] by (auto simp: fold_raw_exec_texts)
qed

theorem ziplist_history_refines_list_witness:
  "\<exists>zl0 zl. ziplistNew (\<lambda>_. 7) = Some zl0 \<and>
    zl_run (\<lambda>_. 7) [ZPush [97] ZIPLIST_TAIL, ZPush [49, 50] ZIPLIST_HEAD, ZInsert 1 [98, 99], ZDelete (-1)] zl0 = Some zl \<and>
    zl_reads zl [[49, 50], [98, 99]]"
proof -
  let ?ops = "[ZPush [97] ZIPLIST_TAIL, ZPush [49, 50] ZIPLIST_HEAD, ZInsert 1 [98, 99], ZDelete (-1)]"
  have "val_of [98, 99] = ZStr [98, 99]"
    by (simp add: val_of_def zipTryEncoding_def string2ll_def)
  then have "3 \<le> length (zip_body (val_of [98, 99]))"
    by (simp add: zipEncodeLength_def)
  then have "ops_ok ?ops []" "fold list_exec ?ops [] = [[49, 50], [98, 99]]"
    by (simp_all add: list_exec_def del_at_def norm_index_def)
  then show ?thesis
    using ziplist_history_refines_list [of ?ops "\<lambda>_. 7"] by simp
qed

text \<open>C17:
  From every position the forward and the backward step reach the neighbouring entry, and null
  exactly at the ends; so the back links agree with the entry sizes and each step undoes the
  other. Comparing an entry with a string decides equality of the texts, however the entry is
  encoded.
\<close>

theorem ziplist_traversal:
  assumes "zl_rep zl rs" "i < length rs"
  shows "ziplistNext zl (pos rs i) = Some (if i + 1 < length rs then Some (pos rs (i + 1)) else None) \<and>
    ziplistPrev zl (pos rs i) = Some (if 0 < i then Some (pos rs (i - 1)) else None) \<and>
    ziplistPrev zl (pos rs (length rs)) = Some (Some (pos rs (length rs - 1))) \<and>
    ziplistCompare zl (pos rs i) s = Some (s = zip_text (zv (rs ! i)))"
  using assms ziplistNext_rep [OF assms(1), of i] ziplistPrev_rep [OF assms(1), of i] ziplistPrev_rep [OF assms(1), of "length rs"]
    ziplistCompare_rep [OF assms, of s]
  by auto

theorem ziplist_traversal_witness:
  "ziplistNext (blob [] sample 2) 10 = Some (Some 12) \<and> ziplistPrev (blob [] sample 2) 10 = Some None"
  using ziplist_traversal [OF sample_rep, of 0 "[]"] by (simp add: sample_pos)

text \<open>C16:
  Entries are typed by their text: an entry is read back as an integer exactly when its text
  is the decimal representation of a 64 bit signed integer, and then as that integer;
  every other entry is read back as a string with this text.
\<close>

theorem ziplist_entry_types:
  assumes "zl_rep zl rs" "i < length rs"
  shows "\<exists>g. ziplistGet zl (Some (pos rs i)) = Some (Some g) \<and> got_text zl g = zip_text (zv (rs ! i)) \<and>
    (\<forall>v. g = GotInt v \<longleftrightarrow> in_signed 64 v \<and> zip_text (zv (rs ! i)) = ll_repr v)"
proof -
  obtain g where g: "ziplistGet zl (Some (pos rs i)) = Some (Some g)" "got_text zl g = zip_text (zv (rs ! i))"
    "\<forall>v. g = GotInt v \<longleftrightarrow> zv (rs ! i) = ZInt v"
    using ziplistGet_rep [OF assms] by blast
  have "zv (rs ! i) = val_of (zip_text (zv (rs ! i)))"
    using assms by (simp add: zl_rep_def)
  moreover have "val_of t = ZInt v \<longleftrightarrow> in_signed 64 v \<and> t = ll_repr v" for t v
    using zipTryEncoding_Some [of t] zipTryEncoding_ll_repr [of v] by (auto simp: val_of_def split: option.splits)
  ultimately show ?thesis
    using g by metis
qed

theorem ziplist_entry_types_witness:
  "\<exists>g. ziplistGet (blob [] sample 2) (Some 10) = Some (Some g) \<and> got_text (blob [] sample 2) g = [53]"
  using ziplist_entry_types [OF sample_rep, of 0] unfolding sample_pos(2) by (auto simp: sample_def ll_repr_def dec_small)

text \<open>C18:
  \<open>ziplistFind\<close> from the head with a skip count looks at every \<open>skip + 1\<close>-th entry only and returns the first
  of them whose text is the given string, or null when there is none; it always returns.
\<close>

theorem ziplistFind_correct:
  assumes "zl_rep zl rs" "skip < 2 ^ 31"
  shows "\<exists>r. ziplistFind zl (pos rs 0) vstr skip = Some r \<and>
    (case r of
       None \<Rightarrow> \<forall>k<length rs. k mod (skip + 1) = 0 \<longrightarrow> zip_text (zv (rs ! k)) \<noteq> vstr
     | Some p \<Rightarrow> \<exists>j<length rs. p = pos rs j \<and> j mod (skip + 1) = 0 \<and> zip_text (zv (rs ! j)) = vstr \<and>
         (\<forall>k<j. k mod (skip + 1) = 0 \<longrightarrow> zip_text (zv (rs ! k)) \<noteq> vstr))"
proof -
  have f: "ziplistFind zl (pos rs 0) vstr skip = Some (map_option (pos rs) (find_index (raw_texts rs) vstr skip 0))"
    using find_loop_rep [OF assms, of 0 vstr 0 0 0] by (simp add: ziplistFind_def find_state_def)
  show ?thesis
  proof (cases "find_index (raw_texts rs) vstr skip 0")
    case None
    then show ?thesis
      using f find_index_None [OF None] by (auto simp: visited_def)
  next
    case (Some j)
    then show ?thesis
      using f find_index_Some [OF Some] by (auto simp: visited_def intro!: exI [of _ j])
  qed
qed

theorem ziplistFind_correct_witness:
  "\<exists>r. ziplistFind (blob [] sample 2) 10 [97] 0 = Some r"
  using ziplistFind_correct [OF sample_rep, of 0 "[97]"] unfolding sample_pos(2) by auto

text \<open>C15:
  Inserting a string whose entry takes two bytes before an entry whose back link takes more
  bytes than it needs destroys the list: the block is shrunk before the entries behind the
  insertion point have been moved, and moving them reads behind the end of the block.
\<close>

theorem ziplistInsert_overread:
  assumes "zl_rep zl rs" "i < length rs" "big (rs ! i)" "rlen (new_raw (prev (rs ! i)) s) = 2"
  shows "ziplistIndex zl (int i) = Some (Some (pos rs i)) \<and> ziplistInsert fill zl (pos rs i) s = None"
proof -
  obtain c where c: "zl = blob [] rs c"
    using assms(1) by (rule zl_rep_blob)
  have rs: "rs = take i rs @ rs ! i # drop (Suc i) rs"
    using assms(2) by (rule id_take_nth_drop)
  have zl: "zl = blob (raws (take i rs)) (rs ! i # drop (Suc i) rs) c"
    unfolding c by (subst rs) (simp add: blob_append)
  have "\<forall>r\<in>set (rs ! i # drop (Suc i) rs). wf_raw r"
    using assms(1,2) by (auto simp: zl_rep_def dest: in_set_dropD)
  moreover have "text_size (raw_texts rs) = text_size (raw_texts (take i rs)) + text_size (raw_texts (rs ! i # drop (Suc i) rs))"
    by (subst rs) simp
  then have "11 + length (raws (take i rs)) + text_size (raw_texts (rs ! i # drop (Suc i) rs)) < 2 ^ 32"
    using assms(1) length_raws_le [of "take i rs"] by (simp add: zl_rep_def)
  ultimately have "ziplistInsert fill zl (pos rs i) s = None"
    unfolding zl ziplistInsert_def using assms(3,4) by (intro insert_overread) (simp_all add: pos_def)
  then show ?thesis
    using ziplistIndex_forth [OF assms(1), of i] assms(2) by simp
qed

text \<open>
  Such a list is reached by three pushes and one deletion: the deletion of the first element
  shortens the second, whose successor keeps its five byte back link.
\<close>

theorem ziplistInsert_overread_witness:
  "\<exists>zl0 zl p. ziplistNew (\<lambda>_. 0) = Some zl0 \<and>
    zl_run (\<lambda>_. 0) [ZPush (replicate 300 120) ZIPLIST_TAIL, ZPush (replicate 250 120) ZIPLIST_TAIL, ZPush [98] ZIPLIST_TAIL, ZDelete 0] zl0 = Some zl \<and>
    ziplistIndex zl 1 = Some (Some p) \<and> ziplistInsert (\<lambda>_. 0) zl p [] = None"
proof -
  let ?ops = "[ZPush (replicate 300 120) ZIPLIST_TAIL, ZPush (replicate 250 120) ZIPLIST_TAIL, ZPush [98] ZIPLIST_TAIL, ZDelete 0]"
  have v: "val_of (replicate 300 120) = ZStr (replicate 300 120)" "val_of (replicate 250 120) = ZStr (replicate 250 120)"
    "val_of [98] = ZStr [98]" "val_of [] = ZStr []"
    by (simp_all add: val_of_def zipTryEncoding_def string2ll_def)
  let ?rs = "[Raw False 0 (ZStr (replicate 250 120)), Raw True 253 (ZStr [98])]"
  have rs: "fold raw_exec ?ops [] = ?rs"
    by (simp add: raw_exec_def raw_insert_def raw_delete_def new_raw_def tail_len_def rlen_def prev_size_def norm_index_def Let_def
        zipEncodeLength_def v del: replicate.simps)
  have ok: "ops_ok ?ops (raw_texts [])"
    by (simp add: list_exec_def)
  obtain zl0 where zl0: "ziplistNew (\<lambda>_. 0) = Some zl0" "zl_rep zl0 []"
    using ziplistNew_rep by blast
  obtain zl where zl: "zl_run (\<lambda>_. 0) ?ops zl0 = Some zl" "zl_rep zl ?rs"
    using zl_run_rep [OF zl0(2) ok, of "\<lambda>_. 0"] unfolding rs by blast
  have "rlen (new_raw 253 []) = 2"
    by (simp add: rlen_def new_raw_def prev_size_def v zipEncodeLength_def)
  then have "ziplistIndex zl 1 = Some (Some (pos ?rs 1)) \<and> ziplistInsert (\<lambda>_. 0) zl (pos ?rs 1) [] = None"
    using ziplistInsert_overread [OF zl(2), of 1 "[]" "\<lambda>_. 0"] by simp
  then show ?thesis
    using zl0(1) zl(1) by blast
qed

end
