(* ===== verification/Adlist.thy ===== *)
theory Adlist
  imports Redis_Prelude "HOL-Library.Monad_Syntax"
begin

text \<open>
  \<^verbatim>\<open>redis-3.0.0/src/adlist.c\<close> and \<^verbatim>\<open>adlist.h\<close>: the generic doubly linked list, on an explicit heap. An
  address is a natural number and 0 is \<open>NULL\<close>; the heap maps the addresses of live nodes to
  nodes, and following any other pointer is a fault (the outer \<open>None\<close>). A value pointer is an
  element of a type \<open>'v\<close>. What \<open>zmalloc\<close> returns is the argument \<open>alloc\<close>, of which only freshness is
  used; allocation succeeds, as \<open>zmalloc\<close> aborts otherwise. The \<open>free\<close> method acts outside the
  list, so the operations that call it give the values they passed to it. The heap holds the nodes only:
  a list header and an iterator are values, so allocating them in \<open>listCreate\<close>, \<open>listDup\<close> and
  \<open>listGetIterator\<close> and freeing them in \<open>listRelease\<close> and \<open>listReleaseIterator\<close> is not part of the model.
\<close>

section \<open>Data\<close>

record 'v listNode =
  ln_prev :: nat
  ln_next :: nat
  ln_value :: 'v

record listIter =
  li_next :: nat
  li_direction :: nat

record 'v list_hdr =
  l_head :: nat
  l_tail :: nat
  l_dup :: "('v \<Rightarrow> 'v option) option"
  l_free :: bool
  l_match :: "('v \<Rightarrow> 'v \<Rightarrow> bool) option"
  l_len :: nat

type_synonym 'v node_heap = "nat \<Rightarrow> 'v listNode option"

definition AL_START_HEAD :: nat where "AL_START_HEAD = 0"
definition AL_START_TAIL :: nat where "AL_START_TAIL = 1"

text \<open>Assignments through a node pointer.\<close>

definition set_next :: "'v node_heap \<Rightarrow> nat \<Rightarrow> nat \<Rightarrow> 'v node_heap option" where
  "set_next h a x = do { n \<leftarrow> h a; Some (h(a \<mapsto> n\<lparr>ln_next := x\<rparr>)) }"

definition set_prev :: "'v node_heap \<Rightarrow> nat \<Rightarrow> nat \<Rightarrow> 'v node_heap option" where
  "set_prev h a x = do { n \<leftarrow> h a; Some (h(a \<mapsto> n\<lparr>ln_prev := x\<rparr>)) }"

section \<open>Operations\<close>

definition listCreate :: "'v list_hdr" where
  "listCreate = \<lparr>l_head = 0, l_tail = 0, l_dup = None, l_free = False, l_match = None, l_len = 0\<rparr>"

text \<open>The loop of \<open>listRelease\<close> gives the heap without the nodes and the values passed to \<open>free\<close>.\<close>

fun release_loop :: "bool \<Rightarrow> 'v node_heap \<Rightarrow> nat \<Rightarrow> nat \<Rightarrow> ('v node_heap \<times> 'v list) option" where
  "release_loop f h current 0 = Some (h, [])"
| "release_loop f h current (Suc len) = do {
     n \<leftarrow> h current;
     (h, freed) \<leftarrow> release_loop f (h(current := None)) (ln_next n) len;
     Some (h, if f then ln_value n # freed else freed) }"

definition listRelease :: "'v node_heap \<Rightarrow> 'v list_hdr \<Rightarrow> ('v node_heap \<times> 'v list) option" where
  "listRelease h l = release_loop (l_free l) h (l_head l) (l_len l)"

definition listAddNodeHead ::
  "('v node_heap \<Rightarrow> nat) \<Rightarrow> 'v node_heap \<Rightarrow> 'v list_hdr \<Rightarrow> 'v \<Rightarrow> ('v node_heap \<times> 'v list_hdr) option" where
  "listAddNodeHead alloc h l v = do {
     let node = alloc h;
     (h, l) \<leftarrow>
       (if l_len l = 0 then
          Some (h(node \<mapsto> \<lparr>ln_prev = 0, ln_next = 0, ln_value = v\<rparr>), l\<lparr>l_head := node, l_tail := node\<rparr>)
        else do {
          let h = h(node \<mapsto> \<lparr>ln_prev = 0, ln_next = l_head l, ln_value = v\<rparr>);
          h \<leftarrow> set_prev h (l_head l) node;
          Some (h, l\<lparr>l_head := node\<rparr>) });
     Some (h, l\<lparr>l_len := u64 (l_len l + 1)\<rparr>) }"

definition listAddNodeTail ::
  "('v node_heap \<Rightarrow> nat) \<Rightarrow> 'v node_heap \<Rightarrow> 'v list_hdr \<Rightarrow> 'v \<Rightarrow> ('v node_heap \<times> 'v list_hdr) option" where
  "listAddNodeTail alloc h l v = do {
     let node = alloc h;
     (h, l) \<leftarrow>
       (if l_len l = 0 then
          Some (h(node \<mapsto> \<lparr>ln_prev = 0, ln_next = 0, ln_value = v\<rparr>), l\<lparr>l_head := node, l_tail := node\<rparr>)
        else do {
          let h = h(node \<mapsto> \<lparr>ln_prev = l_tail l, ln_next = 0, ln_value = v\<rparr>);
          h \<leftarrow> set_next h (l_tail l) node;
          Some (h, l\<lparr>l_tail := node\<rparr>) });
     Some (h, l\<lparr>l_len := u64 (l_len l + 1)\<rparr>) }"

definition listInsertNode ::
  "('v node_heap \<Rightarrow> nat) \<Rightarrow> 'v node_heap \<Rightarrow> 'v list_hdr \<Rightarrow> nat \<Rightarrow> 'v \<Rightarrow> bool \<Rightarrow> ('v node_heap \<times> 'v list_hdr) option" where
  "listInsertNode alloc h l old_node v after = do {
     let node = alloc h;
     old \<leftarrow> h old_node;
     let (p, n, l) =
       (if after then (old_node, ln_next old, if l_tail l = old_node then l\<lparr>l_tail := node\<rparr> else l)
        else (ln_prev old, old_node, if l_head l = old_node then l\<lparr>l_head := node\<rparr> else l));
     let h = h(node \<mapsto> \<lparr>ln_prev = p, ln_next = n, ln_value = v\<rparr>);
     h \<leftarrow> (if p \<noteq> 0 then set_next h p node else Some h);
     h \<leftarrow> (if n \<noteq> 0 then set_prev h n node else Some h);
     Some (h, l\<lparr>l_len := u64 (l_len l + 1)\<rparr>) }"

definition listDelNode :: "'v node_heap \<Rightarrow> 'v list_hdr \<Rightarrow> nat \<Rightarrow> ('v node_heap \<times> 'v list_hdr \<times> 'v list) option" where
  "listDelNode h l node = do {
     n \<leftarrow> h node;
     (h, l) \<leftarrow> (if ln_prev n \<noteq> 0 then do { h \<leftarrow> set_next h (ln_prev n) (ln_next n); Some (h, l) }
                else Some (h, l\<lparr>l_head := ln_next n\<rparr>));
     n \<leftarrow> h node;
     (h, l) \<leftarrow> (if ln_next n \<noteq> 0 then do { h \<leftarrow> set_prev h (ln_next n) (ln_prev n); Some (h, l) }
                else Some (h, l\<lparr>l_tail := ln_prev n\<rparr>));
     Some (h(node := None), l\<lparr>l_len := u64 (l_len l + 2 ^ 64 - 1)\<rparr>, if l_free l then [ln_value n] else []) }"

definition listGetIterator :: "'v list_hdr \<Rightarrow> nat \<Rightarrow> listIter" where
  "listGetIterator l direction =
     \<lparr>li_next = (if direction = AL_START_HEAD then l_head l else l_tail l), li_direction = direction\<rparr>"

definition listRewind :: "'v list_hdr \<Rightarrow> listIter" where
  "listRewind l = \<lparr>li_next = l_head l, li_direction = AL_START_HEAD\<rparr>"

definition listRewindTail :: "'v list_hdr \<Rightarrow> listIter" where
  "listRewindTail l = \<lparr>li_next = l_tail l, li_direction = AL_START_TAIL\<rparr>"

definition listNext :: "'v node_heap \<Rightarrow> listIter \<Rightarrow> (nat \<times> listIter) option" where
  "listNext h iter = do {
     let current = li_next iter;
     iter \<leftarrow> (if current \<noteq> 0 then do {
                n \<leftarrow> h current;
                Some (if li_direction iter = AL_START_HEAD then iter\<lparr>li_next := ln_next n\<rparr>
                      else iter\<lparr>li_next := ln_prev n\<rparr>) }
              else Some iter);
     Some (current, iter) }"

text \<open>
  The loop of \<open>listDup\<close>; the list it copies and the copy share the heap. The inner \<open>None\<close> is the
  result \<open>NULL\<close>, after the nodes copied so far were released; the list beside it holds the values
  that release passed to \<open>free\<close>.
\<close>

partial_function (option) dup_loop ::
  "('v node_heap \<Rightarrow> nat) \<Rightarrow> 'v node_heap \<Rightarrow> 'v list_hdr \<Rightarrow> listIter \<Rightarrow>
     ('v node_heap \<times> 'v list_hdr option \<times> 'v list) option" where
  "dup_loop alloc h copy iter = do {
     (node, iter) \<leftarrow> listNext h iter;
     if node = 0 then Some (h, Some copy, [])
     else do {
       n \<leftarrow> h node;
       case (case l_dup copy of Some dup \<Rightarrow> dup (ln_value n) | None \<Rightarrow> Some (ln_value n)) of
         None \<Rightarrow> do { (h, freed) \<leftarrow> listRelease h copy; Some (h, None, freed) }
       | Some v \<Rightarrow> do {
           (h, copy) \<leftarrow> listAddNodeTail alloc h copy v;
           dup_loop alloc h copy iter } } }"

definition listDup ::
  "('v node_heap \<Rightarrow> nat) \<Rightarrow> 'v node_heap \<Rightarrow> 'v list_hdr \<Rightarrow>
     ('v node_heap \<times> 'v list_hdr option \<times> 'v list) option" where
  "listDup alloc h orig =
     (let copy = listCreate\<lparr>l_dup := l_dup orig, l_free := l_free orig, l_match := l_match orig\<rparr>
      in dup_loop alloc h copy (listGetIterator orig AL_START_HEAD))"

partial_function (option) search_loop :: "'v node_heap \<Rightarrow> 'v list_hdr \<Rightarrow> 'v \<Rightarrow> listIter \<Rightarrow> nat option" where
  "search_loop h l key iter = do {
     (node, iter) \<leftarrow> listNext h iter;
     if node = 0 then Some 0
     else do {
       n \<leftarrow> h node;
       if (case l_match l of Some match \<Rightarrow> match (ln_value n) key | None \<Rightarrow> key = ln_value n) then Some node
       else search_loop h l key iter } }"

definition listSearchKey :: "'v node_heap \<Rightarrow> 'v list_hdr \<Rightarrow> 'v \<Rightarrow> nat option" where
  "listSearchKey h l key = search_loop h l key (listGetIterator l AL_START_HEAD)"

fun index_loop :: "('v listNode \<Rightarrow> nat) \<Rightarrow> 'v node_heap \<Rightarrow> nat \<Rightarrow> nat \<Rightarrow> nat option" where
  "index_loop step h n 0 = Some n"
| "index_loop step h n (Suc index) = (if n \<noteq> 0 then do { c \<leftarrow> h n; index_loop step h (step c) index } else Some n)"

definition listIndex :: "'v node_heap \<Rightarrow> 'v list_hdr \<Rightarrow> int \<Rightarrow> nat option" where
  "listIndex h l index =
     (if index < 0 then index_loop ln_prev h (l_tail l) (nat (to_signed 64 (to_signed 64 (- index) - 1)))
      else index_loop ln_next h (l_head l) (nat index))"

definition listRotate :: "'v node_heap \<Rightarrow> 'v list_hdr \<Rightarrow> ('v node_heap \<times> 'v list_hdr) option" where
  "listRotate h l =
     (let tail = l_tail l in
      if l_len l \<le> 1 then Some (h, l)
      else do {
        t \<leftarrow> h tail;
        let l = l\<lparr>l_tail := ln_prev t\<rparr>;
        h \<leftarrow> set_next h (l_tail l) 0;
        h \<leftarrow> set_prev h (l_head l) tail;
        h \<leftarrow> set_prev h tail 0;
        h \<leftarrow> set_next h tail (l_head l);
        Some (h, l\<lparr>l_head := tail\<rparr>) })"

section \<open>Representation of a sequence\<close>

text \<open>
  A list is represented by the sequence of its node addresses and values: \<open>linked h p xs n\<close> says that
  the nodes of \<open>xs\<close> form a chain whose first node has the predecessor \<open>p\<close> and whose last node has
  the successor \<open>n\<close>.
\<close>

definition first_addr :: "nat \<Rightarrow> (nat \<times> 'v) list \<Rightarrow> nat" where
  "first_addr n xs = (case xs of [] \<Rightarrow> n | (a, _) # _ \<Rightarrow> a)"

definition last_addr :: "nat \<Rightarrow> (nat \<times> 'v) list \<Rightarrow> nat" where
  "last_addr p xs = (if xs = [] then p else fst (last xs))"

fun linked :: "'v node_heap \<Rightarrow> nat \<Rightarrow> (nat \<times> 'v) list \<Rightarrow> nat \<Rightarrow> bool" where
  "linked h p [] n = True"
| "linked h p ((a, v) # xs) n \<longleftrightarrow>
     a \<noteq> 0 \<and> h a = Some \<lparr>ln_prev = p, ln_next = first_addr n xs, ln_value = v\<rparr> \<and> linked h a xs n"

definition addrs :: "(nat \<times> 'v) list \<Rightarrow> nat set" where
  "addrs xs = fst ` set xs"

definition list_rep :: "'v node_heap \<Rightarrow> 'v list_hdr \<Rightarrow> (nat \<times> 'v) list \<Rightarrow> bool" where
  "list_rep h l xs \<longleftrightarrow> linked h 0 xs 0 \<and> distinct (map fst xs) \<and>
     l_head l = first_addr 0 xs \<and> l_tail l = last_addr 0 xs \<and> l_len l = length xs \<and> length xs < 2 ^ 64"

definition same_hooks :: "'v list_hdr \<Rightarrow> 'v list_hdr \<Rightarrow> bool" where
  "same_hooks l l' \<longleftrightarrow> l_dup l' = l_dup l \<and> l_free l' = l_free l \<and> l_match l' = l_match l"

text \<open>The documented behaviour of \<open>zmalloc\<close>: a block that is not \<open>NULL\<close> and overlaps no live block.\<close>

definition fresh_alloc :: "('v node_heap \<Rightarrow> nat) \<Rightarrow> bool" where
  "fresh_alloc alloc \<longleftrightarrow> (\<forall>h. finite (dom h) \<longrightarrow> alloc h \<noteq> 0 \<and> h (alloc h) = None)"

text \<open>Every address outside \<open>A\<close> keeps its node: the frame of an operation.\<close>

definition heap_frame :: "nat set \<Rightarrow> 'v node_heap \<Rightarrow> 'v node_heap \<Rightarrow> bool" where
  "heap_frame A h h' \<longleftrightarrow> (\<forall>a. a \<notin> A \<longrightarrow> h' a = h a)"

lemma first_addr_simps [simp]:
  "first_addr n [] = n" "first_addr n ((a, v) # xs) = a"
  "first_addr n (xs @ ys) = first_addr (first_addr n ys) xs"
  by (auto simp: first_addr_def split: list.splits)

lemma last_addr_simps [simp]:
  "last_addr p [] = p" "last_addr p ((a, v) # xs) = last_addr a xs"
  "last_addr p (xs @ ys) = last_addr (last_addr p xs) ys"
  by (auto simp: last_addr_def)

lemma addrs_simps [simp]:
  "addrs [] = {}" "addrs ((a, v) # xs) = insert a (addrs xs)" "addrs (xs @ ys) = addrs xs \<union> addrs ys"
  by (auto simp: addrs_def)

lemma addrs_fst: "set (map fst xs) = addrs xs"
  by (simp add: addrs_def)

lemma linked_append [simp]:
  "linked h p (xs @ ys) n \<longleftrightarrow> linked h p xs (first_addr n ys) \<and> linked h (last_addr p xs) ys n"
  by (induction xs arbitrary: p) auto

lemma linked_upd [simp]: "a \<notin> addrs xs \<Longrightarrow> linked (h(a := c)) p xs n = linked h p xs n"
  by (induction xs arbitrary: p) auto

lemma linked_frame: "linked h p xs n \<Longrightarrow> (\<And>a. a \<in> addrs xs \<Longrightarrow> h' a = h a) \<Longrightarrow> linked h' p xs n"
  by (induction xs arbitrary: p) auto

lemma linked_live: "linked h p xs n \<Longrightarrow> a \<in> addrs xs \<Longrightarrow> a \<noteq> 0 \<and> h a \<noteq> None"
  by (induction xs arbitrary: p) auto

lemma fresh_allocD:
  "fresh_alloc alloc \<Longrightarrow> finite (dom h) \<Longrightarrow> alloc h \<noteq> 0"
  "fresh_alloc alloc \<Longrightarrow> finite (dom h) \<Longrightarrow> h (alloc h) = None"
  by (auto simp: fresh_alloc_def)

lemma alloc_notin:
  "fresh_alloc alloc \<Longrightarrow> finite (dom h) \<Longrightarrow> linked h p xs n \<Longrightarrow> alloc h \<notin> addrs xs"
  using fresh_allocD(2) linked_live by metis

text \<open>
  Assignments to the two ends of a chain. These two facts carry every operation: the successor of the
  last node and the predecessor of the first one are all an operation changes of a chain.
\<close>

lemma set_next_last:
  assumes "linked h p xs n" "distinct (map fst xs)" "xs \<noteq> []"
  obtains h' where "set_next h (last_addr q xs) m = Some h'" "linked h' p xs m"
    "heap_frame {last_addr q xs} h h'" "dom h' = dom h"
proof -
  obtain ys a v where xs: "xs = ys @ [(a, v)]"
    using assms(3) by (metis rev_exhaust surj_pair)
  have a: "h a = Some \<lparr>ln_prev = last_addr p ys, ln_next = n, ln_value = v\<rparr>" "a \<notin> addrs ys"
    using assms(1,2) by (auto simp: xs addrs_fst [symmetric])
  show thesis
    using assms(1) a
    by (intro that [of "h(a \<mapsto> \<lparr>ln_prev = last_addr p ys, ln_next = m, ln_value = v\<rparr>)"])
      (auto simp: xs set_next_def heap_frame_def)
qed

lemma set_prev_first:
  assumes "linked h p xs n" "distinct (map fst xs)" "xs \<noteq> []"
  obtains h' where "set_prev h (first_addr q xs) m = Some h'" "linked h' m xs n"
    "heap_frame {first_addr q xs} h h'" "dom h' = dom h"
proof -
  obtain a v ys where xs: "xs = (a, v) # ys"
    using assms(3) by (metis neq_Nil_conv surj_pair)
  have a: "a \<notin> addrs ys"
    using assms(2) by (auto simp: xs addrs_fst [symmetric])
  show thesis
    using assms(1) a
    by (intro that [of "h(a \<mapsto> \<lparr>ln_prev = m, ln_next = first_addr n ys, ln_value = v\<rparr>)"])
      (auto simp: xs set_prev_def heap_frame_def)
qed

lemma addr_ends [simp]:
  "xs \<noteq> [] \<Longrightarrow> last_addr q xs \<in> addrs xs" "xs \<noteq> [] \<Longrightarrow> first_addr q xs \<in> addrs xs"
  by (auto simp: last_addr_def first_addr_def addrs_def split: list.splits)

lemma linked_heap_frame:
  "linked h p xs n \<Longrightarrow> heap_frame A h h' \<Longrightarrow> A \<inter> addrs xs = {} \<Longrightarrow> linked h' p xs n"
  unfolding heap_frame_def by (erule linked_frame) blast

lemma addr_ends_null:
  "linked h p xs n \<Longrightarrow> last_addr 0 xs = 0 \<longleftrightarrow> xs = []" "linked h p xs n \<Longrightarrow> first_addr 0 xs = 0 \<longleftrightarrow> xs = []"
  using linked_live addr_ends by (metis last_addr_simps(1)) (use linked_live addr_ends in \<open>metis first_addr_simps(1)\<close>)

lemma heap_frame_trans: "heap_frame A h h' \<Longrightarrow> heap_frame B h' h'' \<Longrightarrow> heap_frame (A \<union> B) h h''"
  by (simp add: heap_frame_def)

lemma heap_frame_mono: "heap_frame A h h' \<Longrightarrow> A \<subseteq> B \<Longrightarrow> heap_frame B h h'"
  by (auto simp: heap_frame_def)

lemma heap_frame_upd [simp]: "a \<in> A \<Longrightarrow> heap_frame A h (h(a := c))"
  by (simp add: heap_frame_def)

lemma set_next_end:
  assumes "linked h 0 ys m" "distinct (map fst ys)"
  obtains h' where "(if last_addr 0 ys \<noteq> 0 then set_next h (last_addr 0 ys) m' else Some h) = Some h'"
    "linked h' 0 ys m'" "heap_frame (addrs ys) h h'" "dom h' = dom h"
proof (cases "ys = []")
  case True
  then show thesis
    by (intro that [of h]) (auto simp: heap_frame_def)
next
  case False
  obtain h' where h': "set_next h (last_addr 0 ys) m' = Some h'" "linked h' 0 ys m'"
    "heap_frame {last_addr 0 ys} h h'" "dom h' = dom h"
    by (rule set_next_last [OF assms False])
  show thesis
    using h' False addr_ends_null(1) [OF assms(1)] heap_frame_mono [OF h'(3), of "addrs ys"]
    by (intro that [of h']) auto
qed

lemma set_prev_end:
  assumes "linked h q zs 0" "distinct (map fst zs)"
  obtains h' where "(if first_addr 0 zs \<noteq> 0 then set_prev h (first_addr 0 zs) q' else Some h) = Some h'"
    "linked h' q' zs 0" "heap_frame (addrs zs) h h'" "dom h' = dom h"
proof (cases "zs = []")
  case True
  then show thesis
    by (intro that [of h]) (auto simp: heap_frame_def)
next
  case False
  obtain h' where h': "set_prev h (first_addr 0 zs) q' = Some h'" "linked h' q' zs 0"
    "heap_frame {first_addr 0 zs} h h'" "dom h' = dom h"
    by (rule set_prev_first [OF assms False])
  show thesis
    using h' False addr_ends_null(2) [OF assms(1)] heap_frame_mono [OF h'(3), of "addrs zs"]
    by (intro that [of h']) auto
qed

lemma link_ends:
  assumes l: "linked h 0 ys m" "linked h q zs 0" and d: "distinct (map fst (ys @ zs))"
  obtains h1 h2 where
    "(if last_addr 0 ys \<noteq> 0 then set_next h (last_addr 0 ys) m' else Some h) = Some h1"
    "(if first_addr 0 zs \<noteq> 0 then set_prev h1 (first_addr 0 zs) q' else Some h1) = Some h2"
    "linked h2 0 ys m'" "linked h2 q' zs 0" "heap_frame (addrs ys) h h1"
    "heap_frame (addrs (ys @ zs)) h h2" "dom h2 = dom h"
proof -
  have d': "distinct (map fst ys)" "distinct (map fst zs)" "addrs ys \<inter> addrs zs = {}"
    using d by (auto simp: addrs_def)
  obtain h1 where h1: "(if last_addr 0 ys \<noteq> 0 then set_next h (last_addr 0 ys) m' else Some h) = Some h1"
    "linked h1 0 ys m'" "heap_frame (addrs ys) h h1" "dom h1 = dom h"
    by (rule set_next_end [OF l(1) d'(1)])
  obtain h2 where h2: "(if first_addr 0 zs \<noteq> 0 then set_prev h1 (first_addr 0 zs) q' else Some h1) = Some h2"
    "linked h2 q' zs 0" "heap_frame (addrs zs) h1 h2" "dom h2 = dom h1"
    by (rule set_prev_end [OF linked_heap_frame [OF l(2) h1(3) d'(3)] d'(2)])
  show thesis
    using h1 h2 linked_heap_frame [OF h1(2) h2(3)] heap_frame_trans [OF h1(3) h2(3)] d'(3)
    by (intro that [of h1 h2]) (auto simp: Int_commute)
qed

lemma link_between:
  fixes h :: "'v node_heap" and v :: 'v
  assumes l: "linked h 0 ys m" "linked h q zs 0" and d: "distinct (map fst (ys @ zs))"
    and a: "a \<notin> addrs (ys @ zs)" "a \<noteq> 0"
  defines "h0 \<equiv> h(a \<mapsto> \<lparr>ln_prev = last_addr 0 ys, ln_next = first_addr 0 zs, ln_value = v\<rparr>)"
  obtains h1 h2 where
    "(if last_addr 0 ys \<noteq> 0 then set_next h0 (last_addr 0 ys) a else Some h0) = Some h1"
    "(if first_addr 0 zs \<noteq> 0 then set_prev h1 (first_addr 0 zs) a else Some h1) = Some h2"
    "linked h2 0 (ys @ (a, v) # zs) 0" "heap_frame (insert a (addrs (ys @ zs))) h h2"
    "dom h2 = insert a (dom h)"
proof -
  have l0: "linked h0 0 ys m" "linked h0 q zs 0"
    using l a by (simp_all add: h0_def)
  obtain h1 h2 where h:
    "(if last_addr 0 ys \<noteq> 0 then set_next h0 (last_addr 0 ys) a else Some h0) = Some h1"
    "(if first_addr 0 zs \<noteq> 0 then set_prev h1 (first_addr 0 zs) a else Some h1) = Some h2"
    "linked h2 0 ys a" "linked h2 a zs 0" "heap_frame (addrs (ys @ zs)) h0 h2" "dom h2 = dom h0"
    by (rule link_ends [OF l0 d])
  have a2: "h2 a = h0 a"
    using h(5) a(1) by (simp add: heap_frame_def)
  have "heap_frame (insert a (addrs (ys @ zs))) h h2"
    using h(5) by (auto simp: heap_frame_def h0_def)
  then show thesis
    using h a2 a(2) by (intro that [of h1 h2]) (simp_all add: h0_def)
qed

lemma unlink:
  assumes l: "linked h 0 (ys @ (a, v) # zs) 0" and d: "distinct (map fst (ys @ (a, v) # zs))"
  obtains h1 h2 where
    "h a = Some \<lparr>ln_prev = last_addr 0 ys, ln_next = first_addr 0 zs, ln_value = v\<rparr>"
    "(if last_addr 0 ys \<noteq> 0 then set_next h (last_addr 0 ys) (first_addr 0 zs) else Some h) = Some h1"
    "h1 a = h a"
    "(if first_addr 0 zs \<noteq> 0 then set_prev h1 (first_addr 0 zs) (last_addr 0 ys) else Some h1) = Some h2"
    "linked (h2(a := None)) 0 (ys @ zs) 0" "heap_frame (addrs (ys @ (a, v) # zs)) h (h2(a := None))"
    "dom (h2(a := None)) = dom h - {a}"
proof -
  have l': "linked h 0 ys a" "linked h a zs 0" "h a = Some \<lparr>ln_prev = last_addr 0 ys, ln_next = first_addr 0 zs, ln_value = v\<rparr>"
    using l by simp_all
  have d': "distinct (map fst (ys @ zs))" "a \<notin> addrs (ys @ zs)"
    using d by (auto simp: addrs_def)
  obtain h1 h2 where h:
    "(if last_addr 0 ys \<noteq> 0 then set_next h (last_addr 0 ys) (first_addr 0 zs) else Some h) = Some h1"
    "(if first_addr 0 zs \<noteq> 0 then set_prev h1 (first_addr 0 zs) (last_addr 0 ys) else Some h1) = Some h2"
    "linked h2 0 ys (first_addr 0 zs)" "linked h2 (last_addr 0 ys) zs 0"
    "heap_frame (addrs ys) h h1" "heap_frame (addrs (ys @ zs)) h h2" "dom h2 = dom h"
    by (rule link_ends [OF l'(1,2) d'(1)])
  have "h1 a = h a"
    using h(5) d'(2) by (simp add: heap_frame_def)
  moreover have "heap_frame (addrs (ys @ (a, v) # zs)) h (h2(a := None))"
    using h(6) by (simp add: heap_frame_def)
  ultimately show thesis
    using h l' d'(2) by (intro that [of h1 h2]) auto
qed

section \<open>The operations on a represented list\<close>

text \<open>
  \<open>owned h0 h l xs\<close>: the list represents \<open>xs\<close>, and apart from its own nodes, which were free in the heap
  \<open>h0\<close>, the heap is still \<open>h0\<close>. Every operation preserves it for every \<open>h0\<close>: no operation writes
  to, leaks or frees a block of another owner.
\<close>

definition owned :: "'v node_heap \<Rightarrow> 'v node_heap \<Rightarrow> 'v list_hdr \<Rightarrow> (nat \<times> 'v) list \<Rightarrow> bool" where
  "owned h0 h l xs \<longleftrightarrow> list_rep h l xs \<and> heap_frame (addrs xs) h0 h \<and> (\<forall>a \<in> addrs xs. h0 a = None)"

lemma finite_addrs [simp]: "finite (addrs xs)"
  by (simp add: addrs_def)

lemma owned_finite: "owned h0 h l xs \<Longrightarrow> finite (dom h0) \<Longrightarrow> finite (dom h)"
proof -
  assume a: "owned h0 h l xs" "finite (dom h0)"
  have "dom h \<subseteq> dom h0 \<union> addrs xs"
    using a(1) unfolding owned_def heap_frame_def dom_def by (metis (mono_tags, lifting) UnCI mem_Collect_eq subsetI)
  then show ?thesis
    using a(2) by (meson finite_UnI finite_addrs finite_subset)
qed

lemma list_rep_cases:
  assumes "list_rep h l xs"
  shows "linked h 0 xs 0" "distinct (map fst xs)" "l_head l = first_addr 0 xs" "l_tail l = last_addr 0 xs"
    "l_len l = length xs" "length xs < 2 ^ 64"
  using assms by (simp_all add: list_rep_def)

text \<open>A new node between two parts of a list.\<close>

lemma owned_link:
  fixes h :: "'v node_heap" and v :: 'v
  assumes o: "owned h0 h l (ys @ zs)" and fin: "finite (dom h0)" and fr: "fresh_alloc alloc"
    and len: "Suc (length (ys @ zs)) < 2 ^ 64" and pn: "p = last_addr 0 ys" "n = first_addr 0 zs"
  defines "h' \<equiv> h(alloc h \<mapsto> \<lparr>ln_prev = p, ln_next = n, ln_value = v\<rparr>)"
  obtains h1 h2 where
    "(if p \<noteq> 0 then set_next h' p (alloc h) else Some h') = Some h1"
    "(if n \<noteq> 0 then set_prev h1 n (alloc h) else Some h1) = Some h2"
    "\<forall>l'. l_head l' = first_addr (alloc h) ys \<and> l_tail l' = last_addr (alloc h) zs \<and>
       l_len l' = u64 (l_len l + 1) \<longrightarrow> owned h0 h2 l' (ys @ (alloc h, v) # zs)"
proof -
  have rep: "list_rep h l (ys @ zs)" and fra: "heap_frame (addrs (ys @ zs)) h0 h" and
    new: "\<forall>a \<in> addrs (ys @ zs). h0 a = None"
    using o by (simp_all add: owned_def)
  have lk: "linked h 0 (ys @ zs) 0" and d: "distinct (map fst (ys @ zs))"
    using list_rep_cases [OF rep] by auto
  have finh: "finite (dom h)"
    using owned_finite [OF o fin] .
  have a: "alloc h \<notin> addrs (ys @ zs)" "alloc h \<noteq> 0" "h (alloc h) = None"
    using alloc_notin [OF fr finh lk] fresh_allocD [OF fr finh] by auto
  have lk': "linked h 0 ys (first_addr 0 zs)" "linked h (last_addr 0 ys) zs 0"
    using lk by simp_all
  obtain h1 h2 where h:
    "(if p \<noteq> 0 then set_next h' p (alloc h) else Some h') = Some h1"
    "(if n \<noteq> 0 then set_prev h1 n (alloc h) else Some h1) = Some h2"
    "linked h2 0 (ys @ (alloc h, v) # zs) 0" "heap_frame (insert (alloc h) (addrs (ys @ zs))) h h2"
    unfolding h'_def pn by (rule link_between [OF lk' d a(1,2), of v])
  have dd: "distinct (map fst (ys @ (alloc h, v) # zs))"
    using d a(1) by (auto simp: addrs_def)
  have h0a: "h0 (alloc h) = None"
    using fra a by (auto simp: heap_frame_def)
  have len': "l_len l = length (ys @ zs)"
    using list_rep_cases(5) [OF rep] .
  have "heap_frame (addrs (ys @ (alloc h, v) # zs)) h0 h2"
    using heap_frame_trans [OF fra h(4)] by (rule heap_frame_mono) auto
  then show thesis
    using h(3) dd new h0a len len' by (intro that [OF h(1,2)]) (simp add: owned_def list_rep_def u64_id)
qed

lemma first_addr_if: "first_addr n xs = (if xs = [] then n else first_addr 0 xs)"
  by (cases xs) auto

lemma last_addr_if: "last_addr n xs = (if xs = [] then n else last_addr 0 xs)"
  by (simp add: last_addr_def)

lemma listAddNodeHead_owned:
  fixes v :: 'v
  assumes o: "owned h0 h l xs" and fin: "finite (dom h0)" and fr: "fresh_alloc alloc"
    and len: "Suc (length xs) < 2 ^ 64"
  shows "\<exists>h' l'. listAddNodeHead alloc h l v = Some (h', l') \<and> owned h0 h' l' ((alloc h, v) # xs) \<and> same_hooks l l'"
proof -
  have rep: "list_rep h l xs"
    using o by (simp add: owned_def)
  note r = list_rep_cases [OF rep]
  have o': "owned h0 h l ([] @ xs)" and len': "Suc (length ([] @ xs)) < 2 ^ 64"
    using o len by simp_all
  have p: "0 = last_addr 0 []" and n: "l_head l = first_addr 0 xs"
    using r(3) by simp_all
  obtain h1 h2 where h:
    "(if (0::nat) \<noteq> 0 then set_next (h(alloc h \<mapsto> \<lparr>ln_prev = 0, ln_next = l_head l, ln_value = v\<rparr>)) 0 (alloc h)
      else Some (h(alloc h \<mapsto> \<lparr>ln_prev = 0, ln_next = l_head l, ln_value = v\<rparr>))) = Some h1"
    "(if l_head l \<noteq> 0 then set_prev h1 (l_head l) (alloc h) else Some h1) = Some h2"
    "\<forall>l'. l_head l' = first_addr (alloc h) ([] :: (nat \<times> 'v) list) \<and> l_tail l' = last_addr (alloc h) xs \<and>
       l_len l' = u64 (l_len l + 1) \<longrightarrow> owned h0 h2 l' ([] @ (alloc h, v) # xs)"
    by (rule owned_link [OF o' fin fr len' p n, of v])
  have own: "owned h0 h2 l' ((alloc h, v) # xs)"
    if "l_head l' = alloc h" "l_tail l' = (if xs = [] then alloc h else l_tail l)" "l_len l' = u64 (l_len l + 1)" for l'
    using spec [OF h(3), of l'] that r(4) last_addr_if [of "alloc h" xs] by simp
  show ?thesis
    using h(1,2) own r(5) n addr_ends_null(2) [OF r(1)]
    by (cases "xs = []") (simp_all add: listAddNodeHead_def same_hooks_def Let_def)
qed

lemma listAddNodeTail_owned:
  fixes v :: 'v
  assumes o: "owned h0 h l xs" and fin: "finite (dom h0)" and fr: "fresh_alloc alloc"
    and len: "Suc (length xs) < 2 ^ 64"
  shows "\<exists>h' l'. listAddNodeTail alloc h l v = Some (h', l') \<and> owned h0 h' l' (xs @ [(alloc h, v)]) \<and> same_hooks l l'"
proof -
  have rep: "list_rep h l xs"
    using o by (simp add: owned_def)
  note r = list_rep_cases [OF rep]
  have o': "owned h0 h l (xs @ [])" and len': "Suc (length (xs @ [])) < 2 ^ 64"
    using o len by simp_all
  have p: "l_tail l = last_addr 0 xs" and n: "0 = first_addr 0 []"
    using r(4) by simp_all
  obtain h1 h2 where h:
    "(if l_tail l \<noteq> 0 then set_next (h(alloc h \<mapsto> \<lparr>ln_prev = l_tail l, ln_next = 0, ln_value = v\<rparr>)) (l_tail l) (alloc h)
      else Some (h(alloc h \<mapsto> \<lparr>ln_prev = l_tail l, ln_next = 0, ln_value = v\<rparr>))) = Some h1"
    "(if (0::nat) \<noteq> 0 then set_prev h1 0 (alloc h) else Some h1) = Some h2"
    "\<forall>l'. l_head l' = first_addr (alloc h) xs \<and> l_tail l' = last_addr (alloc h) ([] :: (nat \<times> 'v) list) \<and>
       l_len l' = u64 (l_len l + 1) \<longrightarrow> owned h0 h2 l' (xs @ (alloc h, v) # [])"
    by (rule owned_link [OF o' fin fr len' p n, of v])
  have own: "owned h0 h2 l' (xs @ [(alloc h, v)])"
    if "l_head l' = (if xs = [] then alloc h else l_head l)" "l_tail l' = alloc h" "l_len l' = u64 (l_len l + 1)" for l'
    using spec [OF h(3), of l'] that r(3) first_addr_if [of "alloc h" xs] by simp
  show ?thesis
    using h(1,2) own r(5) p addr_ends_null(1) [OF r(1)]
    by (cases "xs = []") (simp_all add: listAddNodeTail_def same_hooks_def Let_def)
qed

lemma listInsertNode_owned:
  assumes o: "owned h0 h l (ys @ (a, x) # zs)" and fin: "finite (dom h0)" and fr: "fresh_alloc alloc"
    and len: "Suc (length (ys @ (a, x) # zs)) < 2 ^ 64"
  shows "\<exists>h' l'. listInsertNode alloc h l a v after = Some (h', l') \<and>
    owned h0 h' l' (if after then ys @ (a, x) # (alloc h, v) # zs else ys @ (alloc h, v) # (a, x) # zs) \<and> same_hooks l l'"
proof -
  have rep: "list_rep h l (ys @ (a, x) # zs)"
    using o by (simp add: owned_def)
  note r = list_rep_cases [OF rep]
  have ha: "a \<noteq> 0" "h a = Some \<lparr>ln_prev = last_addr 0 ys, ln_next = first_addr 0 zs, ln_value = x\<rparr>"
    using r(1) by simp_all
  have a: "a \<notin> addrs ys" "a \<notin> addrs zs"
    using r(2) by (auto simp: addrs_def)
  have tail: "l_tail l = a \<longleftrightarrow> zs = []"
    using r(4) a(2) addr_ends(1) [of zs a] by (metis last_addr_simps)
  have head: "l_head l = a \<longleftrightarrow> ys = []"
    using r(3) a(1) addr_ends(2) [of ys a] by (metis first_addr_simps)
  show ?thesis
  proof (cases after)
    case True
    have o': "owned h0 h l ((ys @ [(a, x)]) @ zs)" and len': "Suc (length ((ys @ [(a, x)]) @ zs)) < 2 ^ 64"
      using o len by simp_all
    have p: "a = last_addr 0 (ys @ [(a, x)])"
      by simp
    obtain h1 h2 where h:
      "(if a \<noteq> 0 then set_next (h(alloc h \<mapsto> \<lparr>ln_prev = a, ln_next = first_addr 0 zs, ln_value = v\<rparr>)) a (alloc h)
        else Some (h(alloc h \<mapsto> \<lparr>ln_prev = a, ln_next = first_addr 0 zs, ln_value = v\<rparr>))) = Some h1"
      "(if first_addr 0 zs \<noteq> 0 then set_prev h1 (first_addr 0 zs) (alloc h) else Some h1) = Some h2"
      "\<forall>l'. l_head l' = first_addr (alloc h) (ys @ [(a, x)]) \<and> l_tail l' = last_addr (alloc h) zs \<and>
         l_len l' = u64 (l_len l + 1) \<longrightarrow> owned h0 h2 l' ((ys @ [(a, x)]) @ (alloc h, v) # zs)"
      by (rule owned_link [OF o' fin fr len' p refl, of v])
    have own: "owned h0 h2 l' (ys @ (a, x) # (alloc h, v) # zs)"
      if "l_head l' = l_head l" "l_tail l' = (if zs = [] then alloc h else l_tail l)" "l_len l' = u64 (l_len l + 1)" for l'
      using spec [OF h(3), of l'] that r(3,4) last_addr_if [of "alloc h" zs] last_addr_if [of a zs] by simp
    define l1 where "l1 = (if l_tail l = a then l\<lparr>l_tail := alloc h\<rparr> else l)"
    have "listInsertNode alloc h l a v after = Some (h2, l1\<lparr>l_len := u64 (l_len l1 + 1)\<rparr>)"
      by (simp only: listInsertNode_def Let_def ha(2) True if_True if_False prod.case Option.bind.simps listNode.simps
          h(1,2) l1_def [symmetric])
    then show ?thesis
      using own True tail by (simp add: l1_def same_hooks_def)
  next
    case False
    have n: "a = first_addr 0 ((a, x) # zs)"
      by simp
    obtain h1 h2 where h:
      "(if last_addr 0 ys \<noteq> 0
        then set_next (h(alloc h \<mapsto> \<lparr>ln_prev = last_addr 0 ys, ln_next = a, ln_value = v\<rparr>)) (last_addr 0 ys) (alloc h)
        else Some (h(alloc h \<mapsto> \<lparr>ln_prev = last_addr 0 ys, ln_next = a, ln_value = v\<rparr>))) = Some h1"
      "(if a \<noteq> 0 then set_prev h1 a (alloc h) else Some h1) = Some h2"
      "\<forall>l'. l_head l' = first_addr (alloc h) ys \<and> l_tail l' = last_addr (alloc h) ((a, x) # zs) \<and>
         l_len l' = u64 (l_len l + 1) \<longrightarrow> owned h0 h2 l' (ys @ (alloc h, v) # (a, x) # zs)"
      by (rule owned_link [OF o fin fr len refl n, of v])
    have own: "owned h0 h2 l' (ys @ (alloc h, v) # (a, x) # zs)"
      if "l_head l' = (if ys = [] then alloc h else l_head l)" "l_tail l' = l_tail l" "l_len l' = u64 (l_len l + 1)" for l'
      using spec [OF h(3), of l'] that r(3,4) first_addr_if [of "alloc h" ys] first_addr_if [of a ys] by simp
    define l1 where "l1 = (if l_head l = a then l\<lparr>l_head := alloc h\<rparr> else l)"
    have "listInsertNode alloc h l a v after = Some (h2, l1\<lparr>l_len := u64 (l_len l1 + 1)\<rparr>)"
      by (simp only: listInsertNode_def Let_def ha(2) False if_True if_False prod.case Option.bind.simps listNode.simps
          h(1,2) l1_def [symmetric])
    then show ?thesis
      using own False head by (simp add: l1_def same_hooks_def)
  qed
qed

lemma listDelNode_owned:
  assumes o: "owned h0 h l (ys @ (a, x) # zs)"
  shows "\<exists>h' l'. listDelNode h l a = Some (h', l', if l_free l then [x] else []) \<and>
    owned h0 h' l' (ys @ zs) \<and> same_hooks l l'"
proof -
  have rep: "list_rep h l (ys @ (a, x) # zs)" and fra: "heap_frame (addrs (ys @ (a, x) # zs)) h0 h" and
    new: "\<forall>a \<in> addrs (ys @ (a, x) # zs). h0 a = None"
    using o by (simp_all add: owned_def)
  note r = list_rep_cases [OF rep]
  obtain h1 h2 where h:
    "h a = Some \<lparr>ln_prev = last_addr 0 ys, ln_next = first_addr 0 zs, ln_value = x\<rparr>"
    "(if last_addr 0 ys \<noteq> 0 then set_next h (last_addr 0 ys) (first_addr 0 zs) else Some h) = Some h1"
    "h1 a = h a"
    "(if first_addr 0 zs \<noteq> 0 then set_prev h1 (first_addr 0 zs) (last_addr 0 ys) else Some h1) = Some h2"
    "linked (h2(a := None)) 0 (ys @ zs) 0" "heap_frame (addrs (ys @ (a, x) # zs)) h (h2(a := None))"
    by (rule unlink [OF r(1,2)])
  have lk: "linked h 0 ys a" "linked h a zs 0"
    using r(1) by simp_all
  note nulls = addr_ends_null(1) [OF lk(1)] addr_ends_null(2) [OF lk(2)]
  have step1: "(if last_addr 0 ys \<noteq> 0 then do { h \<leftarrow> set_next h (last_addr 0 ys) (first_addr 0 zs); Some (h, l) }
     else Some (h, l\<lparr>l_head := first_addr 0 zs\<rparr>)) = Some (h1, if ys = [] then l\<lparr>l_head := first_addr 0 zs\<rparr> else l)"
    using h(2) nulls(1) by (simp split: if_splits)
  have step2: "(if first_addr 0 zs \<noteq> 0 then do { h \<leftarrow> set_prev h1 (first_addr 0 zs) (last_addr 0 ys); Some (h, l') }
     else Some (h1, l'\<lparr>l_tail := last_addr 0 ys\<rparr>)) = Some (h2, if zs = [] then l'\<lparr>l_tail := last_addr 0 ys\<rparr> else l')"
    for l' :: "'a list_hdr"
    using h(4) nulls(2) by (simp split: if_splits)
  have fra2: "heap_frame (addrs (ys @ zs)) h0 (h2(a := None))"
    using heap_frame_trans [OF fra h(6)] new by (auto simp: heap_frame_def)
  have fa: "first_addr 0 (ys @ zs) = (if ys = [] then first_addr 0 zs else first_addr 0 (ys @ (a, x) # zs))"
    by (cases ys) auto
  have la: "last_addr 0 (ys @ zs) = (if zs = [] then last_addr 0 ys else last_addr 0 (ys @ (a, x) # zs))"
    by (simp add: last_addr_def)
  have len: "u64 (length (ys @ (a, x) # zs) + 2 ^ 64 - 1) = length (ys @ zs)"
    using r(6) by (simp add: u64_def)
  define l1 where "l1 = (if ys = [] then l\<lparr>l_head := first_addr 0 zs\<rparr> else l)"
  define l2 where "l2 = (if zs = [] then l1\<lparr>l_tail := last_addr 0 ys\<rparr> else l1)"
  have ev: "listDelNode h l a = Some (h2(a := None), l2\<lparr>l_len := u64 (l_len l2 + 2 ^ 64 - 1)\<rparr>, if l_free l2 then [x] else [])"
    by (simp only: listDelNode_def h(1,3) step1 step2 l1_def [symmetric] l2_def [symmetric]
        Option.bind.simps prod.case listNode.simps)
  have l2: "l_len l2 = l_len l" "l_free l2 = l_free l" "same_hooks l l2"
    "l_head l2 = first_addr 0 (ys @ zs)" "l_tail l2 = last_addr 0 (ys @ zs)"
    using fa la r(3,4) by (simp_all add: l1_def l2_def same_hooks_def)
  have "list_rep (h2(a := None)) (l2\<lparr>l_len := u64 (l_len l2 + 2 ^ 64 - 1)\<rparr>) (ys @ zs)"
    using h(5) r(2,5,6) len l2 unfolding list_rep_def by simp
  then show ?thesis
    using ev l2(2,3) fra2 new by (simp add: owned_def same_hooks_def)
qed

lemma listRotate_owned:
  assumes o: "owned h0 h l xs"
  shows "\<exists>h' l' xs'. listRotate h l = Some (h', l') \<and> owned h0 h' l' xs' \<and> same_hooks l l' \<and>
    map snd xs' = (if xs = [] then [] else last (map snd xs) # butlast (map snd xs))"
proof (cases "length xs \<le> 1")
  case True
  then have "map snd xs = (if xs = [] then [] else last (map snd xs) # butlast (map snd xs))"
    by (cases xs) auto
  then show ?thesis
    using True o by (auto simp: listRotate_def owned_def list_rep_def same_hooks_def)
next
  case False
  have rep: "list_rep h l xs" and fra: "heap_frame (addrs xs) h0 h" and new: "\<forall>a \<in> addrs xs. h0 a = None"
    using o by (simp_all add: owned_def)
  note r = list_rep_cases [OF rep]
  obtain ys a v where xs: "xs = ys @ [(a, v)]" and ys: "ys \<noteq> []"
    using False by (cases xs rule: rev_cases) auto
  have lk: "linked h 0 ys a" "h a = Some \<lparr>ln_prev = last_addr 0 ys, ln_next = 0, ln_value = v\<rparr>" "a \<noteq> 0"
    using r(1) by (simp_all add: xs)
  have d: "distinct (map fst ys)" "a \<notin> addrs ys"
    using r(2) by (auto simp: xs addrs_def)
  obtain h1 where h1: "set_next h (last_addr 0 ys) 0 = Some h1" "linked h1 0 ys 0" "heap_frame {last_addr 0 ys} h h1"
    by (rule set_next_last [OF lk(1) d(1) ys])
  obtain h2 where h2: "set_prev h1 (first_addr a ys) a = Some h2" "linked h2 a ys 0" "heap_frame {first_addr a ys} h1 h2"
    by (rule set_prev_first [OF h1(2) d(1) ys])
  have fra2: "heap_frame (addrs ys) h h2"
    using heap_frame_trans [OF h1(3) h2(3)] ys by (rule_tac heap_frame_mono) auto
  then have a2: "h2 a = Some \<lparr>ln_prev = last_addr 0 ys, ln_next = 0, ln_value = v\<rparr>"
    using lk(2) d(2) by (simp add: heap_frame_def)
  define h4 where "h4 = h2(a \<mapsto> \<lparr>ln_prev = 0, ln_next = first_addr a ys, ln_value = v\<rparr>)"
  have ends: "l_tail l = a" "l_head l = first_addr a ys" "first_addr a ys = first_addr 0 ys" "l_len l = length xs"
    using r(3,4,5) ys first_addr_if [of a ys] by (simp_all add: xs)
  have "listRotate h l = Some (h4, l\<lparr>l_tail := last_addr 0 ys, l_head := a\<rparr>)"
    using False h1(1) h2(1) a2 lk(2) ends(1,2,4)
    by (simp add: listRotate_def Let_def set_prev_def [of h2] set_next_def [of "h2(_ \<mapsto> _)"] h4_def)
  moreover have "owned h0 h4 (l\<lparr>l_tail := last_addr 0 ys, l_head := a\<rparr>) ((a, v) # ys)"
  proof -
    have "heap_frame (addrs xs) h0 h4"
      using fra fra2 by (auto simp: heap_frame_def h4_def xs)
    moreover have "list_rep h4 (l\<lparr>l_tail := last_addr 0 ys, l_head := a\<rparr>) ((a, v) # ys)"
      using h2(2) d lk(3) r(5,6) ends(3) ys last_addr_if [of a ys]
      by (simp add: list_rep_def h4_def addrs_fst [symmetric] xs)
    ultimately show ?thesis
      using new by (simp add: owned_def xs)
  qed
  ultimately show ?thesis
    by (force simp: xs same_hooks_def)
qed

lemma release_loop_linked:
  "linked h p xs 0 \<Longrightarrow> distinct (map fst xs) \<Longrightarrow>
     release_loop f h (first_addr 0 xs) (length xs) =
       Some (\<lambda>a. if a \<in> addrs xs then None else h a, if f then map snd xs else [])"
proof (induction xs arbitrary: h p)
  case (Cons c xs)
  obtain a v where c: "c = (a, v)"
    by fastforce
  have a: "a \<notin> addrs xs" "distinct (map fst xs)" "linked h a xs 0"
    using Cons.prems by (auto simp: c addrs_def)
  have "release_loop f (h(a := None)) (first_addr 0 xs) (length xs) =
      Some (\<lambda>b. if b \<in> addrs xs then None else (h(a := None)) b, if f then map snd xs else [])"
    using a(2,3) linked_upd [OF a(1)] by (intro Cons.IH [of _ a]) blast+
  then show ?case
    using Cons.prems(1) by (auto simp: c fun_eq_iff)
qed simp

lemma listRelease_owned:
  assumes o: "owned h0 h l xs"
  shows "listRelease h l = Some (h0, if l_free l then map snd xs else [])"
proof -
  have rep: "list_rep h l xs"
    using o by (simp add: owned_def)
  note r = list_rep_cases [OF rep]
  have "(\<lambda>a. if a \<in> addrs xs then None else h a) = h0"
    using o by (auto simp: owned_def heap_frame_def fun_eq_iff)
  then show ?thesis
    using release_loop_linked [OF r(1,2), of "l_free l"] r(3,5) by (simp add: listRelease_def)
qed

section \<open>Reading a list\<close>

lemma index_loop_next:
  "linked h p xs 0 \<Longrightarrow> index_loop ln_next h (first_addr 0 xs) i = Some (if i < length xs then fst (xs ! i) else 0)"
proof (induction i arbitrary: p xs)
  case 0
  then show ?case
    by (cases xs) auto
next
  case (Suc i)
  show ?case
  proof (cases xs)
    case (Cons c ys)
    then show ?thesis
      using Suc.prems Suc.IH [of "fst c" ys] by (cases c) auto
  qed simp
qed

lemma index_loop_prev:
  "linked h 0 xs n \<Longrightarrow> index_loop ln_prev h (last_addr 0 xs) i = Some (if i < length xs then fst (rev xs ! i) else 0)"
proof (induction i arbitrary: n xs)
  case 0
  then show ?case
    by (cases xs rule: rev_cases) auto
next
  case (Suc i)
  show ?case
  proof (cases xs rule: rev_cases)
    case (snoc ys c)
    then show ?thesis
      using Suc.prems Suc.IH [of ys "fst c"] by (cases c) auto
  qed simp
qed

text \<open>The position a C index names, counted from the tail when it is negative.\<close>

definition list_position :: "int \<Rightarrow> nat \<Rightarrow> nat option" where
  "list_position i n =
     (if i < 0 then (if nat (- i) \<le> n then Some (n - nat (- i)) else None)
      else if nat i < n then Some (nat i) else None)"

lemma listIndex_rep:
  assumes rep: "list_rep h l xs" and i: "in_signed 64 i"
  shows "listIndex h l i = Some (case list_position i (length xs) of Some k \<Rightarrow> fst (xs ! k) | None \<Rightarrow> 0)"
proof (cases "i < 0")
  case True
  note r = list_rep_cases [OF rep]
  have idx: "to_signed 64 (to_signed 64 (- i) - 1) = - i - 1"
  proof (cases "i = - (2 ^ 63)")
    case True
    then show ?thesis
      by (simp add: to_signed_def)
  next
    case False
    then have "to_signed 64 (- i) = - i"
      using i \<open>i < 0\<close> by (intro to_signed_id) auto
    then show ?thesis
      using i \<open>i < 0\<close> by (simp add: to_signed_id)
  qed
  have "nat (- i - 1) < length xs \<longleftrightarrow> nat (- i) \<le> length xs"
    using True by linarith
  moreover have "rev xs ! nat (- i - 1) = xs ! (length xs - nat (- i))" if "nat (- i - 1) < length xs"
    using that True by (simp add: rev_nth Suc_nat_eq_nat_zadd1)
  ultimately show ?thesis
    using index_loop_prev [OF r(1), of "nat (- i - 1)"] True
    by (simp add: listIndex_def list_position_def r(4) idx)
next
  case False
  note r = list_rep_cases [OF rep]
  then show ?thesis
    using index_loop_next [OF r(1), of "nat i"] False
    by (simp add: listIndex_def list_position_def r(3))
qed

text \<open>The classical use of an iterator: the values \<open>listNext\<close> gives until it returns \<open>NULL\<close>.\<close>

partial_function (option) list_walk :: "'v node_heap \<Rightarrow> listIter \<Rightarrow> 'v list option" where
  "list_walk h iter = do {
     (node, iter) \<leftarrow> listNext h iter;
     if node = 0 then Some []
     else do { n \<leftarrow> h node; vs \<leftarrow> list_walk h iter; Some (ln_value n # vs) } }"

lemma listNext_end: "listNext h \<lparr>li_next = 0, li_direction = d\<rparr> = Some (0, \<lparr>li_next = 0, li_direction = d\<rparr>)"
  by (simp add: listNext_def Let_def)

lemma listNext_forward:
  "linked h p ((a, v) # xs) 0 \<Longrightarrow>
     listNext h \<lparr>li_next = a, li_direction = AL_START_HEAD\<rparr> = Some (a, \<lparr>li_next = first_addr 0 xs, li_direction = AL_START_HEAD\<rparr>)"
  by (simp add: listNext_def Let_def)

lemma listNext_backward:
  "linked h 0 (xs @ [(a, v)]) n \<Longrightarrow>
     listNext h \<lparr>li_next = a, li_direction = AL_START_TAIL\<rparr> = Some (a, \<lparr>li_next = last_addr 0 xs, li_direction = AL_START_TAIL\<rparr>)"
  by (simp add: listNext_def Let_def AL_START_TAIL_def AL_START_HEAD_def)

lemma list_walk_forward:
  "linked h p xs 0 \<Longrightarrow> list_walk h \<lparr>li_next = first_addr 0 xs, li_direction = AL_START_HEAD\<rparr> = Some (map snd xs)"
proof (induction xs arbitrary: p)
  case Nil
  then show ?case
    by (subst list_walk.simps) (simp add: listNext_end)
next
  case (Cons c xs)
  obtain a v where c: "c = (a, v)"
    by fastforce
  show ?case
    using Cons.prems Cons.IH [of a]
    by (subst list_walk.simps) (simp add: c listNext_forward [of h p a v xs])
qed

lemma list_walk_backward:
  "linked h 0 xs n \<Longrightarrow> list_walk h \<lparr>li_next = last_addr 0 xs, li_direction = AL_START_TAIL\<rparr> = Some (rev (map snd xs))"
proof (induction xs arbitrary: n rule: rev_induct)
  case Nil
  then show ?case
    by (subst list_walk.simps) (simp add: listNext_end)
next
  case (snoc c xs)
  obtain a v where c: "c = (a, v)"
    by fastforce
  show ?case
    using snoc.prems snoc.IH [of a]
    by (subst list_walk.simps) (simp add: c listNext_backward [of h xs a v n])
qed

lemma list_walk_rep:
  assumes rep: "list_rep h l xs"
  shows "list_walk h (listGetIterator l AL_START_HEAD) = Some (map snd xs)"
    "list_walk h (listGetIterator l AL_START_TAIL) = Some (rev (map snd xs))"
    "list_walk h (listRewind l) = Some (map snd xs)"
    "list_walk h (listRewindTail l) = Some (rev (map snd xs))"
proof -
  note r = list_rep_cases [OF rep]
  note w = list_walk_forward [OF r(1)] list_walk_backward [OF r(1)]
  show "list_walk h (listGetIterator l AL_START_HEAD) = Some (map snd xs)"
    "list_walk h (listGetIterator l AL_START_TAIL) = Some (rev (map snd xs))"
    "list_walk h (listRewind l) = Some (map snd xs)"
    "list_walk h (listRewindTail l) = Some (rev (map snd xs))"
    using w r(3,4) by (simp_all add: listGetIterator_def listRewind_def listRewindTail_def AL_START_TAIL_def AL_START_HEAD_def)
qed

text \<open>Searching and duplicating.\<close>

definition list_matches :: "'v list_hdr \<Rightarrow> 'v \<Rightarrow> 'v \<Rightarrow> bool" where
  "list_matches l key v = (case l_match l of Some match \<Rightarrow> match v key | None \<Rightarrow> key = v)"

lemma search_loop_linked:
  "linked h p xs 0 \<Longrightarrow> search_loop h l key \<lparr>li_next = first_addr 0 xs, li_direction = AL_START_HEAD\<rparr> =
     Some (case find (\<lambda>(a, v). list_matches l key v) xs of Some (a, v) \<Rightarrow> a | None \<Rightarrow> 0)"
proof (induction xs arbitrary: p)
  case Nil
  then show ?case
    by (subst search_loop.simps) (simp add: listNext_end)
next
  case (Cons c xs)
  obtain a v where c: "c = (a, v)"
    by fastforce
  show ?case
    using Cons.prems Cons.IH [of a]
    by (subst search_loop.simps) (simp add: c listNext_forward [of h p a v xs] list_matches_def [symmetric])
qed

lemma listSearchKey_rep:
  "list_rep h l xs \<Longrightarrow> listSearchKey h l key =
     Some (case find (\<lambda>(a, v). list_matches l key v) xs of Some (a, v) \<Rightarrow> a | None \<Rightarrow> 0)"
  using search_loop_linked [of h 0 xs l key]
  by (simp add: listSearchKey_def listGetIterator_def list_rep_def)

definition dup_value :: "'v list_hdr \<Rightarrow> 'v \<Rightarrow> 'v option" where
  "dup_value l v = (case l_dup l of Some dup \<Rightarrow> dup v | None \<Rightarrow> Some v)"

definition dup_result ::
  "'v node_heap \<Rightarrow> 'v list_hdr \<Rightarrow> 'v list \<Rightarrow> 'v list \<Rightarrow> ('v node_heap \<times> 'v list_hdr option \<times> 'v list) option \<Rightarrow> bool" where
  "dup_result h0 l us vs r \<longleftrightarrow>
     (if \<forall>v \<in> set vs. dup_value l v \<noteq> None
      then \<exists>h' copy ys. r = Some (h', Some copy, []) \<and> owned h0 h' copy ys \<and> same_hooks l copy \<and>
             map snd ys = us @ map (\<lambda>v. the (dup_value l v)) vs
      else r = Some (h0, None, if l_free l then us @ map (\<lambda>v. the (dup_value l v)) (takeWhile (\<lambda>v. dup_value l v \<noteq> None) vs) else []))"

lemma same_hooks_dup:
  assumes "same_hooks l l'"
  shows "dup_value l' = dup_value l" "l_free l' = l_free l" "same_hooks l' l'' = same_hooks l l''"
  using assms by (auto simp: same_hooks_def dup_value_def fun_eq_iff)

lemma dup_result_step:
  assumes r: "dup_result h0 l' (us @ [w]) vs r" and s: "same_hooks l l'" and v: "dup_value l v = Some w"
  shows "dup_result h0 l us (v # vs) r"
proof (cases "\<forall>v \<in> set vs. dup_value l v \<noteq> None")
  case True
  then have "\<forall>u \<in> set (v # vs). dup_value l u \<noteq> None"
    using v by simp
  then show ?thesis
    using r True v unfolding dup_result_def same_hooks_dup [OF s] by simp
next
  case False
  then have "\<not> (\<forall>u \<in> set (v # vs). dup_value l u \<noteq> None)"
    by simp
  then show ?thesis
    using r False v unfolding dup_result_def same_hooks_dup [OF s] by (simp only: if_False) simp
qed

lemma dup_loop_owned:
  assumes fin: "finite (dom h0)" and fr: "fresh_alloc alloc"
  shows "owned h0 h copy ys \<Longrightarrow> linked h0 p xs 0 \<Longrightarrow> length ys + length xs < 2 ^ 64 \<Longrightarrow>
    dup_result h0 copy (map snd ys) (map snd xs) (dup_loop alloc h copy \<lparr>li_next = first_addr 0 xs, li_direction = AL_START_HEAD\<rparr>)"
proof (induction xs arbitrary: p h copy ys)
  case Nil
  then show ?case
    by (subst dup_loop.simps) (auto simp: listNext_end dup_result_def same_hooks_def)
next
  case (Cons c xs)
  obtain a v where c: "c = (a, v)"
    by fastforce
  have frame: "heap_frame (addrs ys) h0 h"
    using Cons.prems(1) by (simp add: owned_def)
  have disj: "addrs ys \<inter> addrs ((a, v) # xs) = {}"
    using Cons.prems(1) linked_live [OF Cons.prems(2)] unfolding owned_def c by blast
  have lk: "linked h p ((a, v) # xs) 0"
    using Cons.prems(2) frame disj unfolding c by (rule linked_heap_frame)
  have ha: "h a = Some \<lparr>ln_prev = p, ln_next = first_addr 0 xs, ln_value = v\<rparr>" "a \<noteq> 0"
    using lk by simp_all
  let ?it = "\<lparr>li_next = first_addr 0 xs, li_direction = AL_START_HEAD\<rparr>"
  have step: "dup_loop alloc h copy \<lparr>li_next = first_addr 0 (c # xs), li_direction = AL_START_HEAD\<rparr> =
     (case dup_value copy v of
        None \<Rightarrow> do { (h, freed) \<leftarrow> listRelease h copy; Some (h, None, freed) }
      | Some w \<Rightarrow> do { (h, copy) \<leftarrow> listAddNodeTail alloc h copy w; dup_loop alloc h copy ?it })"
    using ha by (subst dup_loop.simps) (simp add: c listNext_forward [OF lk] dup_value_def [symmetric])
  show ?case
  proof (cases "dup_value copy v")
    case None
    then show ?thesis
      unfolding step by (simp add: listRelease_owned [OF Cons.prems(1)] dup_result_def c)
  next
    case (Some w)
    have len: "Suc (length ys) < 2 ^ 64"
      using Cons.prems(3) by simp
    obtain h' copy' where h': "listAddNodeTail alloc h copy w = Some (h', copy')"
      "owned h0 h' copy' (ys @ [(alloc h, w)])" "same_hooks copy copy'"
      using listAddNodeTail_owned [OF Cons.prems(1) fin fr len] by blast
    have "dup_result h0 copy' (map snd (ys @ [(alloc h, w)])) (map snd xs) (dup_loop alloc h' copy' ?it)"
      using Cons.prems(2,3) c by (intro Cons.IH [OF h'(2), of a]) simp_all
    then show ?thesis
      unfolding step using Some dup_result_step [OF _ h'(3) Some] by (simp add: h'(1) c)
  qed
qed

section \<open>Histories of operations\<close>

text \<open>A node is named by its index, as the callers that hold no node pointer do.\<close>

datatype 'v list_op = OpAddHead 'v | OpAddTail 'v | OpInsert int 'v bool | OpDel int | OpRotate

fun list_step ::
  "('v node_heap \<Rightarrow> nat) \<Rightarrow> 'v list_op \<Rightarrow> 'v node_heap \<Rightarrow> 'v list_hdr \<Rightarrow> ('v node_heap \<times> 'v list_hdr \<times> 'v list) option" where
  "list_step alloc (OpAddHead v) h l = do { (h, l) \<leftarrow> listAddNodeHead alloc h l v; Some (h, l, []) }"
| "list_step alloc (OpAddTail v) h l = do { (h, l) \<leftarrow> listAddNodeTail alloc h l v; Some (h, l, []) }"
| "list_step alloc (OpInsert i v after) h l = do {
     node \<leftarrow> listIndex h l i;
     if node = 0 then Some (h, l, [])
     else do { (h, l) \<leftarrow> listInsertNode alloc h l node v after; Some (h, l, []) } }"
| "list_step alloc (OpDel i) h l = do {
     node \<leftarrow> listIndex h l i;
     if node = 0 then Some (h, l, []) else listDelNode h l node }"
| "list_step alloc OpRotate h l = do { (h, l) \<leftarrow> listRotate h l; Some (h, l, []) }"

fun list_run ::
  "('v node_heap \<Rightarrow> nat) \<Rightarrow> 'v list_op list \<Rightarrow> 'v node_heap \<Rightarrow> 'v list_hdr \<Rightarrow> ('v node_heap \<times> 'v list_hdr \<times> 'v list) option" where
  "list_run alloc [] h l = Some (h, l, [])"
| "list_run alloc (op # ops) h l = do {
     (h, l, freed) \<leftarrow> list_step alloc op h l;
     (h, l, freed') \<leftarrow> list_run alloc ops h l;
     Some (h, l, freed @ freed') }"

fun seq_step :: "'v list_op \<Rightarrow> 'v list \<Rightarrow> 'v list \<times> 'v list" where
  "seq_step (OpAddHead v) vs = (v # vs, [])"
| "seq_step (OpAddTail v) vs = (vs @ [v], [])"
| "seq_step (OpInsert i v after) vs =
     (case list_position i (length vs) of
        None \<Rightarrow> (vs, [])
      | Some k \<Rightarrow> let j = (if after then Suc k else k) in (take j vs @ v # drop j vs, []))"
| "seq_step (OpDel i) vs =
     (case list_position i (length vs) of
        None \<Rightarrow> (vs, [])
      | Some k \<Rightarrow> (take k vs @ drop (Suc k) vs, [vs ! k]))"
| "seq_step OpRotate vs = (if vs = [] then [] else last vs # butlast vs, [])"

fun seq_run :: "'v list_op list \<Rightarrow> 'v list \<Rightarrow> 'v list \<times> 'v list" where
  "seq_run [] vs = (vs, [])"
| "seq_run (op # ops) vs =
     (let (vs, freed) = seq_step op vs; (vs, freed') = seq_run ops vs in (vs, freed @ freed'))"

fun op_index_ok :: "'v list_op \<Rightarrow> bool" where
  "op_index_ok (OpInsert i v after) = in_signed 64 i"
| "op_index_ok (OpDel i) = in_signed 64 i"
| "op_index_ok _ = True"

lemma list_position_less: "list_position i n = Some k \<Longrightarrow> k < n"
  by (auto simp: list_position_def split: if_splits)

lemma nth_split_pair: "k < length xs \<Longrightarrow> xs = take k xs @ (fst (xs ! k), snd (xs ! k)) # drop (Suc k) xs"
  by (simp add: id_take_nth_drop)

lemma list_step_index:
  assumes o: "owned h0 h l xs" and i: "in_signed 64 i" and k: "list_position i (length xs) = Some k"
  shows "listIndex h l i = Some (fst (xs ! k))" "fst (xs ! k) \<noteq> 0"
    "owned h0 h l (take k xs @ (fst (xs ! k), snd (xs ! k)) # drop (Suc k) xs)"
proof -
  have rep: "list_rep h l xs"
    using o by (simp add: owned_def)
  note r = list_rep_cases [OF rep]
  have kl: "k < length xs"
    using list_position_less [OF k] .
  then have "fst (xs ! k) \<in> addrs xs"
    by (simp add: addrs_def)
  then show "fst (xs ! k) \<noteq> 0"
    using linked_live [OF r(1)] by blast
  show "listIndex h l i = Some (fst (xs ! k))"
    using listIndex_rep [OF rep i] k by simp
  show "owned h0 h l (take k xs @ (fst (xs ! k), snd (xs ! k)) # drop (Suc k) xs)"
    using o nth_split_pair [OF kl] by simp
qed

lemma list_step_none:
  assumes o: "owned h0 h l xs" and i: "in_signed 64 i" and k: "list_position i (length xs) = None"
  shows "listIndex h l i = Some 0"
  using o listIndex_rep [OF _ i, of h l xs] k by (simp add: owned_def)

text \<open>The values an operation passes to \<open>free\<close>: none when the list has no such method.\<close>

definition if_free :: "'v list_hdr \<Rightarrow> 'v list \<Rightarrow> 'v list" where
  "if_free l vs = (if l_free l then vs else [])"

lemma if_free_simps [simp]: "if_free l [] = []" "if_free l (us @ vs) = if_free l us @ if_free l vs"
  by (simp_all add: if_free_def)

lemma list_step_refines:
  assumes o: "owned h0 h l xs" and fin: "finite (dom h0)" and fr: "fresh_alloc alloc"
    and len: "Suc (length xs) < 2 ^ 64" and ok: "op_index_ok op"
  shows "\<exists>h' l' xs' freed. list_step alloc op h l = Some (h', l', if_free l freed) \<and> owned h0 h' l' xs' \<and>
    same_hooks l l' \<and> seq_step op (map snd xs) = (map snd xs', freed) \<and> length xs' \<le> Suc (length xs)"
proof (cases op)
  case (OpAddHead v)
  then show ?thesis
    using listAddNodeHead_owned [OF o fin fr len, of v] by fastforce
next
  case (OpAddTail v)
  then show ?thesis
    using listAddNodeTail_owned [OF o fin fr len, of v] by fastforce
next
  case OpRotate
  obtain h' l' xs' where "listRotate h l = Some (h', l')" "owned h0 h' l' xs'" "same_hooks l l'"
    "map snd xs' = (if xs = [] then [] else last (map snd xs) # butlast (map snd xs))"
    using listRotate_owned [OF o] by blast
  moreover from this(4) have "length xs' = length xs"
    by (metis calculation(4) length_map list.size(3) append_butlast_last_id length_append_singleton length_Cons Nil_is_map_conv)
  ultimately show ?thesis
    using OpRotate by (intro exI [of _ h'] exI [of _ l'] exI [of _ xs'] exI [of _ "[]"]) simp
next
  case (OpInsert i v after)
  have i: "in_signed 64 i"
    using ok OpInsert by simp
  show ?thesis
  proof (cases "list_position i (length xs)")
    case None
    then show ?thesis
      using OpInsert o list_step_none [OF o i None]
      by (intro exI [of _ h] exI [of _ l] exI [of _ xs] exI [of _ "[]"]) (simp add: same_hooks_def)
  next
    case (Some k)
    note s = list_step_index [OF o i Some]
    have kl: "k < length xs"
      using list_position_less [OF Some] .
    have len': "Suc (length (take k xs @ (fst (xs ! k), snd (xs ! k)) # drop (Suc k) xs)) < 2 ^ 64"
      using len kl by simp
    define xs' where "xs' = (if after then take k xs @ (fst (xs ! k), snd (xs ! k)) # (alloc h, v) # drop (Suc k) xs
        else take k xs @ (alloc h, v) # (fst (xs ! k), snd (xs ! k)) # drop (Suc k) xs)"
    obtain h' l' where "listInsertNode alloc h l (fst (xs ! k)) v after = Some (h', l')" "owned h0 h' l' xs'" "same_hooks l l'"
      unfolding xs'_def using listInsertNode_owned [OF s(3) fin fr len', of v after] by blast
    moreover have "map snd xs' = (let j = (if after then Suc k else k) in take j (map snd xs) @ v # drop j (map snd xs))"
      using kl by (simp add: xs'_def Let_def take_Suc_conv_app_nth take_map drop_map Cons_nth_drop_Suc [symmetric])
    moreover have "length xs' = Suc (length xs)"
      using kl by (simp add: xs'_def)
    ultimately show ?thesis
      using OpInsert s(1,2) Some
      by (intro exI [of _ h'] exI [of _ l'] exI [of _ xs'] exI [of _ "[]"]) (simp add: Let_def)
  qed
next
  case (OpDel i)
  have i: "in_signed 64 i"
    using ok OpDel by simp
  show ?thesis
  proof (cases "list_position i (length xs)")
    case None
    then show ?thesis
      using OpDel o list_step_none [OF o i None]
      by (intro exI [of _ h] exI [of _ l] exI [of _ xs] exI [of _ "[]"]) (simp add: same_hooks_def)
  next
    case (Some k)
    note s = list_step_index [OF o i Some]
    have kl: "k < length xs"
      using list_position_less [OF Some] .
    obtain h' l' where "listDelNode h l (fst (xs ! k)) = Some (h', l', if l_free l then [snd (xs ! k)] else [])"
      "owned h0 h' l' (take k xs @ drop (Suc k) xs)" "same_hooks l l'"
      using listDelNode_owned [OF s(3)] by blast
    then show ?thesis
      using OpDel s(1,2) Some kl
      by (intro exI [of _ h'] exI [of _ l'] exI [of _ "take k xs @ drop (Suc k) xs"] exI [of _ "[snd (xs ! k)]"])
        (simp add: if_free_def take_map drop_map)
  qed
qed

lemma list_run_refines:
  assumes fin: "finite (dom h0)" and fr: "fresh_alloc alloc"
  shows "owned h0 h l xs \<Longrightarrow> length xs + length ops < 2 ^ 64 \<Longrightarrow> list_all op_index_ok ops \<Longrightarrow>
    \<exists>h' l' xs' freed. list_run alloc ops h l = Some (h', l', if_free l freed) \<and> owned h0 h' l' xs' \<and>
      same_hooks l l' \<and> seq_run ops (map snd xs) = (map snd xs', freed)"
proof (induction ops arbitrary: h l xs)
  case Nil
  then show ?case
    by (auto simp: same_hooks_def)
next
  case (Cons op ops)
  have len: "Suc (length xs) < 2 ^ 64" and ok: "op_index_ok op" "list_all op_index_ok ops"
    using Cons.prems(2,3) by simp_all
  obtain h1 l1 xs1 fr1 where s1: "list_step alloc op h l = Some (h1, l1, if_free l fr1)" "owned h0 h1 l1 xs1"
    "same_hooks l l1" "seq_step op (map snd xs) = (map snd xs1, fr1)" "length xs1 \<le> Suc (length xs)"
    using list_step_refines [OF Cons.prems(1) fin fr len ok(1)] by blast
  have "length xs1 + length ops < 2 ^ 64"
    using s1(5) Cons.prems(2) by simp
  then obtain h2 l2 xs2 fr2 where s2: "list_run alloc ops h1 l1 = Some (h2, l2, if_free l1 fr2)" "owned h0 h2 l2 xs2"
    "same_hooks l1 l2" "seq_run ops (map snd xs1) = (map snd xs2, fr2)"
    using Cons.IH [OF s1(2) _ ok(2)] by blast
  have "if_free l1 fr2 = if_free l fr2" "same_hooks l l2"
    using s1(3) s2(3) by (simp_all add: if_free_def same_hooks_def)
  then show ?case
    using s1 s2
    by (intro exI [of _ h2] exI [of _ l2] exI [of _ xs2] exI [of _ "fr1 @ fr2"]) simp
qed

lemma find_pairs_snd: "map_option snd (find (\<lambda>(a, v). P v) xs) = find P (map snd xs)"
  by (induction xs) auto

lemma linked_value: "linked h p xs n \<Longrightarrow> (a, v) \<in> set xs \<Longrightarrow> a \<noteq> 0 \<and> map_option ln_value (h a) = Some v"
  by (induction xs arbitrary: p) auto

lemma listSearchKey_values:
  assumes rep: "list_rep h l xs"
  shows "\<exists>node. listSearchKey h l key = Some node \<and>
    (case find (list_matches l key) (map snd xs) of
       None \<Rightarrow> node = 0 | Some v \<Rightarrow> node \<noteq> 0 \<and> map_option ln_value (h node) = Some v)"
proof (cases "find (\<lambda>(a, v). list_matches l key v) xs")
  case None
  then show ?thesis
    using listSearchKey_rep [OF rep, of key] find_pairs_snd [of "list_matches l key" xs] by simp
next
  case (Some c)
  obtain a v where c: "c = (a, v)"
    by fastforce
  have "(a, v) \<in> set xs"
    using Some unfolding c find_Some_iff by (metis nth_mem)
  then have "a \<noteq> 0 \<and> map_option ln_value (h a) = Some v"
    using linked_value [OF list_rep_cases(1) [OF rep]] by blast
  moreover have "find (list_matches l key) (map snd xs) = Some v"
    using find_pairs_snd [of "list_matches l key" xs] Some by (simp add: c)
  ultimately show ?thesis
    using listSearchKey_rep [OF rep, of key] Some by (simp add: c)
qed

definition list_new :: "('v \<Rightarrow> 'v option) option \<Rightarrow> bool \<Rightarrow> ('v \<Rightarrow> 'v \<Rightarrow> bool) option \<Rightarrow> 'v list_hdr" where
  "list_new dup free match = listCreate\<lparr>l_dup := dup, l_free := free, l_match := match\<rparr>"

lemma list_new_owned: "owned h0 h0 (list_new dup free match) []"
  by (simp add: owned_def list_rep_def list_new_def listCreate_def heap_frame_def)

text \<open>
  An allocator for the examples: the address after the largest one in use.
\<close>

definition bump_alloc :: "'v node_heap \<Rightarrow> nat" where
  "bump_alloc h = Suc (Max (insert 0 (dom h)))"

lemma bump_alloc_fresh: "fresh_alloc (bump_alloc :: 'v node_heap \<Rightarrow> nat)"
proof -
  have "h (bump_alloc h) = None" if "finite (dom h)" for h :: "'v node_heap"
  proof (rule ccontr)
    assume "h (bump_alloc h) \<noteq> None"
    then have "bump_alloc h \<le> Max (insert 0 (dom h))"
      using that by (intro Max_ge) auto
    then show False
      by (simp add: bump_alloc_def)
  qed
  then show ?thesis
    by (simp add: fresh_alloc_def bump_alloc_def)
qed

lemma dup_result_hooks: "same_hooks l l' \<Longrightarrow> dup_result h0 l' us vs r = dup_result h0 l us vs r"
  unfolding dup_result_def by (simp only: same_hooks_dup)

section \<open>Properties\<close>

text \<open>C19: Every history of insertions at either end, insertions beside a node, deletions and
  rotations runs without following a dead pointer, and leaves a list whose iterators give, in both
  directions, the sequence the same history makes of an abstract sequence. \<open>listSearchKey\<close> finds the
  first value the match method accepts. The values passed to the \<open>free\<close> method are those the
  history deleted, and releasing the list frees the others and gives back the heap of before the
  history: no node leaks and no other block changes.\<close>

theorem adlist_history_refines_list:
  assumes fin: "finite (dom h0)" and fr: "fresh_alloc alloc"
    and len: "length ops < 2 ^ 64" and ok: "list_all op_index_ok ops"
  shows "\<exists>h l vs deleted. seq_run ops [] = (vs, deleted) \<and>
    list_run alloc ops h0 (list_new dup free match) = Some (h, l, if free then deleted else []) \<and>
    l_len l = length vs \<and>
    list_walk h (listGetIterator l AL_START_HEAD) = Some vs \<and>
    list_walk h (listGetIterator l AL_START_TAIL) = Some (rev vs) \<and>
    (\<forall>key. \<exists>node. listSearchKey h l key = Some node \<and>
       (case find (list_matches (list_new dup free match) key) vs of
          None \<Rightarrow> node = 0 | Some v \<Rightarrow> node \<noteq> 0 \<and> map_option ln_value (h node) = Some v)) \<and>
    listRelease h l = Some (h0, if free then vs else [])"
proof -
  let ?l0 = "list_new dup free match"
  have len': "length ([] :: (nat \<times> 'a) list) + length ops < 2 ^ 64"
    using len by simp
  obtain h l xs deleted where run: "list_run alloc ops h0 ?l0 = Some (h, l, if_free ?l0 deleted)"
    "owned h0 h l xs" "same_hooks ?l0 l" "seq_run ops (map snd ([] :: (nat \<times> 'a) list)) = (map snd xs, deleted)"
    using list_run_refines [OF fin fr list_new_owned len' ok] by blast
  have free: "l_free ?l0 = free" "l_free l = free" "list_matches l = list_matches ?l0"
    using run(3) by (simp_all add: list_new_def same_hooks_def list_matches_def fun_eq_iff)
  have rep: "list_rep h l xs"
    using run(2) by (simp add: owned_def)
  show ?thesis
    using run(1,4) list_walk_rep(1,2) [OF rep] listSearchKey_values [OF rep] listRelease_owned [OF run(2)]
      list_rep_cases(5) [OF rep] free
    by (intro exI [of _ h] exI [of _ l] exI [of _ "map snd xs"] exI [of _ deleted]) (simp add: if_free_def)
qed

theorem adlist_history_refines_list_witness:
  "\<exists>h l. list_run bump_alloc [OpAddTail (5::int), OpAddHead 3, OpInsert (-1) 4 False, OpRotate, OpDel 1, OpDel 9]
      Map.empty (list_new None True None) = Some (h, l, [3]) \<and>
    l_len l = 2 \<and> list_walk h (listGetIterator l AL_START_HEAD) = Some [5, 4] \<and>
    list_walk h (listGetIterator l AL_START_TAIL) = Some [4, 5] \<and>
    listRelease h l = Some (Map.empty, [5, 4])"
proof -
  let ?ops = "[OpAddTail (5::int), OpAddHead 3, OpInsert (-1) 4 False, OpRotate, OpDel 1, OpDel 9]"
  have ev: "seq_run ?ops [] = ([5, 4], [3])"
    by (simp add: list_position_def)
  show ?thesis
    using adlist_history_refines_list [of Map.empty bump_alloc ?ops None True None] bump_alloc_fresh
    by (fastforce simp add: ev simp del: seq_run.simps list_run.simps)
qed

text \<open>C20: \<open>listDup\<close> copies a list into nodes of its own. When the duplication method accepts every
  value the copy holds the duplicates in order, and releasing the copy gives the heap of before. When
  the method refuses a value the result is \<open>NULL\<close>, the heap is the one of before, and exactly the
  duplicates made so far were passed to \<open>free\<close>. The original list is unchanged either way.\<close>

theorem listDup_correct:
  assumes rep: "list_rep h orig xs" and fin: "finite (dom h)" and fr: "fresh_alloc alloc"
  shows "if \<forall>(a, v) \<in> set xs. dup_value orig v \<noteq> None
    then \<exists>h' copy ys. listDup alloc h orig = Some (h', Some copy, []) \<and> list_rep h' copy ys \<and> list_rep h' orig xs \<and>
           addrs xs \<inter> addrs ys = {} \<and> map snd ys = map (\<lambda>(a, v). the (dup_value orig v)) xs \<and>
           listRelease h' copy = Some (h, if l_free orig then map snd ys else [])
    else listDup alloc h orig = Some (h, None,
           if l_free orig then map (\<lambda>(a, v). the (dup_value orig v)) (takeWhile (\<lambda>(a, v). dup_value orig v \<noteq> None) xs) else [])"
proof -
  note r = list_rep_cases [OF rep]
  let ?c = "list_new (l_dup orig) (l_free orig) (l_match orig)"
  have s: "same_hooks orig ?c"
    by (simp add: same_hooks_def list_new_def)
  have "listDup alloc h orig = dup_loop alloc h ?c \<lparr>li_next = first_addr 0 xs, li_direction = AL_START_HEAD\<rparr>"
    by (simp add: listDup_def Let_def list_new_def listGetIterator_def r(3))
  moreover have "length ([] :: (nat \<times> 'a) list) + length xs < 2 ^ 64"
    using r(6) by simp
  ultimately have res: "dup_result h orig [] (map snd xs) (listDup alloc h orig)"
    using dup_loop_owned [OF fin fr list_new_owned r(1), of "l_dup orig" "l_free orig" "l_match orig"]
      dup_result_hooks [OF s] by simp
  show ?thesis
  proof (cases "\<forall>(a, v) \<in> set xs. dup_value orig v \<noteq> None")
    case True
    then have "\<forall>v \<in> set (map snd xs). dup_value orig v \<noteq> None"
      by auto
    then obtain h' copy ys where c: "listDup alloc h orig = Some (h', Some copy, [])" "owned h h' copy ys"
      "same_hooks orig copy" "map snd ys = map (\<lambda>v. the (dup_value orig v)) (map snd xs)"
      using res unfolding dup_result_def by auto
    have disj: "addrs ys \<inter> addrs xs = {}"
      using c(2) linked_live [OF r(1)] unfolding owned_def by blast
    have "heap_frame (addrs ys) h h'"
      using c(2) by (simp add: owned_def)
    then have "linked h' 0 xs 0"
      by (rule linked_heap_frame [OF r(1) _ disj])
    then have rep': "list_rep h' orig xs"
      using rep by (simp add: list_rep_def)
    have "list_rep h' copy ys"
      using c(2) by (simp add: owned_def)
    moreover have "map snd ys = map (\<lambda>(a, v). the (dup_value orig v)) xs"
      using c(4) by (simp add: case_prod_unfold comp_def)
    moreover have "listRelease h' copy = Some (h, if l_free orig then map snd ys else [])"
      using listRelease_owned [OF c(2)] c(3) by (simp add: same_hooks_def)
    ultimately show ?thesis
      using True c(1) rep' disj by (simp only: if_True) (metis Int_commute)
  next
    case False
    then have "\<not> (\<forall>v \<in> set (map snd xs). dup_value orig v \<noteq> None)"
      by force
    then show ?thesis
      using False res unfolding dup_result_def
      by (simp only: if_False) (simp add: takeWhile_map comp_def case_prod_unfold)
  qed
qed

theorem listDup_correct_witness:
  "\<exists>h l h' copy ys. list_run bump_alloc [OpAddTail (5::int), OpAddTail 7] Map.empty (list_new (Some (\<lambda>v. Some (v + 1))) True None) = Some (h, l, []) \<and>
     listDup bump_alloc h l = Some (h', Some copy, []) \<and> list_rep h' copy ys \<and> map snd ys = [6, 8] \<and>
     listRelease h' copy = Some (h, [6, 8])"
proof -
  let ?l0 = "list_new (Some (\<lambda>v. Some (v + 1))) True None :: int list_hdr"
  let ?ops = "[OpAddTail (5::int), OpAddTail 7]"
  obtain h l xs where run: "list_run bump_alloc ?ops Map.empty ?l0 = Some (h, l, [])"
    "owned Map.empty h l xs" "same_hooks ?l0 l" "map snd xs = [5, 7]"
    using list_run_refines [OF _ bump_alloc_fresh list_new_owned [of Map.empty], of ?ops "Some (\<lambda>v. Some (v + 1))" True None]
    by auto
  have rep: "list_rep h l xs" and fin: "finite (dom h)"
    using run(2) owned_finite [OF run(2)] by (simp_all add: owned_def)
  have d: "dup_value l v = Some (v + 1)" for v
    using run(3) by (simp add: same_hooks_def dup_value_def list_new_def)
  have f: "l_free l" and m: "map (\<lambda>(a, v). v + 1) xs = [6, 8]"
    using run(3,4) by (auto simp: same_hooks_def list_new_def map_eq_Cons_conv)
  show ?thesis
    using listDup_correct [OF rep fin bump_alloc_fresh] run(1) by (fastforce simp add: d f m)
qed

text \<open>C21: What the comment of \<open>listNext\<close> allows: the node an iterator has just returned may be deleted.
  Whatever the direction of the iterator, the deletion leaves the other nodes in their order, and the
  iterator goes on with the nodes it would have given otherwise.\<close>

theorem listDelNode_while_iterating:
  assumes rep: "list_rep h l (ys @ (a, v) # zs)"
    and it: "it = \<lparr>li_next = a, li_direction = d\<rparr>" and d: "d = AL_START_HEAD \<or> d = AL_START_TAIL"
  shows "\<exists>it' h' l' freed. listNext h it = Some (a, it') \<and> listDelNode h l a = Some (h', l', freed) \<and>
    list_rep h' l' (ys @ zs) \<and> h' a = None \<and>
    list_walk h' it' = Some (if d = AL_START_HEAD then map snd zs else rev (map snd ys)) \<and>
    list_walk h' it' = list_walk h it'"
proof -
  note r = list_rep_cases [OF rep]
  define h0 where "h0 = (\<lambda>b. if b \<in> addrs (ys @ (a, v) # zs) then None else h b)"
  have o: "owned h0 h l (ys @ (a, v) # zs)"
    using rep by (auto simp: owned_def h0_def heap_frame_def)
  obtain h' l' freed where del: "listDelNode h l a = Some (h', l', freed)" "owned h0 h' l' (ys @ zs)"
    using listDelNode_owned [OF o] by blast
  have rep': "list_rep h' l' (ys @ zs)" and fra: "heap_frame (addrs (ys @ zs)) h0 h'"
    using del(2) by (simp_all add: owned_def)
  note r' = list_rep_cases [OF rep']
  have "a \<notin> addrs (ys @ zs)"
    using r(2) by (auto simp: addrs_def)
  then have dead: "h' a = None"
    using fra by (simp add: heap_frame_def h0_def)
  have lk: "linked h (last_addr 0 ys) ((a, v) # zs) 0" "linked h 0 (ys @ [(a, v)]) (first_addr 0 zs)"
    "linked h a zs 0" "linked h 0 ys a"
    using r(1) by simp_all
  have lk': "linked h' (last_addr 0 ys) zs 0" "linked h' 0 ys (first_addr 0 zs)"
    using r'(1) by simp_all
  show ?thesis
  proof (cases "d = AL_START_HEAD")
    case True
    then show ?thesis
      using listNext_forward [OF lk(1)] list_walk_forward [OF lk'(1)] list_walk_forward [OF lk(3)] del(1) rep' dead it
      by auto
  next
    case False
    then have "d = AL_START_TAIL"
      using d by blast
    then show ?thesis
      using False listNext_backward [OF lk(2)] list_walk_backward [OF lk'(2)] list_walk_backward [OF lk(4)] del(1) rep' dead it
      by auto
  qed
qed

theorem listDelNode_while_iterating_witness:
  "let h = [1::nat \<mapsto> \<lparr>ln_prev = 0, ln_next = 2, ln_value = 10\<rparr>, 2 \<mapsto> \<lparr>ln_prev = 1, ln_next = 3, ln_value = 20\<rparr>,
            3 \<mapsto> \<lparr>ln_prev = 2, ln_next = 0, ln_value = (30::int)\<rparr>];
       l = listCreate\<lparr>l_head := 1, l_tail := 3, l_len := 3\<rparr>
   in \<exists>it' h' l' freed. listNext h \<lparr>li_next = 2, li_direction = AL_START_HEAD\<rparr> = Some (2, it') \<and>
        listDelNode h l 2 = Some (h', l', freed) \<and> list_walk h' it' = Some [30]"
proof -
  define h where "h = [1::nat \<mapsto> \<lparr>ln_prev = 0, ln_next = 2, ln_value = 10\<rparr>, 2 \<mapsto> \<lparr>ln_prev = 1, ln_next = 3, ln_value = 20\<rparr>,
    3 \<mapsto> \<lparr>ln_prev = 2, ln_next = 0, ln_value = (30::int)\<rparr>]"
  define l :: "int list_hdr" where "l = listCreate\<lparr>l_head := 1, l_tail := 3, l_len := 3\<rparr>"
  have "list_rep h l ([(1, 10)] @ (2, 20) # [(3, 30)])"
    by (simp add: list_rep_def h_def l_def listCreate_def)
  then show ?thesis
    using listDelNode_while_iterating [of h l "[(1, 10)]" 2 20 "[(3, 30)]" "\<lparr>li_next = 2, li_direction = AL_START_HEAD\<rparr>" AL_START_HEAD]
    unfolding h_def [symmetric] l_def [symmetric] Let_def by auto
qed

end
