(* ===== verification/Util_Glob.thy ===== *)
theory Util_Glob
  imports Memory Util_Numbers
begin

text \<open>
  Glob-style pattern matching of \<^verbatim>\<open>redis-3.0.0/src/util.c\<close>: \<open>stringmatchlen\<close> and \<open>stringmatch\<close>. The two
  arguments are the blocks that hold the pattern and the string, their terminators included; the
  pointers that the code moves are offsets, and the two lengths are C \<open>int\<close>s, which the code lets
  become negative. A read behind a block is a fault (the outer \<open>None\<close>).
\<close>

section \<open>Definitions\<close>

text \<open>Characters are compared as bytes, or folded by \<open>tolower\<close> when \<open>nocase\<close> is set.\<close>

definition glob_same :: "bool \<Rightarrow> byte \<Rightarrow> byte \<Rightarrow> bool" where
  "glob_same nocase c x \<longleftrightarrow> (if \<not> nocase then c = x else c_tolower c = c_tolower x)"

definition glob_range :: "bool \<Rightarrow> byte \<Rightarrow> byte \<Rightarrow> byte \<Rightarrow> bool" where
  "glob_range nocase c e x =
     (let (start, end) = (if sint c > sint e then (e, c) else (c, e));
          (start, end, x) = (if nocase then (c_tolower start, c_tolower end, c_tolower x) else (start, end, x))
      in sint x \<ge> sint start \<and> sint x \<le> sint end)"

text \<open>The loops over consecutive stars, behind the first one and at the end of the string.\<close>

function star_skip :: "byte list \<Rightarrow> nat \<Rightarrow> int \<Rightarrow> (nat \<times> int) option" where
  "star_skip pm p plen = do {
     c \<leftarrow> load pm (p + 1);
     if c = 42 then star_skip pm (p + 1) (plen - 1) else Some (p, plen) }"
  by pat_completeness auto
termination
  by (relation "measure (\<lambda>(pm, p, plen). length pm - p)") (auto simp: load_def split: if_splits)

function end_skip :: "byte list \<Rightarrow> nat \<Rightarrow> int \<Rightarrow> (nat \<times> int) option" where
  "end_skip pm p plen = do {
     c \<leftarrow> load pm p;
     if c = 42 then end_skip pm (p + 1) (plen - 1) else Some (p, plen) }"
  by pat_completeness auto
termination
  by (relation "measure (\<lambda>(pm, p, plen). length pm - p)") (auto simp: load_def split: if_splits)

text \<open>The loop over a character class; it gives the place where it stopped and whether a member matched.\<close>

function class_loop ::
  "bool \<Rightarrow> byte list \<Rightarrow> byte list \<Rightarrow> nat \<Rightarrow> nat \<Rightarrow> int \<Rightarrow> bool \<Rightarrow> (nat \<times> int \<times> bool) option" where
  "class_loop nocase pm sm s p plen match = do {
     c \<leftarrow> load pm p;
     if c = 92 then do {
       c' \<leftarrow> load pm (p + 1);
       x \<leftarrow> load sm s;
       class_loop nocase pm sm s (p + 2) (plen - 2) (match \<or> c' = x) }
     else if c = 93 then Some (p, plen, match)
     else if plen = 0 then Some (p - 1, plen + 1, match)
     else do {
       d \<leftarrow> load pm (p + 1);
       if d = 45 \<and> plen \<ge> 3 then do {
         e \<leftarrow> load pm (p + 2);
         x \<leftarrow> load sm s;
         class_loop nocase pm sm s (p + 3) (plen - 3) (match \<or> glob_range nocase c e x) }
       else do {
         x \<leftarrow> load sm s;
         class_loop nocase pm sm s (p + 1) (plen - 1) (match \<or> glob_same nocase c x) } } }"
  by pat_completeness auto
termination
  by (relation "measure (\<lambda>(nocase, pm, sm, s, p, plen, match). length pm - p)") (auto simp: load_def split: if_splits)

declare star_skip.simps [simp del] end_skip.simps [simp del] class_loop.simps [simp del]

text \<open>
  One pass of the \<open>switch\<close> for anything but a star; the inner \<open>None\<close> is the early return of 0, and the
  pattern pointer is left on the last character of the item.
\<close>

definition glob_item ::
  "bool \<Rightarrow> byte list \<Rightarrow> byte list \<Rightarrow> byte \<Rightarrow> nat \<Rightarrow> int \<Rightarrow> nat \<Rightarrow> int \<Rightarrow> (nat \<times> int \<times> nat \<times> int) option option" where
  "glob_item nocase pm sm c p plen s slen =
     (if c = 63 then Some (if slen = 0 then None else Some (p, plen, s + 1, slen - 1))
      else if c = 91 then do {
        let (p, plen) = (p + 1, plen - 1);
        d \<leftarrow> load pm p;
        let neg = (d = 94);
        let (p, plen) = (if neg then (p + 1, plen - 1) else (p, plen));
        (p, plen, match) \<leftarrow> class_loop nocase pm sm s p plen False;
        let match = (if neg then \<not> match else match);
        Some (if \<not> match then None else Some (p, plen, s + 1, slen - 1)) }
      else do {
        let (p, plen) = (if c = 92 \<and> plen \<ge> 2 then (p + 1, plen - 1) else (p, plen));
        c \<leftarrow> load pm p;
        x \<leftarrow> load sm s;
        Some (if \<not> glob_same nocase c x then None else Some (p, plen, s + 1, slen - 1)) })"

text \<open>
  The main loop and, with \<open>star\<close> set, the loop behind a star that tries the rest of the pattern at every
  place of the string.
\<close>

partial_function (option) glob_run ::
  "bool \<Rightarrow> byte list \<Rightarrow> byte list \<Rightarrow> bool \<Rightarrow> nat \<Rightarrow> int \<Rightarrow> nat \<Rightarrow> int \<Rightarrow> bool option" where
  "glob_run nocase pm sm star p plen s slen =
     (if star then
        (if slen = 0 then Some False
         else do {
           r \<leftarrow> glob_run nocase pm sm False (p + 1) (plen - 1) s slen;
           if r then Some True else glob_run nocase pm sm True p plen (s + 1) (slen - 1) })
      else if plen = 0 then Some (slen = 0)
      else do {
        c \<leftarrow> load pm p;
        if c = 42 then do {
          (p, plen) \<leftarrow> star_skip pm p plen;
          if plen = 1 then Some True else glob_run nocase pm sm True p plen s slen }
        else do {
          st \<leftarrow> glob_item nocase pm sm c p plen s slen;
          case st of
            None \<Rightarrow> Some False
          | Some (p, plen, s, slen) \<Rightarrow>
              (if slen = 0 then do {
                 (p, plen) \<leftarrow> end_skip pm (p + 1) (plen - 1);
                 Some (plen = 0 \<and> slen = 0) }
               else glob_run nocase pm sm False (p + 1) (plen - 1) s slen) } })"

definition stringmatchlen :: "byte list \<Rightarrow> int \<Rightarrow> byte list \<Rightarrow> int \<Rightarrow> bool \<Rightarrow> bool option" where
  "stringmatchlen pm patternLen sm stringLen nocase = glob_run nocase pm sm False 0 patternLen 0 stringLen"

definition stringmatch :: "byte list \<Rightarrow> byte list \<Rightarrow> bool \<Rightarrow> bool option" where
  "stringmatch pm sm nocase = do {
     plen \<leftarrow> c_strlen pm;
     slen \<leftarrow> c_strlen sm;
     stringmatchlen pm (int plen) sm (int slen) nocase }"

section \<open>The reference matcher\<close>

text \<open>
  The pattern language: a star, any character, a literal (escaped in the text when it is special) and
  a class, negated or not, of characters, escaped characters and ranges. An escaped character of a class
  is compared exactly, also when \<open>nocase\<close> is set. The language is defined on the numbers a signed \<open>char\<close>
  takes, without the functions of the matcher: two characters agree when they are the same number once
  the upper case letters 65 to 90 have been moved to the lower case ones, and a range holds what lies between its
  folded ends, whichever of the two is written first.
\<close>

datatype class_member = COne byte | CEsc byte | CRange byte byte

datatype glob_token = GStar | GAny | GLit byte | GClass bool "class_member list"

fun class_text :: "class_member \<Rightarrow> byte list" where
  "class_text (COne c) = [c]"
| "class_text (CEsc c) = [92, c]"
| "class_text (CRange a b) = [a, 45, b]"

fun token_text :: "glob_token \<Rightarrow> byte list" where
  "token_text GStar = [42]"
| "token_text GAny = [63]"
| "token_text (GLit c) = (if c \<in> {42, 63, 91, 92} then [92, c] else [c])"
| "token_text (GClass neg cs) = 91 # (if neg then [94] else []) @ concat (map class_text cs) @ [93]"

definition glob_text :: "glob_token list \<Rightarrow> byte list" where
  "glob_text ts = concat (map token_text ts)"

fun class_ok :: "class_member \<Rightarrow> bool" where
  "class_ok (COne c) \<longleftrightarrow> c \<noteq> 92 \<and> c \<noteq> 93 \<and> c \<noteq> 45"
| "class_ok (CEsc c) \<longleftrightarrow> True"
| "class_ok (CRange a b) \<longleftrightarrow> a \<noteq> 92 \<and> a \<noteq> 93 \<and> a \<noteq> 45"

fun token_ok :: "glob_token \<Rightarrow> bool" where
  "token_ok (GClass neg cs) \<longleftrightarrow>
     list_all class_ok cs \<and> (neg \<or> (case concat (map class_text cs) of [] \<Rightarrow> True | c # _ \<Rightarrow> c \<noteq> 94))"
| "token_ok _ \<longleftrightarrow> True"

definition fold_code :: "bool \<Rightarrow> int \<Rightarrow> int" where
  "fold_code nocase n = (if nocase \<and> n \<in> {65..90} then n + 32 else n)"

definition same_code :: "bool \<Rightarrow> byte \<Rightarrow> byte \<Rightarrow> bool" where
  "same_code nocase c x \<longleftrightarrow> fold_code nocase (sint c) = fold_code nocase (sint x)"

fun class_matches :: "bool \<Rightarrow> byte \<Rightarrow> class_member \<Rightarrow> bool" where
  "class_matches nocase x (COne c) = same_code nocase c x"
| "class_matches nocase x (CEsc c) = (c = x)"
| "class_matches nocase x (CRange a b) \<longleftrightarrow>
     fold_code nocase (sint x) \<in> {fold_code nocase (min (sint a) (sint b))..fold_code nocase (max (sint a) (sint b))}"

fun token_matches :: "bool \<Rightarrow> byte \<Rightarrow> glob_token \<Rightarrow> bool" where
  "token_matches nocase x GStar = True"
| "token_matches nocase x GAny = True"
| "token_matches nocase x (GLit c) = same_code nocase c x"
| "token_matches nocase x (GClass neg cs) = (list_ex (class_matches nocase x) cs \<noteq> neg)"

fun glob_matches :: "bool \<Rightarrow> glob_token list \<Rightarrow> byte list \<Rightarrow> bool" where
  "glob_matches nocase [] s = (s = [])"
| "glob_matches nocase (t # ts) [] = (t = GStar \<and> glob_matches nocase ts [])"
| "glob_matches nocase (t # ts) (x # s) =
     (if t = GStar then glob_matches nocase ts (x # s) \<or> glob_matches nocase (t # ts) s
      else token_matches nocase x t \<and> glob_matches nocase ts s)"

section \<open>The matcher computes the reference\<close>

lemma sint_c_tolower: "sint (c_tolower c) = fold_code True (sint c)"
proof -
  have "\<forall>n \<in> set [0..<256]. sint (c_tolower (word_of_nat n)) = fold_code True (sint (word_of_nat n :: byte))"
    by code_simp
  then have "sint (c_tolower (word_of_nat (unat c))) = fold_code True (sint (word_of_nat (unat c) :: byte))"
    using unsigned_less [of c, where ?'a = nat] by (elim bspec) simp
  then show ?thesis by simp
qed

lemma sint_eq_iff: "sint c = sint x \<longleftrightarrow> c = x"
  by (auto intro: signed_word_eqI)

lemma glob_same_code: "glob_same nocase c x \<longleftrightarrow> same_code nocase c x"
proof (cases nocase)
  case True
  have "c_tolower c = c_tolower x \<longleftrightarrow> sint (c_tolower c) = sint (c_tolower x)"
    by (simp add: sint_eq_iff)
  then show ?thesis
    using True by (simp add: glob_same_def same_code_def sint_c_tolower)
qed (simp add: glob_same_def same_code_def fold_code_def sint_eq_iff)

lemma glob_range_code: "glob_range nocase c e x \<longleftrightarrow> class_matches nocase x (CRange c e)"
proof -
  have "fold_code False n = n" for n
    by (simp add: fold_code_def)
  then show ?thesis
    by (cases nocase) (auto simp: glob_range_def Let_def sint_c_tolower min_def max_def)
qed

lemma load_at: "p = length a \<Longrightarrow> load (a @ x # b) p = Some x"
  by (simp add: load_def)

lemma load_at_1: "p = length a \<Longrightarrow> load (a @ x # y # b) (Suc p) = Some y"
  by (simp add: load_def nth_append)

lemma load_at_2: "p = length a \<Longrightarrow> load (a @ x # y # z # b) (Suc (Suc p)) = Some z"
  by (simp add: load_def nth_append)

lemmas load_ats = load_at load_at_1 load_at_2

lemma class_text_head: "class_ok m \<Longrightarrow> \<exists>d r. class_text m = d # r \<and> d \<noteq> 45"
  by (cases m) auto

lemma class_loop_ok:
  assumes x: "load sm s = Some x" and plen: "plen = int (length (concat (map class_text cs))) + 1 + int n"
    and cs: "list_all class_ok cs" and p: "p = length a"
  shows "class_loop nocase (a @ concat (map class_text cs) @ 93 # b) sm s p plen match =
    Some (p + length (concat (map class_text cs)), 1 + int n, match \<or> list_ex (class_matches nocase x) cs)"
  using plen cs p
proof (induction cs arbitrary: a p plen match)
  case Nil
  then show ?case
    by (subst class_loop.simps) (simp add: load_at)
next
  case (Cons m cs)
  let ?r = "concat (map class_text cs) @ 93 # b"
  have IH: "class_loop nocase ((a @ class_text m) @ ?r) sm s (p + length (class_text m)) (plen - int (length (class_text m))) match' =
    Some (p + length (class_text m) + length (concat (map class_text cs)), 1 + int n, match' \<or> list_ex (class_matches nocase x) cs)" for match'
    using Cons.prems by (intro Cons.IH) simp_all
  have next1: "\<exists>d r. ?r = d # r \<and> d \<noteq> 45"
  proof (cases cs)
    case (Cons m' cs')
    then show ?thesis
      using Cons.prems(2) class_text_head [of m'] by auto
  qed simp
  show ?case
  proof (cases m)
    case (COne c)
    obtain d r where r: "?r = d # r" "d \<noteq> 45"
      using next1 by blast
    have "load (a @ c # ?r) p = Some c" "load (a @ c # ?r) (p + 1) = Some d"
      using Cons.prems(3) r(1) by (simp_all add: load_ats)
    then show ?thesis
      using IH [of "match \<or> glob_same nocase c x"] Cons.prems(1,2) r(2) x COne
      by (subst class_loop.simps) (simp add: algebra_simps glob_same_code)
  next
    case (CEsc c)
    then show ?thesis
      using IH [of "match \<or> c = x"] Cons.prems x
      by (subst class_loop.simps) (simp add: load_ats algebra_simps)
  next
    case (CRange c e)
    then show ?thesis
      using IH [of "match \<or> glob_range nocase c e x"] Cons.prems x
      by (subst class_loop.simps) (simp add: load_ats algebra_simps numeral_3_eq_3 glob_range_code del: atLeastAtMost_iff)
  qed
qed

lemma glob_text_simps [simp]: "glob_text [] = []" "glob_text (t # ts) = token_text t @ glob_text ts"
  by (simp_all add: glob_text_def)

lemma token_text_head: "\<exists>c r. token_text t = c # r \<and> (c = 42 \<longleftrightarrow> t = GStar)"
  by (cases t) auto

lemma class_head_ok:
  assumes "token_ok (GClass False cs)"
  shows "\<exists>d r. concat (map class_text cs) @ 93 # b = d # r \<and> d \<noteq> 94"
  using assms by (cases "concat (map class_text cs)") (simp_all del: concat_eq_Nil_conv Nil_eq_concat_conv)

text \<open>One token that is not a star, at a character of the string or its terminator.\<close>

lemma glob_item_ok:
  assumes t: "t \<noteq> GStar" "token_ok t" and p: "p = length a" and x: "load sm s = Some x"
    and plen: "plen = int (length (token_text t) + n)" and any: "t = GAny \<longrightarrow> slen \<noteq> 0"
  shows "\<exists>c. load (a @ token_text t @ b) p = Some c \<and> c \<noteq> 42 \<and>
    glob_item nocase (a @ token_text t @ b) sm c p plen s slen =
      Some (if token_matches nocase x t then Some (p + length (token_text t) - 1, int n + 1, s + 1, slen - 1) else None)"
proof (cases t)
  case GAny
  then show ?thesis
    using any plen p by (simp add: glob_item_def load_at)
next
  case (GLit c)
  then show ?thesis
    using plen p x by (auto simp: glob_item_def load_ats Let_def glob_same_code)
next
  case (GClass neg cs)
  let ?cs = "concat (map class_text cs)"
  have ok: "list_all class_ok cs"
    using t(2) GClass by simp
  show ?thesis
  proof (cases neg)
    case True
    have "class_loop nocase ((a @ [91, 94]) @ ?cs @ 93 # b) sm s (p + 2) (plen - 2) False =
        Some (p + 2 + length ?cs, 1 + int n, False \<or> list_ex (class_matches nocase x) cs)"
      using plen p GClass True by (intro class_loop_ok [OF x _ ok]) auto
    then show ?thesis
      using plen p x GClass True by (simp add: glob_item_def load_ats Let_def)
  next
    case False
    obtain d r where d: "?cs @ 93 # b = d # r" "d \<noteq> 94"
      using class_head_ok [of cs b] t(2) GClass False by auto
    have "class_loop nocase ((a @ [91]) @ ?cs @ 93 # b) sm s (p + 1) (plen - 1) False =
        Some (p + 1 + length ?cs, 1 + int n, False \<or> list_ex (class_matches nocase x) cs)"
      using plen p GClass False by (intro class_loop_ok [OF x _ ok]) auto
    then show ?thesis
      using plen p x GClass False d by (simp add: glob_item_def load_ats Let_def)
  qed
qed (use t in simp)

lemma end_skip_ok:
  assumes "p = length a" "plen = int (length (glob_text ts))"
  shows "\<exists>p' plen'. end_skip (a @ glob_text ts @ 0 # b) p plen = Some (p', plen') \<and> (plen' = 0 \<longleftrightarrow> glob_matches nocase ts [])"
  using assms
proof (induction ts arbitrary: a p plen)
  case Nil
  then show ?case
    by (subst end_skip.simps) (simp add: load_at)
next
  case (Cons t ts)
  show ?case
  proof (cases "t = GStar")
    case True
    have "\<exists>p' plen'. end_skip ((a @ [42]) @ glob_text ts @ 0 # b) (p + 1) (plen - 1) = Some (p', plen') \<and>
        (plen' = 0 \<longleftrightarrow> glob_matches nocase ts [])"
      using Cons.prems True by (intro Cons.IH) auto
    then show ?thesis
      using Cons.prems True by (subst end_skip.simps) (simp add: load_at)
  next
    case False
    obtain c r where "token_text t = c # r" "c \<noteq> 42"
      using token_text_head [of t] False by auto
    then show ?thesis
      using Cons.prems False by (subst end_skip.simps) (simp add: load_at)
  qed
qed

lemma glob_run_star:
  "load pm p = Some 42 \<Longrightarrow> plen \<noteq> 0 \<Longrightarrow> glob_run nocase pm sm False p plen s slen =
     do { (p, plen) \<leftarrow> star_skip pm p plen;
          if plen = 1 then Some True else glob_run nocase pm sm True p plen s slen }"
  by (subst glob_run.simps) simp

lemma glob_run_star_star:
  assumes "load pm p = Some 42" "load pm (Suc p) = Some 42" "plen > 1"
  shows "glob_run nocase pm sm False p plen s slen = glob_run nocase pm sm False (Suc p) (plen - 1) s slen"
proof -
  have "star_skip pm p plen = star_skip pm (Suc p) (plen - 1)"
    using assms(2) by (subst star_skip.simps) simp
  then show ?thesis
    using assms glob_run_star [of pm p plen nocase sm s slen] glob_run_star [of pm "Suc p" "plen - 1" nocase sm s slen]
    by simp
qed

lemma glob_run_suffixes:
  assumes run: "\<And>c s. s \<noteq> [] \<Longrightarrow> sm = c @ s @ 0 # d \<Longrightarrow>
      glob_run nocase pm sm False (p + 1) (plen - 1) (length c) (int (length s)) = Some (glob_matches nocase ts s)"
    and none: "\<not> glob_matches nocase ts []"
  shows "sm = c @ s @ 0 # d \<Longrightarrow>
    glob_run nocase pm sm True p plen (length c) (int (length s)) = Some (glob_matches nocase (GStar # ts) s)"
proof (induction s arbitrary: c)
  case Nil
  then show ?case
    using none by (subst glob_run.simps) simp
next
  case (Cons x s)
  have "glob_run nocase pm sm True p plen (length (c @ [x])) (int (length s)) = Some (glob_matches nocase (GStar # ts) s)"
    using Cons.prems by (intro Cons.IH) simp
  then show ?case
    using run [of "x # s" c] Cons.prems by (subst glob_run.simps) simp
qed

lemma glob_matches_star_star: "glob_matches nocase (GStar # GStar # ts) s = glob_matches nocase (GStar # ts) s"
  by (induction s) auto

lemma glob_matches_star_all: "glob_matches nocase [GStar] s"
  by (induction s) auto

lemma glob_run_ok:
  assumes "s \<noteq> []" "list_all token_ok ts"
  shows "glob_run nocase (a @ glob_text ts @ 0 # b) (c @ s @ 0 # d) False (length a) (int (length (glob_text ts)))
      (length c) (int (length s)) = Some (glob_matches nocase ts s)"
  using assms
proof (induction ts arbitrary: a c s)
  case Nil
  then show ?case
    by (subst glob_run.simps) simp
next
  case (Cons t ts)
  let ?pm = "a @ glob_text (t # ts) @ 0 # b" and ?sm = "c @ s @ 0 # d" and ?plen = "int (length (glob_text (t # ts)))"
  have ok: "token_ok t" "list_all token_ok ts"
    using Cons.prems(2) by simp_all
  have IH: "glob_run nocase ?pm (c' @ s' @ 0 # d) False (length a + length (token_text t)) (int (length (glob_text ts)))
      (length c') (int (length s')) = Some (glob_matches nocase ts s')" if "s' \<noteq> []" for c' s'
    using Cons.IH [OF that ok(2), of "a @ token_text t" c'] by simp
  show ?case
  proof (cases "t = GStar")
    case True
    have l0: "load ?pm (length a) = Some 42"
      using True by (simp add: load_at)
    consider "ts = []" | ts' where "ts = GStar # ts'" | t' ts' where "ts = t' # ts'" "t' \<noteq> GStar"
      by (cases ts) auto
    then show ?thesis
    proof cases
      case 1
      have "star_skip ?pm (length a) ?plen = Some (length a, 1)"
        using True 1 by (subst star_skip.simps) (simp add: load_ats)
      then show ?thesis
        using l0 True 1 glob_matches_star_all by (subst glob_run_star) simp_all
    next
      case (2 ts')
      have "glob_run nocase ?pm ?sm False (length a) ?plen (length c) (int (length s)) =
          glob_run nocase ?pm ?sm False (Suc (length a)) (?plen - 1) (length c) (int (length s))"
        using l0 True 2 by (intro glob_run_star_star) (simp_all add: load_ats)
      then show ?thesis
        using IH [OF Cons.prems(1), of c] True 2 glob_matches_star_star by simp
    next
      case (3 t' ts')
      obtain e r where e: "token_text t' = e # r" "e \<noteq> 42"
        using token_text_head [of t'] 3(2) by auto
      have skip: "star_skip ?pm (length a) ?plen = Some (length a, ?plen)"
        using True 3 e by (subst star_skip.simps) (simp add: load_ats)
      have "glob_run nocase ?pm ?sm True (length a) ?plen (length c) (int (length s)) = Some (glob_matches nocase (GStar # ts) s)"
      proof (rule glob_run_suffixes)
        show "glob_run nocase ?pm ?sm False (length a + 1) (?plen - 1) (length c') (int (length s')) =
            Some (glob_matches nocase ts s')" if "s' \<noteq> []" "?sm = c' @ s' @ 0 # d" for c' s'
          using IH [OF that(1), of c'] True unfolding that(2) by simp
        show "\<not> glob_matches nocase ts []"
          using 3 by simp
      qed simp
      then show ?thesis
        using l0 skip True 3 e by (subst glob_run_star) simp_all
    qed
  next
    case False
    obtain x s' where s: "s = x # s'"
      using Cons.prems(1) by (cases s) auto
    have x: "load ?sm (length c) = Some x"
      by (simp add: s load_at)
    have any: "t = GAny \<longrightarrow> int (length s) \<noteq> 0"
      using Cons.prems(1) by simp
    have plen: "?plen = int (length (token_text t) + length (glob_text ts))"
      by simp
    obtain e where e: "load ?pm (length a) = Some e" "e \<noteq> 42"
      "glob_item nocase ?pm ?sm e (length a) ?plen (length c) (int (length s)) =
        Some (if token_matches nocase x t
              then Some (length a + length (token_text t) - 1, int (length (glob_text ts)) + 1, length c + 1, int (length s'))
              else None)"
      using glob_item_ok [OF False ok(1) refl x plen any, of a "glob_text ts @ 0 # b" nocase] by (auto simp: s)
    have tt: "length (token_text t) \<noteq> 0"
      using token_text_head [of t] by auto
    have rest: "glob_run nocase ?pm ?sm False (length a + length (token_text t)) (int (length (glob_text ts))) (length c + 1) (int (length s')) =
        Some (glob_matches nocase ts s')" if "s' \<noteq> []"
      using IH [OF that, of "c @ [x]"] by (simp add: s)
    obtain p' plen' where fin: "end_skip ?pm (length a + length (token_text t)) (int (length (glob_text ts))) = Some (p', plen')"
      "plen' = 0 \<longleftrightarrow> glob_matches nocase ts []"
      using end_skip_ok [OF refl refl, of "a @ token_text t" ts b nocase] by auto
    have nz: "int (length (token_text t)) + int (length (glob_text ts)) \<noteq> 0"
      using tt by linarith
    show ?thesis
      using e tt nz rest fin False
      by (subst glob_run.simps) (cases "s' = []"; simp add: s)
  qed
qed

text \<open>
  On the empty string only the first token of the pattern sees the terminator: everything is as on
  other strings unless that token is a class or a literal zero byte.
\<close>

definition empty_safe :: "glob_token list \<Rightarrow> bool" where
  "empty_safe ts = (case ts of GClass _ _ # _ \<Rightarrow> False | GLit c # _ \<Rightarrow> c \<noteq> 0 | _ \<Rightarrow> True)"

lemma star_skip_ok:
  assumes "p = length a" "plen = int (Suc (length (glob_text ts)))"
  shows "\<exists>p' plen'. star_skip (a @ 42 # glob_text ts @ 0 # b) p plen = Some (p', plen') \<and> (plen' = 1 \<longleftrightarrow> glob_matches nocase ts [])"
  using assms
proof (induction ts arbitrary: a p plen)
  case Nil
  then show ?case
    by (subst star_skip.simps) (simp add: load_ats)
next
  case (Cons t ts)
  show ?case
  proof (cases "t = GStar")
    case True
    have "\<exists>p' plen'. star_skip ((a @ [42]) @ 42 # glob_text ts @ 0 # b) (p + 1) (plen - 1) = Some (p', plen') \<and>
        (plen' = 1 \<longleftrightarrow> glob_matches nocase ts [])"
      using Cons.prems True by (intro Cons.IH) auto
    then show ?thesis
      using Cons.prems True by (subst star_skip.simps) (simp add: load_ats)
  next
    case False
    obtain c r where "token_text t = c # r" "c \<noteq> 42"
      using token_text_head [of t] False by auto
    then show ?thesis
      using Cons.prems False by (subst star_skip.simps) (simp add: load_ats)
  qed
qed

lemma fold_code_zero: "fold_code nocase n = 0 \<longleftrightarrow> n = 0"
  by (auto simp: fold_code_def)

lemma glob_run_empty:
  assumes "empty_safe ts"
  shows "glob_run nocase (glob_text ts @ 0 # b) (0 # d) False 0 (int (length (glob_text ts))) 0 0 = Some (glob_matches nocase ts [])"
proof (cases ts)
  case Nil
  then show ?thesis
    by (subst glob_run.simps) simp
next
  case (Cons t us)
  show ?thesis
  proof (cases t)
    case GStar
    obtain p' plen' where skip: "star_skip ([] @ 42 # glob_text us @ 0 # b) 0 (int (Suc (length (glob_text us)))) = Some (p', plen')"
      "plen' = 1 \<longleftrightarrow> glob_matches nocase us []"
      using star_skip_ok [OF refl refl, of "[]" us b nocase] by auto
    have "glob_run nocase (glob_text ts @ 0 # b) (0 # d) True p' plen' 0 0 = Some False"
      by (subst glob_run.simps) simp
    then show ?thesis
      using skip Cons GStar by (subst glob_run_star) (simp_all add: load_def)
  next
    case GAny
    then show ?thesis
      using Cons by (subst glob_run.simps) (simp add: load_def glob_item_def)
  next
    case (GLit c)
    then have "\<not> glob_same nocase c 0"
      using assms Cons fold_code_zero [of nocase "sint c"] fold_code_zero [of nocase 0]
      by (auto simp: empty_safe_def glob_same_code same_code_def sint_eq_iff [of c 0, simplified])
    then show ?thesis
      using Cons GLit by (subst glob_run.simps) (auto simp: load_def glob_item_def Let_def)
  next
    case (GClass neg cs)
    then show ?thesis
      using assms Cons by (simp add: empty_safe_def)
  qed
qed

section \<open>Properties\<close>

text \<open>C22: On every well-formed pattern and every non-empty string \<open>stringmatchlen\<close> returns, reads inside the two
  blocks, and decides whether the string is in the language of the pattern: stars, single characters,
  literals and classes, with and without case folding. On the empty string the same holds for the patterns that do
  not begin with a class or a literal zero byte; those are excluded because there the code compares
  the terminator of the string as if it were a character, as the next property shows.\<close>

theorem stringmatchlen_correct:
  assumes ts: "list_all token_ok ts" and s: "s \<noteq> [] \<or> empty_safe ts"
  shows "stringmatchlen (glob_text ts @ 0 # b) (int (length (glob_text ts))) (s @ 0 # d) (int (length s)) nocase =
    Some (glob_matches nocase ts s)"
proof (cases "s = []")
  case True
  then show ?thesis
    using glob_run_empty [of ts nocase b d] s by (simp add: stringmatchlen_def)
next
  case False
  then show ?thesis
    using glob_run_ok [OF False ts, of nocase "[]" b "[]" d] by (simp add: stringmatchlen_def)
qed

text \<open>The pattern is \<open>h[^a-dx]*o\<close>.\<close>

theorem stringmatchlen_correct_witness:
  "stringmatchlen [104, 91, 94, 97, 45, 100, 120, 93, 42, 111, 0] 10 [104, 101, 108, 108, 111, 0] 5 False = Some True"
proof -
  let ?ts = "[GLit 104, GClass True [CRange 97 100, COne 120], GStar, GLit 111]"
  have "glob_matches False ?ts [104, 101, 108, 108, 111]"
    by code_simp
  then show ?thesis
    using stringmatchlen_correct [of ?ts "[104, 101, 108, 108, 111]" "[]" "[]" False] by simp
qed

text \<open>C23: The empty string is matched against its terminator. A negated class and a star match the empty
  string, although a class stands for one character; two negated classes read behind the terminator. A
  class whose text ends in a backslash reads behind the pattern's terminator, whatever the string.\<close>

theorem stringmatchlen_flaws:
  assumes cs: "list_all class_ok cs" "\<not> list_ex (class_matches nocase 0) cs"
  shows "stringmatchlen (glob_text [GClass True cs, GStar] @ [0]) (int (length (glob_text [GClass True cs, GStar]))) [0] 0 nocase = Some True \<and>
    \<not> glob_matches nocase [GClass True cs, GStar] [] \<and>
    stringmatchlen [91, 94, 97, 93, 91, 94, 97, 93, 0] 8 [0] 0 nocase = None \<and>
    stringmatchlen [91, 92, 0] 2 (x # s) n nocase = None"
proof (intro conjI)
  let ?t = "GClass True cs"
  have x: "load [0 :: byte] 0 = Some 0" and ok: "token_ok ?t" "?t \<noteq> GStar"
    using cs by (simp_all add: load_def)
  obtain e where e: "load ([] @ token_text ?t @ [42, 0]) 0 = Some e" "e \<noteq> 42"
    "glob_item nocase ([] @ token_text ?t @ [42, 0]) [0] e 0 (int (length (token_text ?t) + 1)) 0 0 =
      Some (Some (0 + length (token_text ?t) - 1, 2, 1, -1))"
    using glob_item_ok [OF ok(2,1) _ x refl, of 0 "[]" 0 "[42, 0]" nocase 1] cs(2) by auto
  have "glob_run nocase ([] @ token_text ?t @ [42, 0]) [0] False (length (token_text ?t)) 1 1 (-1) = Some True"
    using star_skip_ok [OF refl, of 1 "[]" "token_text ?t" "[]" nocase]
    by (subst glob_run_star) (auto simp: load_def nth_append)
  then show "stringmatchlen (glob_text [?t, GStar] @ [0]) (int (length (glob_text [?t, GStar]))) [0] 0 nocase = Some True"
    using e unfolding stringmatchlen_def by (subst glob_run.simps) (simp add: load_def)
  show "\<not> glob_matches nocase [?t, GStar] []"
    by simp
  show "stringmatchlen [91, 94, 97, 93, 91, 94, 97, 93, 0] 8 [0] 0 nocase = None"
    unfolding stringmatchlen_def
    by (subst glob_run.simps) (simp add: load_def glob_item_def class_loop.simps glob_same_def c_tolower_def glob_run.simps)
  show "stringmatchlen [91, 92, 0] 2 (x # s) n nocase = None"
    unfolding stringmatchlen_def
    by (subst glob_run.simps) (simp add: load_def glob_item_def class_loop.simps)
qed

theorem stringmatchlen_flaws_witness:
  "stringmatchlen [91, 94, 97, 93, 42, 0] 5 [0] 0 False = Some True \<and> \<not> glob_matches False [GClass True [COne 97], GStar] []"
  using stringmatchlen_flaws [of "[COne 97]" False] by (simp add: same_code_def fold_code_def)

end
