(* ===== verification/Spec2Isabelle.thy ===== *)
theory Spec2Isabelle
  imports Intset Util_Numbers Lzf Crc Dict_Scan Dict_Iter Dict_Hash Sds_Format Ziplist_Refinement Adlist Util_Glob
begin

text \<open>
  A verification development for the storage core of Redis 3.0.0, the in-memory key-value store of the
  benchmark suite (\<^verbatim>\<open>src/redis-3.0.0/src\<close>).

  \<^bold>\<open>The program.\<close> The server keeps its keyspace, its hashes and its sets in hash tables
  (\<^verbatim>\<open>dict.c\<close>) whose keys are dynamic strings (\<^verbatim>\<open>sds.c\<close>). Small sets of integers are packed into one sorted
  block (\<^verbatim>\<open>intset.c\<close>), small lists, hashes and sorted sets into one block of variable length
  entries (\<^verbatim>\<open>ziplist.c\<close>), which recognise integers with the conversions of \<^verbatim>\<open>util.c\<close>. Large lists and the
  queues of the server are linked lists (\<^verbatim>\<open>adlist.c\<close>). Values are written to disk compressed
  (\<^verbatim>\<open>lzf_c.c\<close>, \<^verbatim>\<open>lzf_d.c\<close>), in little endian byte order (\<^verbatim>\<open>endianconv.c\<close>) and with a checksum (\<^verbatim>\<open>crc64.c\<close>);
  \<^verbatim>\<open>crc16.c\<close> assigns keys to the slots of a cluster. \<open>KEYS\<close>, \<open>SCAN\<close> and the subscriptions select names with
  the glob matcher of \<^verbatim>\<open>util.c\<close>.

  \<^bold>\<open>How C is modelled.\<close> A block of memory is the list of its bytes and a pointer into it an
  offset. Reading or writing outside a block, following a dead pointer, a failed assertion and a loop
  that never ends are the value \<open>None\<close> of an outer option, so a theorem that an operation gives
  \<open>Some\<close> says that it returns and touches nothing it should not. C integers are integers or natural
  numbers with the conversion to their width written out where a value can leave it, and words where
  the code works on bits. A chain of a bucket is the list of its entries. The bytes an allocation does not initialise are an arbitrary function
  \<open>fill\<close>; allocation succeeds, since \<open>zmalloc\<close> aborts otherwise. Code that is called through a
  pointer or lies outside these files is a parameter: the hash and comparison functions of a dictionary
  type, the duplication, release and match methods of a list, the allocator of its nodes, the
  results of \<open>random\<close>, the addresses of bucket arrays. Loops are recursive functions with a measure, or
  partial functions whose results are proved to exist; no fuel is used.

  \<^bold>\<open>The theories.\<close>

  \<^item> \<^verbatim>\<open>Redis_Prelude\<close>: bytes, C integer conversions, little endian encodings. \<^verbatim>\<open>Memory\<close>: checked loads,
    stores and moves on a block. Both give their rewrite rules in named collections.

  \<^item> \<^verbatim>\<open>Endianconv\<close> (\<^verbatim>\<open>endianconv.c\<close>): in-place byte reversal.

  \<^item> \<^verbatim>\<open>Set_Store\<close> is the interface of a set of integers as a locale; \<^verbatim>\<open>Intset\<close> (\<^verbatim>\<open>intset.c\<close>) models every
    operation on the raw block, every access checked against it, and interprets the locale. Binary search,
    upgrades of the encoding, insertion and removal stay inside the block, keep it sorted and implement a
    mathematical set.

  \<^item> \<^verbatim>\<open>Util_Numbers\<close> (\<^verbatim>\<open>util.c\<close>): \<open>digits10\<close>, \<open>ll2string\<close>, \<open>string2ll\<close>, \<open>string2l\<close> and \<open>memtoll\<close>. Printing and
    parsing are inverse, and parsing accepts exactly the canonical representations of 64 bit numbers.

  \<^item> \<^verbatim>\<open>Util_Glob\<close> (\<^verbatim>\<open>util.c\<close>): \<open>stringmatchlen\<close> decides the language of every well-formed pattern, which is
    defined on character numbers without the functions of the matcher; what it does with the empty string when the pattern
    begins with a class, and with an unfinished class, is shown as well.

  \<^item> \<^verbatim>\<open>Lzf\<close> (\<^verbatim>\<open>lzf_c.c\<close>, \<^verbatim>\<open>lzf_d.c\<close>): compressor and decompressor with the hash table of the
    compressor. Decompression restores what was compressed and is memory safe on arbitrary input.

  \<^item> \<^verbatim>\<open>Crc_Register\<close> is the theory of a checksum register as a locale; \<^verbatim>\<open>Crc\<close> (\<^verbatim>\<open>crc16.c\<close>, \<^verbatim>\<open>crc64.c\<close>)
    interprets it twice, proves the tables and the table driven loops equal to division of
    polynomials bit by bit, and derives what errors are detected.

  \<^item> \<^verbatim>\<open>Dict\<close> (\<^verbatim>\<open>dict.c\<close>): the two tables of a dictionary, incremental rehashing, lookup, update, deletion
    and destruction, with the invariant all of them keep. \<^verbatim>\<open>Dict_Refinement\<close>: histories of operations
    implement a partial map, through rehashing at any point. \<^verbatim>\<open>Dict_Scan\<close>: the stateless cursor of
    \<open>dictScan\<close>, its completeness and the case in which it fails. \<^verbatim>\<open>Dict_Iter\<close>: safe and unsafe iterators
    and random entries. \<^verbatim>\<open>Dict_Hash\<close>: the three hash functions.

  \<^item> \<^verbatim>\<open>String_Buffer\<close> is the interface of an appendable string as a locale; \<^verbatim>\<open>Sds\<close> (\<^verbatim>\<open>sds.c\<close>) models header
    and buffer, interprets it, and proves that histories of operations compute on byte strings.
    \<^verbatim>\<open>Sds_Format\<close>: quoting, splitting of argument lines, \<open>sdscatfmt\<close> and number printing.

  \<^item> \<^verbatim>\<open>Ziplist\<close> (\<^verbatim>\<open>ziplist.c\<close>): the definitions. \<^verbatim>\<open>Ziplist_Entries\<close>: encoding and decoding of one
    entry. \<^verbatim>\<open>Ziplist_Updates\<close>: insertion, deletion and the cascade of back links on a block. \<^verbatim>\<open>Ziplist_Refinement\<close>:
    histories of operations implement a list of byte strings; traversal, search and
    types; the state in which an insertion reads behind the block.

  \<^item> \<^verbatim>\<open>Adlist\<close> (\<^verbatim>\<open>adlist.c\<close>): linked nodes in a heap. Histories of operations implement a sequence, read in
    both directions, own exactly their nodes and give all of them back; duplication; deletion under an
    iterator. Headers and iterators are values outside the heap.

  \<^bold>\<open>Bounds.\<close> Histories of a dictionary have at most \<open>2 ^ 30\<close> operations, because \<open>_dictKeyIndex\<close> returns a
  bucket as an \<open>int\<close>, those of an intset less than \<open>2 ^ 28\<close>; those of a string stay below \<open>2 ^ 31\<close> bytes, because the header counts in
  32 bits; lists have less than \<open>2 ^ 64\<close> nodes. Blocks of a ziplist stay below the
  32 bit size in their header, and histories insert by index only values whose encoding and contents take at
  least three bytes. A random entry is found when the two tables have at most \<open>2 ^ 31\<close> buckets together, the number
  of results \<open>random\<close> has. Each bound is a hypothesis of the theorem that needs it. The argument of \<open>dictRehash\<close> is
  small enough that its product with ten does not overflow.

  \<^bold>\<open>Where the code and its description part.\<close> Five properties describe inputs on which the code
  faults or does something else than its comments say: \<open>lzf_compress\<close> can store one byte behind its
  output, \<open>dictScan\<close> misses keys when a table shrinks, \<open>sdscatfmt\<close> reads behind a format that ends in
  a percent sign, \<open>ziplistInsert\<close> can shrink the block too early and read behind it, and \<open>stringmatchlen\<close>
  compares a class with the terminator of an empty string. They are theorems about the same
  definitions as the others.

  \<^bold>\<open>Not modelled.\<close> The command handlers over these containers, the event loop, networking, persistence,
  replication, cluster and sentinel are input and output around global state. Of the modelled
  files, \<open>dictRehashMilliseconds\<close> and the cryptographic seeding of names depend on the clock and on files,
  \<open>dictGetSomeKeys\<close> and the statistics of a dictionary are left out, formatted printing through
  \<open>vsnprintf\<close> belongs to the C library, and the self tests of the files are not part of the server. Bundled
  libraries and the other programs of the suite (GraphChi, Metis, Graph500, GTC, STREAM, the
  allocators and the scripts) share no code with the server.
\<close>

end
